(* ===== verification/Go_Prelude.thy ===== *)
theory Go_Prelude
  imports Main "HOL-Library.Word" "HOL-Library.AList" "HOL-Library.Char_ord"
    "HOL-Library.List_Lexorder" "HOL-Library.Multiset"
begin

text \<open>
  What the components share of Go and of its standard library: byte strings, the
  64-bit integers, the built-in maps, the clock, and the functions of
  \<^verbatim>\<open>strconv\<close>, \<^verbatim>\<open>strings\<close> and \<^verbatim>\<open>sort\<close> the program calls.

  \<^item> A Go string and the contents of a byte slice are \<open>bytes\<close>, a list of 8-bit
    characters.  A byte slice whose being nil the code tests is a \<open>bytes option\<close>.
  \<^item> A Go \<open>int64\<close> is an \<open>int\<close>; the places where the code can overflow write the
    wrap-around out with \<open>wrap64\<close>.  Counters that wrap by design are words.
  \<^item> A Go map is an association list with distinct keys.  Its order stands for the
    unspecified order in which Go iterates over the map, so a statement about every
    association list is a statement about every iteration order.
\<close>

named_theorems go_defs \<open>definitions that model straight-line code\<close>
named_theorems map_laws \<open>lookup, size and key laws of Go maps\<close>

type_synonym bytes = "char list"
type_synonym ('k, 'v) gomap = "('k \<times> 'v) list"


section \<open>Lists and options\<close>

lemma distinct_map_fst_map_of_eq:
  "distinct (map fst m) \<Longrightarrow> (k, v) \<in> set m \<longleftrightarrow> map_of m k = Some v"
  by (simp add: Some_eq_map_of_iff)

text \<open>Lists that hold the elements routed to their index have no element in common.\<close>

lemma distinct_concat_routed:
  assumes "distinct ns" and "\<And>i. distinct (f i)" and "\<And>i k. k \<in> set (f i) \<Longrightarrow> idx k = i"
  shows "distinct (concat (map f ns))"
  using assms(1)
proof (induction ns)
  case (Cons i ns)
  have "set (f i) \<inter> (\<Union>j\<in>set ns. set (f j)) = {}" using Cons.prems assms(3) by auto
  with Cons assms(2) [of i] show ?case by auto
qed simp

lemma remove1_removeAll_distinct: "distinct xs \<Longrightarrow> remove1 x xs = removeAll x xs"
  by (simp add: distinct_remove1_removeAll)


section \<open>Signed 64-bit integers\<close>

definition maxInt64 :: int where
  "maxInt64 = 9223372036854775807"

definition minInt64 :: int where
  "minInt64 = - 9223372036854775808"

text \<open>The value of an \<open>int64\<close> expression whose mathematical value is \<open>x\<close>.\<close>

definition wrap64 :: "int \<Rightarrow> int" where
  "wrap64 x = (x + 9223372036854775808) mod 18446744073709551616 - 9223372036854775808"

definition in_int64 :: "int \<Rightarrow> bool" where
  "in_int64 x \<longleftrightarrow> minInt64 \<le> x \<and> x \<le> maxInt64"

lemmas int64_defs = maxInt64_def minInt64_def wrap64_def in_int64_def

lemma wrap64_in_range [simp]: "in_int64 (wrap64 x)"
proof -
  have "0 \<le> (x + 9223372036854775808) mod 18446744073709551616"
    and "(x + 9223372036854775808) mod 18446744073709551616 < 18446744073709551616"
    by simp_all
  then show ?thesis
    unfolding int64_defs by linarith
qed

lemma wrap64_id: "in_int64 x \<Longrightarrow> wrap64 x = x"
  by (simp add: int64_defs)

lemma wrap64_idem [simp]: "wrap64 (wrap64 x) = wrap64 x"
  by (simp add: wrap64_id)

text \<open>\<open>wrap64\<close> is the two's complement reading of a 64-bit word.\<close>

lemma wrap64_sint: "wrap64 x = sint (word_of_int x :: 64 word)"
proof -
  have "sint (word_of_int x :: 64 word) = signed_take_bit 63 x"
    by (simp add: signed_of_int)
  also have "\<dots> = wrap64 x"
    by (simp add: wrap64_def signed_take_bit_eq_take_bit_shift take_bit_eq_mod)
  finally show ?thesis by simp
qed


section \<open>Go maps\<close>

abbreviation mapGet :: "('k, 'v) gomap \<Rightarrow> 'k \<Rightarrow> 'v option" where
  "mapGet \<equiv> map_of"

abbreviation mapPut :: "'k \<Rightarrow> 'v \<Rightarrow> ('k, 'v) gomap \<Rightarrow> ('k, 'v) gomap" where
  "mapPut \<equiv> AList.update"

abbreviation mapDel :: "'k \<Rightarrow> ('k, 'v) gomap \<Rightarrow> ('k, 'v) gomap" where
  "mapDel \<equiv> AList.delete"

abbreviation mapKeys :: "('k, 'v) gomap \<Rightarrow> 'k list" where
  "mapKeys m \<equiv> map fst m"

abbreviation mapOk :: "('k, 'v) gomap \<Rightarrow> bool" where
  "mapOk m \<equiv> distinct (map fst m)"

text \<open>The contract of a map and what follows from it for a loop of insertions.\<close>

locale go_map =
  fixes get :: "'m \<Rightarrow> 'k \<Rightarrow> 'v option"
    and put :: "'k \<Rightarrow> 'v \<Rightarrow> 'm \<Rightarrow> 'm"
    and del :: "'k \<Rightarrow> 'm \<Rightarrow> 'm"
    and ok :: "'m \<Rightarrow> bool"
    and size_of :: "'m \<Rightarrow> nat"
  assumes get_put: "ok m \<Longrightarrow> get (put k v m) = (get m)(k \<mapsto> v)"
    and get_del: "ok m \<Longrightarrow> get (del k m) = (get m)(k := None)"
    and ok_put: "ok m \<Longrightarrow> ok (put k v m)"
    and ok_del: "ok m \<Longrightarrow> ok (del k m)"
    and size_put: "ok m \<Longrightarrow> size_of (put k v m) = (if get m k = None then Suc (size_of m) else size_of m)"
    and size_del: "ok m \<Longrightarrow> size_of (del k m) = (if get m k = None then size_of m else size_of m - 1)"
begin

lemma put_loop_ok: "ok m \<Longrightarrow> ok (fold (\<lambda>(k, v) a. put k v a) ps m)"
  by (induction ps arbitrary: m) (auto simp: ok_put)

lemma put_loop_get: "ok m \<Longrightarrow> get (fold (\<lambda>(k, v) a. put k v a) ps m) = get m ++ map_of (rev ps)"
  by (induction ps arbitrary: m) (auto simp: ok_put get_put map_add_def fun_eq_iff split: option.splits)

lemma del_loop_ok: "ok m \<Longrightarrow> ok (fold del ks m)"
  by (induction ks arbitrary: m) (auto simp: ok_del)

lemma del_loop_get: "ok m \<Longrightarrow> get (fold del ks m) k = (if k \<in> set ks then None else get m k)"
  by (induction ks arbitrary: m) (auto simp: ok_del get_del)

end

lemma length_mapPut:
  "length (mapPut k v m) = (if mapGet m k = None then Suc (length m) else length m)"
  by (induction m) auto

lemma length_mapDel:
  "mapOk m \<Longrightarrow> length (mapDel k m) = (if mapGet m k = None then length m else length m - 1)"
proof (induction m)
  case Nil
  then show ?case by simp
next
  case (Cons p m)
  show ?case
  proof (cases "fst p = k")
    case True
    with Cons.prems have "k \<notin> fst ` set m" by auto
    with True show ?thesis by (cases p) auto
  next
    case False
    with Cons show ?thesis by (cases p; cases "mapGet m k"; cases m) auto
  qed
qed

interpretation gm: go_map mapGet mapPut mapDel mapOk length
  by unfold_locales
    (simp_all add: AList.update_conv' AList.delete_conv' AList.distinct_update
      AList.distinct_delete length_mapPut length_mapDel)

lemmas mapGet_simps [simp, map_laws] = AList.update_conv' AList.delete_conv'
lemmas mapOk_simps [simp, intro, map_laws] = AList.distinct_update AList.distinct_delete

lemma mapGet_in_keys: "mapGet m k \<noteq> None \<longleftrightarrow> k \<in> fst ` set m"
  by (metis map_of_eq_None_iff)

lemma mapGet_None_iff: "mapGet m k = None \<longleftrightarrow> k \<notin> fst ` set m"
  by (rule map_of_eq_None_iff)

lemma mapKeys_put [simp]: "fst ` set (mapPut k v m) = insert k (fst ` set m)"
  by (simp add: AList.dom_update)

lemma mapKeys_del [simp]: "fst ` set (mapDel k m) = fst ` set m - {k}"
  by (auto simp: AList.delete_eq)

text \<open>Sums over a map, for the memory accounting.\<close>

definition mapSum :: "('k \<Rightarrow> 'v \<Rightarrow> int) \<Rightarrow> ('k, 'v) gomap \<Rightarrow> int" where
  "mapSum f m = sum_list (map (\<lambda>(k, v). f k v) m)"

lemma mapSum_simps [simp]:
  "mapSum f [] = 0"
  "mapSum f ((k, v) # m) = f k v + mapSum f m"
  by (simp_all add: mapSum_def)

lemma mapSum_put:
  "mapOk m \<Longrightarrow> mapSum f (mapPut k v m) =
     mapSum f m - (case mapGet m k of None \<Rightarrow> 0 | Some w \<Rightarrow> f k w) + f k v"
proof (induction m)
  case Nil
  then show ?case by simp
next
  case (Cons p m)
  then show ?case by (cases p; cases "mapGet m k") (simp_all del: map_of_eq_Some_iff)
qed

lemma mapSum_del:
  "mapOk m \<Longrightarrow> mapSum f (mapDel k m) =
     mapSum f m - (case mapGet m k of None \<Rightarrow> 0 | Some w \<Rightarrow> f k w)"
proof (induction m)
  case Nil
  then show ?case by simp
next
  case (Cons p m)
  obtain a b where p: "p = (a, b)" by (cases p)
  show ?case
  proof (cases "a = k")
    case True
    with Cons.prems p have "k \<notin> fst ` set m" by auto
    with True p show ?thesis by auto
  next
    case False
    with Cons p show ?thesis by simp
  qed
qed

lemma mapSum_nonneg: "(\<And>k v. (k, v) \<in> set m \<Longrightarrow> 0 \<le> f k v) \<Longrightarrow> 0 \<le> mapSum f m"
  by (induction m) auto


section \<open>Exchange sort\<close>

text \<open>The nested loops of \<^verbatim>\<open>sortShardIndices\<close> and \<^verbatim>\<open>sortedKeys\<close>.\<close>

definition exchangeStep :: "nat \<Rightarrow> nat \<Rightarrow> 'a::linorder list \<Rightarrow> 'a list" where
  "exchangeStep i j xs = (if xs ! j < xs ! i then xs[i := xs ! j, j := xs ! i] else xs)"

definition exchangePass :: "nat \<Rightarrow> 'a::linorder list \<Rightarrow> 'a list" where
  "exchangePass i xs = fold (exchangeStep i) [Suc i..<length xs] xs"

definition exchangeSort :: "'a::linorder list \<Rightarrow> 'a list" where
  "exchangeSort xs = fold exchangePass [0..<length xs] xs"

lemma exchangeStep_mset:
  "i < length xs \<Longrightarrow> j < length xs \<Longrightarrow> mset (exchangeStep i j xs) = mset xs"
  by (auto simp: exchangeStep_def intro: mset_swap)

lemma exchangeStep_length [simp]: "length (exchangeStep i j xs) = length xs"
  by (simp add: exchangeStep_def)

text \<open>A pass puts a least element of the rest at position \<open>i\<close> and keeps what is before it.\<close>

definition passOk :: "nat \<Rightarrow> nat \<Rightarrow> 'a::linorder list \<Rightarrow> 'a list \<Rightarrow> bool" where
  "passOk i n xs ys \<longleftrightarrow> length ys = length xs \<and> mset ys = mset xs \<and> take i ys = take i xs \<and>
     (\<forall>j. i \<le> j \<and> j < n \<longrightarrow> ys ! i \<le> ys ! j)"

lemma passOk_step:
  assumes z: "passOk i n xs zs" and n: "i < n" "n < length xs"
  shows "passOk i (Suc n) xs (exchangeStep i n zs)"
proof -
  have len: "length zs = length xs" and le: "\<forall>j. i \<le> j \<and> j < n \<longrightarrow> zs ! i \<le> zs ! j"
    using z by (simp_all add: passOk_def)
  have "exchangeStep i n zs ! i \<le> exchangeStep i n zs ! j" if "i \<le> j" "j < Suc n" for j
  proof (cases "zs ! n < zs ! i")
    case True
    then have "zs ! n \<le> zs ! j'" if "i \<le> j'" "j' < n" for j'
      using le that by (meson less_imp_le order.trans)
    with True that n len show ?thesis
      by (auto simp: exchangeStep_def nth_list_update less_Suc_eq)
  next
    case False
    with that le n show ?thesis by (auto simp: exchangeStep_def less_Suc_eq)
  qed
  moreover have "take i (exchangeStep i n zs) = take i zs" using n by (simp add: exchangeStep_def)
  ultimately show ?thesis
    using z n len exchangeStep_mset [of i zs n] by (simp add: passOk_def)
qed

lemma passOk_fold:
  "i < n \<Longrightarrow> n \<le> length xs \<Longrightarrow> passOk i n xs (fold (exchangeStep i) [Suc i..<n] xs)"
proof (induction n)
  case (Suc n)
  show ?case
  proof (cases "i = n")
    case True
    then show ?thesis by (auto simp: passOk_def less_Suc_eq)
  next
    case False
    with Suc show ?thesis using passOk_step [of i n xs] by simp
  qed
qed simp

lemma passOk_pass: "i < length ys \<Longrightarrow> passOk i (length ys) ys (exchangePass i ys)"
  unfolding exchangePass_def by (intro passOk_fold) simp_all

definition frontSorted :: "nat \<Rightarrow> 'a::linorder list \<Rightarrow> bool" where
  "frontSorted i ys \<longleftrightarrow> sorted (take i ys) \<and> (\<forall>a\<in>set (take i ys). \<forall>b\<in>set (drop i ys). a \<le> b)"

lemma frontSorted_pass:
  assumes f: "frontSorted i ys" and i: "i < length ys"
  shows "frontSorted (Suc i) (exchangePass i ys)"
proof -
  let ?zs = "exchangePass i ys"
  have p: "passOk i (length ys) ys ?zs" by (rule passOk_pass [OF i])
  then have len: "length ?zs = length ys" and tk: "take i ?zs = take i ys"
    and le: "\<And>j. i \<le> j \<Longrightarrow> j < length ys \<Longrightarrow> ?zs ! i \<le> ?zs ! j" by (auto simp: passOk_def)
  have "mset (take i ?zs) + mset (drop i ?zs) = mset (take i ys) + mset (drop i ys)"
    using p by (metis append_take_drop_id mset_append passOk_def)
  with tk have rest: "set (drop i ?zs) = set (drop i ys)" by (metis add_left_cancel set_mset_mset)
  have d: "drop i ?zs = ?zs ! i # drop (Suc i) ?zs" using i len by (simp add: Cons_nth_drop_Suc)
  have t: "take (Suc i) ?zs = take i ys @ [?zs ! i]" using i len tk by (simp add: take_Suc_conv_app_nth)
  have least: "?zs ! i \<le> b" if "b \<in> set (drop (Suc i) ?zs)" for b
    using that le len by (auto simp: in_set_conv_nth)
  have mem: "?zs ! i \<in> set (drop i ys)" using rest d by (metis list.set_intros(1))
  have "set (drop (Suc i) ?zs) \<subseteq> set (drop i ys)" using rest d by (metis set_subset_Cons)
  with f mem least show ?thesis
    unfolding frontSorted_def t by (auto simp: sorted_append)
qed

lemma exchangeSort_correct: "exchangeSort xs = sort xs"
proof -
  have "i \<le> length xs \<Longrightarrow> length (fold exchangePass [0..<i] xs) = length xs \<and>
      mset (fold exchangePass [0..<i] xs) = mset xs \<and> frontSorted i (fold exchangePass [0..<i] xs)" for i
  proof (induction i)
    case 0
    show ?case by (simp add: frontSorted_def)
  next
    case (Suc i)
    let ?ys = "fold exchangePass [0..<i] xs"
    have "passOk i (length ?ys) ?ys (exchangePass i ?ys)"
      using Suc by (intro passOk_pass) simp_all
    with Suc frontSorted_pass [of i ?ys] show ?case by (simp add: passOk_def)
  qed
  from this [of "length xs"] have "mset (exchangeSort xs) = mset xs" "sorted (exchangeSort xs)"
    by (auto simp: exchangeSort_def frontSorted_def)
  then show ?thesis by (metis properties_for_sort)
qed

end
