(* ===== verification/Go_Strings.thy ===== *)
theory Go_Strings
  imports Go_Prelude
begin

text \<open>
  The functions of \<^verbatim>\<open>strconv\<close>, \<^verbatim>\<open>strings\<close> and \<^verbatim>\<open>time\<close> the program calls, on byte
  strings.  Case mapping is modelled on the ASCII letters, the only ones in command,
  option and policy names; space is Go's \<^verbatim>\<open>unicode.IsSpace\<close>, given by the UTF-8
  encodings of its code points.
\<close>


section \<open>Decimal integers: \<^verbatim>\<open>strconv.ParseUint\<close>, \<^verbatim>\<open>ParseInt\<close>, \<^verbatim>\<open>FormatInt\<close>\<close>

datatype num_error = ErrSyntax | ErrRange

definition is_digit :: "char \<Rightarrow> bool" where
  "is_digit c \<longleftrightarrow> 48 \<le> (of_char c :: nat) \<and> (of_char c :: nat) \<le> 57"

definition digit_val :: "char \<Rightarrow> nat" where
  "digit_val c = of_char c - 48"

definition digit_char :: "nat \<Rightarrow> char" where
  "digit_char d = char_of (48 + d)"

definition maxUint64 :: nat where
  "maxUint64 = 18446744073709551615"

fun parseDigits :: "nat \<Rightarrow> bytes \<Rightarrow> num_error + nat" where
  "parseDigits n [] = Inr n"
| "parseDigits n (c # cs) =
     (if \<not> is_digit c then Inl ErrSyntax
      else if 10 * n + digit_val c > maxUint64 then Inl ErrRange
      else parseDigits (10 * n + digit_val c) cs)"

definition parseUint :: "bytes \<Rightarrow> num_error + nat" where
  "parseUint s = (if s = [] then Inl ErrSyntax else parseDigits 0 s)"

definition parseInt :: "bytes \<Rightarrow> num_error + int" where
  "parseInt s =
     (case s of
        [] \<Rightarrow> Inl ErrSyntax
      | c # cs \<Rightarrow>
          (let neg = (c = CHR ''-'');
               ds = (if c = CHR ''+'' \<or> neg then cs else s)
           in case parseUint ds of
                Inl e \<Rightarrow> Inl e
              | Inr un \<Rightarrow>
                  if \<not> neg \<and> un \<ge> 9223372036854775808 then Inl ErrRange
                  else if neg \<and> un > 9223372036854775808 then Inl ErrRange
                  else Inr (if neg then - int un else int un)))"

fun formatUint :: "nat \<Rightarrow> bytes" where
  "formatUint n = (if n < 10 then [digit_char n] else formatUint (n div 10) @ [digit_char (n mod 10)])"

declare formatUint.simps [simp del]

definition formatInt :: "int \<Rightarrow> bytes" where
  "formatInt n = (if n < 0 then CHR ''-'' # formatUint (nat (- n)) else formatUint (nat n))"

lemma of_char_digit_char: "d < 10 \<Longrightarrow> of_char (digit_char d) = (48 + d :: nat)"
  by (simp add: digit_char_def)

lemma is_digit_digit_char [simp]: "d < 10 \<Longrightarrow> is_digit (digit_char d)"
  by (simp add: is_digit_def of_char_digit_char)

lemma digit_val_digit_char [simp]: "d < 10 \<Longrightarrow> digit_val (digit_char d) = d"
  by (simp add: digit_val_def of_char_digit_char)

lemma digit_val_bound: "is_digit c \<Longrightarrow> digit_val c < 10"
  unfolding is_digit_def digit_val_def by linarith

lemma formatUint_nonempty [simp]: "formatUint n \<noteq> []"
  by (subst formatUint.simps) simp

lemma formatInt_nonempty [simp]: "formatInt n \<noteq> []"
  by (simp add: formatInt_def)

lemma formatUint_digits: "c \<in> set (formatUint n) \<Longrightarrow> is_digit c"
proof (induction n rule: formatUint.induct)
  case (1 n)
  show ?case
  proof (cases "n < 10")
    case True
    with "1.prems" show ?thesis by (auto simp: formatUint.simps [of n])
  next
    case False
    with "1" show ?thesis by (auto simp: formatUint.simps [of n])
  qed
qed

lemma parseDigits_append:
  "parseDigits n (xs @ ys) = (case parseDigits n xs of Inl e \<Rightarrow> Inl e | Inr m \<Rightarrow> parseDigits m ys)"
  by (induction xs arbitrary: n) auto

lemma parseDigits_formatUint:
  "n \<le> maxUint64 \<Longrightarrow> parseDigits 0 (formatUint n) = Inr n"
proof (induction n rule: formatUint.induct)
  case (1 n)
  show ?case
  proof (cases "n < 10")
    case True
    with "1.prems" show ?thesis by (simp add: formatUint.simps [of n] not_less [symmetric])
  next
    case False
    have le: "n div 10 \<le> maxUint64"
      using "1.prems" by (rule order_trans [OF div_le_dividend])
    have n: "10 * (n div 10) + n mod 10 = n" by simp
    have step: "parseDigits (n div 10) [digit_char (n mod 10)] = Inr n"
      using "1.prems" by (simp add: n)
    have "parseDigits 0 (formatUint n) = parseDigits 0 (formatUint (n div 10) @ [digit_char (n mod 10)])"
      using False by (simp add: formatUint.simps [of n])
    also have "\<dots> = Inr n"
      by (simp only: parseDigits_append "1.IH" [OF False le] sum.case step)
    finally show ?thesis .
  qed
qed

lemma parseUint_formatUint [simp]: "n \<le> maxUint64 \<Longrightarrow> parseUint (formatUint n) = Inr n"
  by (simp add: parseUint_def parseDigits_formatUint)

lemma not_digit_signs [simp]: "\<not> is_digit (CHR ''-'')" "\<not> is_digit (CHR ''+'')"
  by (simp_all add: is_digit_def)

lemma hd_formatUint: "formatUint n = c # cs \<Longrightarrow> c \<noteq> CHR ''-'' \<and> c \<noteq> CHR ''+''"
  using formatUint_digits [of c n] by auto

text \<open>Parsing a printed 64-bit integer gives it back.\<close>

lemma parseInt_formatInt: "in_int64 n \<Longrightarrow> parseInt (formatInt n) = Inr n"
proof (cases "n < 0")
  case True
  assume r: "in_int64 n"
  have "nat (- n) \<le> maxUint64" and "nat (- n) \<le> 9223372036854775808"
    using r True by (auto simp: int64_defs maxUint64_def)
  then show ?thesis
    using True by (simp add: parseInt_def formatInt_def Let_def)
next
  case False
  assume r: "in_int64 n"
  have b: "nat n \<le> maxUint64" "nat n < 9223372036854775808"
    using r False by (auto simp: int64_defs maxUint64_def)
  obtain c cs where c: "formatUint (nat n) = c # cs"
    by (cases "formatUint (nat n)") auto
  with b have p: "parseUint (c # cs) = Inr (nat n)" by (metis parseUint_formatUint)
  show ?thesis
    using False b hd_formatUint [OF c] p by (simp add: parseInt_def formatInt_def c Let_def)
qed

lemma parseDigits_bound: "parseDigits n xs = Inr m \<Longrightarrow> n \<le> maxUint64 \<Longrightarrow> m \<le> maxUint64"
  by (induction xs arbitrary: n) (auto split: if_splits)

lemma parseInt_range: "parseInt s = Inr n \<Longrightarrow> in_int64 n"
  by (auto simp: parseInt_def int64_defs Let_def split: list.splits sum.splits if_splits)


section \<open>\<^verbatim>\<open>strings\<close>: case, space, containment\<close>

definition toUpperChar :: "char \<Rightarrow> char" where
  "toUpperChar c = (let n = (of_char c :: nat) in if 97 \<le> n \<and> n \<le> 122 then char_of (n - 32) else c)"

definition toLowerChar :: "char \<Rightarrow> char" where
  "toLowerChar c = (let n = (of_char c :: nat) in if 65 \<le> n \<and> n \<le> 90 then char_of (n + 32) else c)"

definition toUpper :: "bytes \<Rightarrow> bytes" where
  "toUpper s = map toUpperChar s"

definition toLower :: "bytes \<Rightarrow> bytes" where
  "toLower s = map toLowerChar s"

lemma of_char_of_small: "n < 256 \<Longrightarrow> of_char (char_of n) = (n :: nat)"
  by simp

lemma toLowerChar_idem [simp]: "toLowerChar (toLowerChar c) = toLowerChar c"
  by (auto simp: toLowerChar_def Let_def)

lemma toUpperChar_idem [simp]: "toUpperChar (toUpperChar c) = toUpperChar c"
  by (auto simp: toUpperChar_def Let_def)

lemma toLower_toUpperChar [simp]: "toLowerChar (toUpperChar c) = toLowerChar c"
proof -
  have "char_of (of_char c :: nat) = c" by simp
  then show ?thesis by (auto simp: toLowerChar_def toUpperChar_def Let_def)
qed

lemma toLower_idem [simp]: "toLower (toLower s) = toLower s"
  by (simp add: toLower_def)

lemma toLower_toUpper [simp]: "toLower (toUpper s) = toLower s"
  by (simp add: toLower_def toUpper_def)

text \<open>The byte sequences that encode a space character.\<close>

definition spaceSeqs :: "bytes list" where
  "spaceSeqs =
     map (map char_of)
       ([[9], [10], [11], [12], [13], [32], [0xC2, 0x85], [0xC2, 0xA0], [0xE1, 0x9A, 0x80],
         [0xE2, 0x80, 0xA8], [0xE2, 0x80, 0xA9], [0xE2, 0x80, 0xAF], [0xE2, 0x81, 0x9F],
         [0xE3, 0x80, 0x80]] @ map (\<lambda>b. [0xE2, 0x80, b]) [0x80..<0x8B :: nat])"

definition hasPrefix :: "bytes \<Rightarrow> bytes \<Rightarrow> bool" where
  "hasPrefix s p \<longleftrightarrow> take (length p) s = p"

text \<open>The length of the space character that \<open>s\<close> begins with, 0 when there is none.\<close>

definition spaceLen :: "bytes \<Rightarrow> nat" where
  "spaceLen s = (case find (hasPrefix s) spaceSeqs of None \<Rightarrow> 0 | Some p \<Rightarrow> length p)"

definition spaceLenEnd :: "bytes \<Rightarrow> nat" where
  "spaceLenEnd s = (case find (\<lambda>p. hasPrefix (rev s) (rev p)) spaceSeqs of None \<Rightarrow> 0 | Some p \<Rightarrow> length p)"

function trimLeft :: "bytes \<Rightarrow> bytes" where
  "trimLeft s = (if s = [] \<or> spaceLen s = 0 then s else trimLeft (drop (spaceLen s) s))"
  by pat_completeness auto
termination
  by (relation "measure length") auto

declare trimLeft.simps [simp del]

function trimRight :: "bytes \<Rightarrow> bytes" where
  "trimRight s =
     (if s = [] \<or> spaceLenEnd s = 0 then s else trimRight (take (length s - spaceLenEnd s) s))"
  by pat_completeness auto
termination
  by (relation "measure length") auto

declare trimRight.simps [simp del]

definition trimSpace :: "bytes \<Rightarrow> bytes" where
  "trimSpace s = trimRight (trimLeft s)"

text \<open>\<^verbatim>\<open>strings.Fields\<close>: the maximal runs that hold no space character.\<close>

function fieldsFrom :: "bytes \<Rightarrow> bytes \<Rightarrow> bytes list" where
  "fieldsFrom cur s =
     (if s = [] then (if cur = [] then [] else [cur])
      else if spaceLen s = 0 then fieldsFrom (cur @ [hd s]) (tl s)
      else (if cur = [] then [] else [cur]) @ fieldsFrom [] (drop (spaceLen s) s))"
  by pat_completeness auto
termination
  by (relation "measure (\<lambda>(cur, s). length s)") auto

declare fieldsFrom.simps [simp del]

definition fields :: "bytes \<Rightarrow> bytes list" where
  "fields s = fieldsFrom [] s"

fun containsStr :: "bytes \<Rightarrow> bytes \<Rightarrow> bool" where
  "containsStr [] sub = (sub = [])"
| "containsStr (c # cs) sub = (hasPrefix (c # cs) sub \<or> containsStr cs sub)"

lemma trimLeft_Nil [simp]: "trimLeft [] = []"
  by (simp add: trimLeft.simps)

lemma trimRight_Nil [simp]: "trimRight [] = []"
  by (simp add: trimRight.simps)

lemma trimSpace_Nil [simp]: "trimSpace [] = []"
  by (simp add: trimSpace_def)

text \<open>A string whose first and last bytes are printable ASCII has nothing to trim.\<close>

definition is_graph :: "char \<Rightarrow> bool" where
  "is_graph c \<longleftrightarrow> 33 \<le> (of_char c :: nat) \<and> (of_char c :: nat) \<le> 126"

lemma spaceSeqs_ends_not_graph:
  "\<forall>p \<in> set spaceSeqs. p \<noteq> [] \<and> \<not> is_graph (hd p) \<and> \<not> is_graph (last p)"
  unfolding spaceSeqs_def is_graph_def by (simp add: upt_rec)

lemma hasPrefix_hd: "hasPrefix s p \<Longrightarrow> p \<noteq> [] \<Longrightarrow> s \<noteq> [] \<and> hd s = hd p"
  by (cases s; cases p) (auto simp: hasPrefix_def)

lemma spaceLen_graph: "is_graph c \<Longrightarrow> spaceLen (c # cs) = 0"
proof -
  assume g: "is_graph c"
  have "find (hasPrefix (c # cs)) spaceSeqs = None"
    unfolding find_None_iff using spaceSeqs_ends_not_graph g hasPrefix_hd by fastforce
  then show ?thesis by (simp add: spaceLen_def)
qed

lemma spaceLenEnd_graph: "is_graph c \<Longrightarrow> spaceLenEnd (cs @ [c]) = 0"
proof -
  assume g: "is_graph c"
  have "find (\<lambda>p. hasPrefix (rev (cs @ [c])) (rev p)) spaceSeqs = None"
    unfolding find_None_iff using spaceSeqs_ends_not_graph g hasPrefix_hd
    by (fastforce simp: hd_rev)
  then show ?thesis by (simp add: spaceLenEnd_def)
qed

lemma trimSpace_graph:
  "s \<noteq> [] \<Longrightarrow> is_graph (hd s) \<Longrightarrow> is_graph (last s) \<Longrightarrow> trimSpace s = s"
proof -
  assume s: "s \<noteq> []" "is_graph (hd s)" "is_graph (last s)"
  have "trimLeft s = s"
    using s spaceLen_graph [of "hd s" "tl s"] by (simp add: trimLeft.simps)
  moreover have "trimRight s = s"
    using s spaceLenEnd_graph [of "last s" "butlast s"] by (simp add: trimRight.simps)
  ultimately show ?thesis by (simp add: trimSpace_def)
qed

lemma is_digit_is_graph: "is_digit c \<Longrightarrow> is_graph c"
  by (simp add: is_digit_def is_graph_def)

lemma formatInt_graph: "c \<in> set (formatInt n) \<Longrightarrow> is_graph c"
  by (auto simp: formatInt_def is_graph_def [of "CHR ''-''"] split: if_splits
      dest: formatUint_digits is_digit_is_graph)

lemma trimSpace_formatInt [simp]: "trimSpace (formatInt n) = formatInt n"
  by (rule trimSpace_graph) (simp_all add: formatInt_graph [OF hd_in_set] formatInt_graph [OF last_in_set])

lemma formatUint_length: "n < 10 ^ Suc k \<Longrightarrow> length (formatUint n) \<le> Suc k"
proof (induction k arbitrary: n)
  case 0
  then show ?case by (simp add: formatUint.simps [of n])
next
  case (Suc k)
  have "n div 10 < 10 ^ Suc k"
    using Suc.prems by (simp add: less_mult_imp_div_less)
  from Suc.IH [OF this] show ?case by (simp add: formatUint.simps [of n])
qed

lemma formatInt_length: "in_int64 n \<Longrightarrow> length (formatInt n) \<le> 20"
  using formatUint_length [of "nat n" 18] formatUint_length [of "nat (- n)" 18]
  by (cases "n < 0") (simp_all add: formatInt_def int64_defs nat_less_iff)

lemma fieldsFrom_size:
  "sum_list (map length (fieldsFrom cur s)) \<le> length cur + length s \<and>
   (\<forall>f\<in>set (fieldsFrom cur s). f \<noteq> [])"
proof (induction cur s rule: fieldsFrom.induct)
  case (1 cur s)
  show ?case
  proof (cases "s = []")
    case True
    then show ?thesis by (simp add: fieldsFrom.simps [of cur "[]"])
  next
    case False
    then obtain c cs where s: "s = c # cs" by (cases s) auto
    show ?thesis
    proof (cases "spaceLen s = 0")
      case True
      with "1.IH"(1) False show ?thesis by (simp add: s fieldsFrom.simps [of cur "c # cs"])
    next
      case sp: False
      have "sum_list (map length (fieldsFrom [] (drop (spaceLen s) s))) \<le> length s"
        using "1.IH"(2) [OF False sp] by auto
      with "1.IH"(2) [OF False sp] have
        "sum_list (map length ((if cur = [] then [] else [cur]) @ fieldsFrom [] (drop (spaceLen s) s)))
           \<le> length cur + length s"
        "\<forall>f\<in>set ((if cur = [] then [] else [cur]) @ fieldsFrom [] (drop (spaceLen s) s)). f \<noteq> []"
        by auto
      then show ?thesis
        using False sp by (subst (1 2) fieldsFrom.simps [of cur s]) (simp only: if_False simp_thms)
    qed
  qed
qed

lemma fields_size:
  "length (fields s) \<le> length s" "f \<in> set (fields s) \<Longrightarrow> length f \<le> length s"
proof -
  have nonempty: "(\<forall>f\<in>set fs. f \<noteq> []) \<Longrightarrow> length fs \<le> sum_list (map length fs)" for fs :: "bytes list"
  proof (induction fs)
    case (Cons f fs)
    then have "0 < length f" "length fs \<le> sum_list (map length fs)" by simp_all
    then have "Suc (length fs) \<le> length f + sum_list (map length fs)" by linarith
    then show ?case by simp
  qed simp
  show "length (fields s) \<le> length s"
    using nonempty [of "fields s"] fieldsFrom_size [of "[]" s] by (simp add: fields_def)
  assume "f \<in> set (fields s)"
  then have "length f \<le> sum_list (map length (fields s))"
    by (intro member_le_sum_list) auto
  also have "\<dots> \<le> length s"
    using fieldsFrom_size [of "[]" s] by (simp add: fields_def)
  finally show "length f \<le> length s" .
qed

lemma trimLeft_length: "length (trimLeft s) \<le> length s"
proof (induction s rule: trimLeft.induct)
  case (1 s)
  then show ?case by (cases "s = [] \<or> spaceLen s = 0") (auto simp: trimLeft.simps [of s])
qed

lemma trimRight_length: "length (trimRight s) \<le> length s"
proof (induction s rule: trimRight.induct)
  case (1 s)
  then show ?case by (cases "s = [] \<or> spaceLenEnd s = 0") (auto simp: trimRight.simps [of s])
qed

lemma trimSpace_length: "length (trimSpace s) \<le> length s"
  unfolding trimSpace_def by (rule order_trans [OF trimRight_length trimLeft_length])


section \<open>\<^verbatim>\<open>time\<close>\<close>

text \<open>
  A \<^verbatim>\<open>time.Time\<close> is the number of nanoseconds since the Unix epoch; the zero Time is
  1 January of year 1.  A \<^verbatim>\<open>time.Duration\<close> is an \<open>int64\<close> of nanoseconds: products of
  durations wrap, and \<^verbatim>\<open>Until\<close> saturates.
\<close>

type_synonym time = int

definition unixToInternal :: int where
  "unixToInternal = 62135596800"

definition zeroTime :: time where
  "zeroTime = - 62135596800000000000"

definition isZero :: "time \<Rightarrow> bool" where
  "isZero t \<longleftrightarrow> t = zeroTime"

definition durSecond :: int where
  "durSecond = 1000000000"

definition durMillisecond :: int where
  "durMillisecond = 1000000"

text \<open>\<^verbatim>\<open>time.Duration(n) * unit\<close>\<close>

definition durMul :: "int \<Rightarrow> int \<Rightarrow> int" where
  "durMul n u = wrap64 (n * u)"

definition timeAdd :: "time \<Rightarrow> int \<Rightarrow> time" where
  "timeAdd t d = t + d"

text \<open>\<^verbatim>\<open>time.Until(t)\<close> at the clock reading \<open>now\<close>\<close>

definition timeUntil :: "time \<Rightarrow> time \<Rightarrow> int" where
  "timeUntil now t = max minInt64 (min maxInt64 (t - now))"

text \<open>Go's integer division truncates towards zero.\<close>

definition goDiv :: "int \<Rightarrow> int \<Rightarrow> int" where
  "goDiv a b = sgn a * sgn b * (\<bar>a\<bar> div \<bar>b\<bar>)"

definition goMod :: "int \<Rightarrow> int \<Rightarrow> int" where
  "goMod a b = a - b * goDiv a b"

definition durMilliseconds :: "int \<Rightarrow> int" where
  "durMilliseconds d = goDiv d durMillisecond"

definition durSeconds :: "int \<Rightarrow> int" where
  "durSeconds d = goDiv d durSecond"

text \<open>\<^verbatim>\<open>time.Unix(sec, 0)\<close> and \<^verbatim>\<open>time.UnixMilli(ms)\<close>: the seconds are shifted to year 1
  in 64 bits.\<close>

definition timeUnix :: "int \<Rightarrow> time" where
  "timeUnix sec = (wrap64 (sec + unixToInternal) - unixToInternal) * durSecond"

definition timeUnixMilli :: "int \<Rightarrow> time" where
  "timeUnixMilli ms = ms * durMillisecond"

definition timeToUnixMilli :: "time \<Rightarrow> int" where
  "timeToUnixMilli t = wrap64 (t div durMillisecond)"

lemmas time_defs = unixToInternal_def zeroTime_def isZero_def durSecond_def durMillisecond_def
  durMul_def timeAdd_def timeUntil_def durMilliseconds_def durSeconds_def timeUnix_def
  timeUnixMilli_def timeToUnixMilli_def

lemma goDiv_nonneg: "0 \<le> a \<Longrightarrow> 0 < b \<Longrightarrow> goDiv a b = a div b"
  by (cases "a = 0") (simp_all add: goDiv_def)

lemma isZero_zeroTime [simp]: "isZero zeroTime"
  by (simp add: isZero_def)

end
