(* ===== verification/Store_Core.thy ===== *)
theory Store_Core
  imports Go_Strings
begin

text \<open>
  The sharded store of \<^verbatim>\<open>src/internal/store\<close>: its state, the shard routing, the memory counter,
  the LRU lists, the watch versions, and the two primitives every operation is made of,
  \<open>purgeEntryLocked\<close> and \<open>replaceEntry\<close>.

  \<^item> An \<open>entry\<close> is the value with its expiry.  The two list elements it points to are
    flags: the element of a key in an LRU list is the key's position in it.
  \<^item> A \<open>shard\<close> is its map, the two LRU lists (front first) and the two maps from a key to its
    list element, as the set of keys they hold.
  \<^item> The \<open>store\<close> has a shard for every index; the code has the first 256.  \<open>rand\<close> is the
    sequence of numbers the process-wide random generator will still draw.
  \<^item> A method that reads the clock takes the reading as its argument \<open>now\<close>.
  \<^item> A method runs alone: what another goroutine does while \<open>ensureMemoryWithRetry\<close> has
    released the shard lock is not part of the model.
\<close>


section \<open>State\<close>

datatype dvalue =
    VString bytes
  | VHash "(bytes, bytes) gomap"
  | VList "bytes list"
  | VSet "bytes list"

record entry =
  evalue :: dvalue
  expiresAt :: time
  allElem :: bool
  volElem :: bool

record shard =
  shm :: "(bytes, entry) gomap"
  allList :: "bytes list"
  allElems :: "bytes set"
  volList :: "bytes list"
  volElems :: "bytes set"

record store =
  shards :: "nat \<Rightarrow> shard"
  mem :: int
  policyCache :: bytes
  maxMemCache :: "64 word"
  readLRUTick :: "64 word"
  evictCursor :: "32 word"
  watch :: "bytes \<Rightarrow> 64 word"
  rand :: "nat \<Rightarrow> nat"

datatype store_error =
    ErrWrongType
  | ErrOOM
  | ErrNotInteger bytes num_error
  | ErrNotFloat bytes
  | ErrIncrOverflow
  | ErrNoSuchKey
  | ErrInvalidExpire
  | ErrKeyNotFound
  | ErrListIndex
  | ErrSnapshotType bytes
  | PanicMakeSlice
  | PanicSliceBounds

definition NumShards :: nat where
  "NumShards = 256"

definition newEntry :: "dvalue \<Rightarrow> time \<Rightarrow> entry" where
  "newEntry v t = \<lparr>evalue = v, expiresAt = t, allElem = False, volElem = False\<rparr>"

definition emptyShard :: shard where
  "emptyShard = \<lparr>shm = [], allList = [], allElems = {}, volList = [], volElems = {}\<rparr>"

text \<open>A byte slice copied with \<^verbatim>\<open>append([]byte(nil), b...)\<close> is nil exactly when it is empty.\<close>

definition appendNil :: "bytes \<Rightarrow> bytes option" where
  "appendNil b = (if b = [] then None else Some b)"


section \<open>Routing\<close>

text \<open>32-bit FNV-1a.\<close>

definition fnv32a :: "bytes \<Rightarrow> 32 word" where
  "fnv32a key = fold (\<lambda>c h. (xor h (of_char c)) * 16777619) key 2166136261"

definition shardIndex :: "bytes \<Rightarrow> nat" where
  "shardIndex key = unat (fnv32a key) mod NumShards"

definition shardFor :: "store \<Rightarrow> bytes \<Rightarrow> shard" where
  "shardFor s key = shards s (shardIndex key)"

definition setShard :: "nat \<Rightarrow> shard \<Rightarrow> store \<Rightarrow> store" where
  "setShard i sh s = s\<lparr>shards := (shards s)(i := sh)\<rparr>"

text \<open>\<^verbatim>\<open>sh.m[key]\<close> for the shard of the key\<close>

definition getEntry :: "store \<Rightarrow> bytes \<Rightarrow> entry option" where
  "getEntry s key = mapGet (shm (shardFor s key)) key"


section \<open>Configuration cache\<close>

definition maxMemBytes :: "store \<Rightarrow> 64 word" where
  "maxMemBytes s = maxMemCache s"

definition policy :: "store \<Rightarrow> bytes" where
  "policy s = (if policyCache s \<noteq> [] then policyCache s else ''noeviction'')"


section \<open>Memory accounting\<close>

text \<open>\<^verbatim>\<open>unsafe.Sizeof(entry{})\<close> is 64 on the 64-bit targets: the interface takes 16 bytes, the
  time 24, the type and the two pointers 8 each.\<close>

definition entryOverhead :: int where
  "entryOverhead = 64 + 64"

fun valueMem :: "dvalue \<Rightarrow> int" where
  "valueMem (VString b) = int (length b)"
| "valueMem (VHash h) = (\<Sum>(fk, fv)\<leftarrow>h. int (length fk) + int (length fv))"
| "valueMem (VList l) = int (length l) * 32"
| "valueMem (VSet st) = (\<Sum>m\<leftarrow>st. int (length m))"

definition estimateMem :: "bytes \<Rightarrow> entry \<Rightarrow> int" where
  "estimateMem key e = entryOverhead + int (length key) + valueMem (evalue e)"

definition addMem :: "int \<Rightarrow> store \<Rightarrow> store" where
  "addMem delta s =
     (if delta = 0 then s
      else let newVal = mem s + delta
           in if newVal < 0 then s\<lparr>mem := 0\<rparr> else s\<lparr>mem := newVal\<rparr>)"

definition MemBytes :: "store \<Rightarrow> int" where
  "MemBytes s = mem s"


section \<open>Expiry\<close>

definition isExpired :: "time \<Rightarrow> entry \<Rightarrow> bool" where
  "isExpired now e \<longleftrightarrow> \<not> isZero (expiresAt e) \<and> now > expiresAt e"

definition hasTTL :: "entry \<Rightarrow> bool" where
  "hasTTL e \<longleftrightarrow> \<not> isZero (expiresAt e)"


section \<open>Watch versions\<close>

definition WatchVersion :: "store \<Rightarrow> bytes \<Rightarrow> 64 word" where
  "WatchVersion s key = watch s key"

definition bumpWatchKey :: "bytes \<Rightarrow> store \<Rightarrow> store" where
  "bumpWatchKey key s = s\<lparr>watch := (watch s)(key := watch s key + 1)\<rparr>"

text \<open>A version that is absent from the map reads as 0, so deleting it sets it to 0.\<close>

definition PruneWatch :: "store \<Rightarrow> store" where
  "PruneWatch s = s\<lparr>watch := (\<lambda>k. if getEntry s k = None then 0 else watch s k)\<rparr>"


section \<open>LRU lists\<close>

definition moveToFront :: "bytes \<Rightarrow> bytes list \<Rightarrow> bytes list" where
  "moveToFront key l = key # remove1 key l"

definition detachAll :: "bytes \<Rightarrow> shard \<Rightarrow> entry \<Rightarrow> shard \<times> entry" where
  "detachAll key sh e =
     (if allElem e
      then (sh\<lparr>allList := remove1 key (allList sh), allElems := allElems sh - {key}\<rparr>, e\<lparr>allElem := False\<rparr>)
      else (sh, e))"

definition detachVol :: "bytes \<Rightarrow> shard \<Rightarrow> entry \<Rightarrow> shard \<times> entry" where
  "detachVol key sh e =
     (if volElem e
      then (sh\<lparr>volList := remove1 key (volList sh), volElems := volElems sh - {key}\<rparr>, e\<lparr>volElem := False\<rparr>)
      else (sh, e))"

definition removeFromLRU :: "bytes \<Rightarrow> shard \<times> entry \<Rightarrow> shard \<times> entry" where
  "removeFromLRU key = (\<lambda>(sh, e). case detachAll key sh e of (sh', e') \<Rightarrow> detachVol key sh' e')"

definition pushAll :: "bytes \<Rightarrow> shard \<Rightarrow> entry \<Rightarrow> shard \<times> entry" where
  "pushAll key sh e =
     (if key \<in> allElems sh then (sh\<lparr>allList := moveToFront key (allList sh)\<rparr>, e)
      else (sh\<lparr>allList := key # allList sh, allElems := insert key (allElems sh)\<rparr>, e\<lparr>allElem := True\<rparr>))"

definition pushVol :: "bytes \<Rightarrow> shard \<Rightarrow> entry \<Rightarrow> shard \<times> entry" where
  "pushVol key sh e =
     (if key \<in> volElems sh then (sh\<lparr>volList := moveToFront key (volList sh)\<rparr>, e)
      else (sh\<lparr>volList := key # volList sh, volElems := insert key (volElems sh)\<rparr>, e\<lparr>volElem := True\<rparr>))"

definition touchAllKeysLRU :: "bytes \<Rightarrow> bytes \<Rightarrow> shard \<times> entry \<Rightarrow> shard \<times> entry" where
  "touchAllKeysLRU pol key = (\<lambda>(sh, e).
     if pol \<noteq> ''allkeys-lru'' then (sh, e) else pushAll key sh e)"

definition touchVolatileLRU :: "bytes \<Rightarrow> bytes \<Rightarrow> shard \<times> entry \<Rightarrow> shard \<times> entry" where
  "touchVolatileLRU pol key = (\<lambda>(sh, e).
     if pol \<noteq> ''volatile-lru'' then (sh, e)
     else if \<not> hasTTL e then detachVol key sh e
     else pushVol key sh e)"

definition lruAfterSet :: "bytes \<Rightarrow> bytes \<Rightarrow> shard \<times> entry \<Rightarrow> shard \<times> entry" where
  "lruAfterSet pol key = (\<lambda>(sh, e).
     case (if pol = ''allkeys-lru'' then pushAll key sh e else (sh, e)) of (sh, e) \<Rightarrow>
       if pol = ''volatile-lru'' then
         (if hasTTL e then pushVol key sh e else detachVol key sh e)
       else (sh, e))"

text \<open>An entry lives in the map by pointer: a change of its fields is a change of the map.\<close>

definition putEntry :: "bytes \<Rightarrow> shard \<times> entry \<Rightarrow> shard" where
  "putEntry key = (\<lambda>(sh, e). sh\<lparr>shm := mapPut key e (shm sh)\<rparr>)"

definition touchLRU :: "store \<Rightarrow> bytes \<Rightarrow> entry \<Rightarrow> store" where
  "touchLRU s key e =
     setShard (shardIndex key)
       (putEntry key (touchVolatileLRU (policy s) key (touchAllKeysLRU (policy s) key (shardFor s key, e)))) s"


section \<open>Removing and replacing an entry\<close>

text \<open>The shard is the argument \<open>i\<close>, since eviction picks the shard before the key.\<close>

definition purgeEntryLocked :: "store \<Rightarrow> nat \<Rightarrow> bytes \<Rightarrow> entry \<Rightarrow> store" where
  "purgeEntryLocked s i key e =
     (let delta = - estimateMem key e;
          sh = fst (removeFromLRU key (shards s i, e));
          s = setShard i (sh\<lparr>shm := mapDel key (shm sh)\<rparr>) s
      in bumpWatchKey key (addMem delta s))"

definition replaceEntry :: "store \<Rightarrow> bytes \<Rightarrow> entry option \<Rightarrow> entry \<Rightarrow> store" where
  "replaceEntry s key oldE newE =
     (let i = shardIndex key;
          s = (case oldE of
                 None \<Rightarrow> s
               | Some e \<Rightarrow> addMem (- estimateMem key e)
                             (setShard i (fst (removeFromLRU key (shards s i, e))) s));
          s = addMem (estimateMem key newE) s;
          s = setShard i (putEntry key (lruAfterSet (policy s) key (shards s i, newE))) s
      in bumpWatchKey key s)"

text \<open>How every method starts: the entry of the key, purged and absent when it is expired.\<close>

definition liveEntry :: "time \<Rightarrow> store \<Rightarrow> bytes \<Rightarrow> store \<times> entry option" where
  "liveEntry now s key =
     (case getEntry s key of
        None \<Rightarrow> (s, None)
      | Some e \<Rightarrow>
          if isExpired now e then (purgeEntryLocked s (shardIndex key) key e, None) else (s, Some e))"


section \<open>The invariant\<close>

text \<open>A shard is well-formed when its map has distinct keys that all route to it, its values are
  well-formed, and each LRU list holds, without repetition, exactly the keys whose entry points
  into it; only entries with an expiry are in the volatile list.\<close>

fun valueOk :: "dvalue \<Rightarrow> bool" where
  "valueOk (VHash h) = mapOk h"
| "valueOk (VSet st) = distinct st"
| "valueOk _ = True"

definition lruOk :: "bytes list \<Rightarrow> bytes set \<Rightarrow> (entry \<Rightarrow> bool) \<Rightarrow> (bytes, entry) gomap \<Rightarrow> bool" where
  "lruOk l elems flag mp \<longleftrightarrow>
     distinct l \<and> set l = elems \<and> (\<forall>k. k \<in> elems \<longleftrightarrow> (\<exists>e. mapGet mp k = Some e \<and> flag e))"

definition shardOk :: "nat \<Rightarrow> shard \<Rightarrow> bool" where
  "shardOk i sh \<longleftrightarrow>
     mapOk (shm sh) \<and>
     (\<forall>k e. mapGet (shm sh) k = Some e \<longrightarrow>
        shardIndex k = i \<and> valueOk (evalue e) \<and> (volElem e \<longrightarrow> hasTTL e)) \<and>
     lruOk (allList sh) (allElems sh) allElem (shm sh) \<and>
     lruOk (volList sh) (volElems sh) volElem (shm sh)"

definition storeInv :: "store \<Rightarrow> bool" where
  "storeInv s \<longleftrightarrow> (\<forall>i. shardOk i (shards s i)) \<and> 0 \<le> mem s"

definition shardMem :: "shard \<Rightarrow> int" where
  "shardMem sh = mapSum estimateMem (shm sh)"

definition totalMem :: "store \<Rightarrow> int" where
  "totalMem s = (\<Sum>i<NumShards. shardMem (shards s i))"

text \<open>The memory counter is the sum of the estimates of the stored entries.\<close>

definition memExact :: "store \<Rightarrow> bool" where
  "memExact s \<longleftrightarrow> mem s = totalMem s"

text \<open>What a client can see of the store: the unexpired entries with their expiry.\<close>

definition content :: "entry \<Rightarrow> dvalue \<times> time" where
  "content e = (evalue e, expiresAt e)"

definition db :: "store \<Rightarrow> bytes \<rightharpoonup> dvalue \<times> time" where
  "db s k = map_option content (getEntry s k)"

definition live :: "time \<Rightarrow> dvalue \<times> time \<Rightarrow> bool" where
  "live now = (\<lambda>(v, t). isZero t \<or> now \<le> t)"

definition view :: "time \<Rightarrow> store \<Rightarrow> bytes \<rightharpoonup> dvalue \<times> time" where
  "view now s k = (case db s k of None \<Rightarrow> None | Some c \<Rightarrow> if live now c then Some c else None)"


section \<open>Shards\<close>

lemma getEntry_fold: "mapGet (shm (shards s (shardIndex k))) k = getEntry s k"
  by (simp add: getEntry_def shardFor_def)

lemma shardIndex_less [simp]: "shardIndex key < NumShards"
  by (simp add: shardIndex_def NumShards_def)

lemmas lru_defs = detachAll_def detachVol_def removeFromLRU_def pushAll_def pushVol_def
  touchAllKeysLRU_def touchVolatileLRU_def lruAfterSet_def moveToFront_def

lemma estimateMem_pos [simp]: "0 < estimateMem key e"
proof -
  have "0 \<le> valueMem v" for v
    by (cases v) (auto intro!: sum_list_nonneg)
  from this [of "evalue e"] show ?thesis by (simp add: estimateMem_def entryOverhead_def add_pos_nonneg)
qed

lemma estimateMem_nonneg [simp]: "0 \<le> estimateMem key e"
  using estimateMem_pos [of key e] by (rule less_imp_le)

lemma estimateMem_nonzero [simp]: "estimateMem key e \<noteq> 0"
  using estimateMem_pos [of key e] by linarith

text \<open>LRU moves touch neither the map nor the value, expiry and size of the entry.\<close>

lemma lru_moves:
  "shm (fst (removeFromLRU key p)) = shm (fst p)"
  "shm (fst (lruAfterSet pol key p)) = shm (fst p)"
  "shm (fst (touchAllKeysLRU pol key p)) = shm (fst p)"
  "shm (fst (touchVolatileLRU pol key p)) = shm (fst p)"
  "content (snd (removeFromLRU key p)) = content (snd p)"
  "content (snd (lruAfterSet pol key p)) = content (snd p)"
  "content (snd (touchAllKeysLRU pol key p)) = content (snd p)"
  "content (snd (touchVolatileLRU pol key p)) = content (snd p)"
  by (auto simp: lru_defs content_def split: prod.splits)

lemma content_eqD:
  "content e = content e' \<Longrightarrow> evalue e = evalue e'"
  "content e = content e' \<Longrightarrow> expiresAt e = expiresAt e'"
  "content e = content e' \<Longrightarrow> estimateMem k e = estimateMem k e'"
  "content e = content e' \<Longrightarrow> isExpired now e = isExpired now e'"
  "content e = content e' \<Longrightarrow> hasTTL e = hasTTL e'"
  by (simp_all add: content_def estimateMem_def isExpired_def hasTTL_def)

text \<open>One LRU list against the map of the shard.\<close>

lemma lruOk_absent: "lruOk l E fl (mapDel k mp) \<Longrightarrow> k \<notin> E"
  by (simp add: lruOk_def)

lemma lruOk_del:
  "lruOk l E fl mp \<Longrightarrow> mapGet mp k = Some e \<Longrightarrow>
   lruOk (if fl e then remove1 k l else l) (if fl e then E - {k} else E) fl (mapDel k mp)"
  by (auto simp: lruOk_def simp del: map_of_eq_Some_iff)

lemma lruOk_put:
  "lruOk l E fl (mapDel k mp) \<Longrightarrow> fl e \<Longrightarrow> lruOk (k # l) (insert k E) fl (mapPut k e mp)"
  "lruOk l E fl (mapDel k mp) \<Longrightarrow> \<not> fl e \<Longrightarrow> lruOk l E fl (mapPut k e mp)"
  by (auto simp: lruOk_def simp del: map_of_eq_Some_iff)

lemma lruOk_same:
  "lruOk l E fl mp \<Longrightarrow> mapGet mp k = Some e \<Longrightarrow> fl e' = fl e \<Longrightarrow> lruOk l E fl (mapPut k e' mp)"
  by (auto simp: lruOk_def simp del: map_of_eq_Some_iff)

lemma lruOk_front: "lruOk l E fl mp \<Longrightarrow> k \<in> E \<Longrightarrow> lruOk (moveToFront k l) E fl mp"
  by (auto simp: lruOk_def moveToFront_def)

lemma lruOk_flag: "lruOk l E fl mp \<Longrightarrow> mapGet mp k = Some e \<Longrightarrow> fl e \<longleftrightarrow> k \<in> E"
  by (auto simp: lruOk_def)

lemma lruOk_add:
  "lruOk l E fl mp \<Longrightarrow> mapGet mp k = Some e \<Longrightarrow> k \<notin> E \<Longrightarrow> fl e' \<Longrightarrow>
   lruOk (k # l) (insert k E) fl (mapPut k e' mp)"
  by (auto simp: lruOk_def simp del: map_of_eq_Some_iff)

lemma lruOk_drop:
  "lruOk l E fl mp \<Longrightarrow> mapGet mp k = Some e \<Longrightarrow> fl e \<Longrightarrow> \<not> fl e' \<Longrightarrow>
   lruOk (remove1 k l) (E - {k}) fl (mapPut k e' mp)"
  by (auto simp: lruOk_def simp del: map_of_eq_Some_iff)

definition entriesOk :: "nat \<Rightarrow> (bytes, entry) gomap \<Rightarrow> bool" where
  "entriesOk i mp \<longleftrightarrow>
     mapOk mp \<and>
     (\<forall>k e. mapGet mp k = Some e \<longrightarrow>
        shardIndex k = i \<and> valueOk (evalue e) \<and> (volElem e \<longrightarrow> hasTTL e))"

lemma shardOk_alt:
  "shardOk i sh \<longleftrightarrow> entriesOk i (shm sh) \<and>
     lruOk (allList sh) (allElems sh) allElem (shm sh) \<and>
     lruOk (volList sh) (volElems sh) volElem (shm sh)"
  by (simp add: shardOk_def entriesOk_def)

lemma entriesOk_del: "entriesOk i mp \<Longrightarrow> entriesOk i (mapDel k mp)"
  by (auto simp: entriesOk_def simp del: map_of_eq_Some_iff)

lemma entriesOk_put:
  "entriesOk i (mapDel k mp) \<Longrightarrow> mapOk mp \<Longrightarrow> shardIndex k = i \<Longrightarrow> valueOk (evalue e) \<Longrightarrow>
   (volElem e \<longrightarrow> hasTTL e) \<Longrightarrow> entriesOk i (mapPut k e mp)"
  by (auto simp: entriesOk_def simp del: map_of_eq_Some_iff split: if_splits)

lemma entriesOk_same:
  "entriesOk i mp \<Longrightarrow> mapGet mp k = Some e \<Longrightarrow> valueOk (evalue e') \<Longrightarrow>
   (volElem e' \<longrightarrow> hasTTL e') \<Longrightarrow> entriesOk i (mapPut k e' mp)"
  by (auto simp: entriesOk_def simp del: map_of_eq_Some_iff split: if_splits)

lemma shardOk_detach:
  assumes "shardOk i sh" and "mapGet (shm sh) k = Some e"
  shows "shardOk i ((fst (removeFromLRU k (sh, e)))\<lparr>shm := mapDel k (shm sh)\<rparr>)"
proof -
  note * = assms(1) [unfolded shardOk_alt]
  show ?thesis
    using * lruOk_del [of _ _ allElem, OF _ assms(2)] lruOk_del [of _ _ volElem, OF _ assms(2)]
    by (auto simp: shardOk_alt removeFromLRU_def detachAll_def detachVol_def entriesOk_del)
qed

lemma shardOk_attach:
  assumes "shardOk i (sh\<lparr>shm := mapDel k (shm sh)\<rparr>)" and "mapOk (shm sh)"
    and "shardIndex k = i" and "valueOk v"
  shows "shardOk i (putEntry k (lruAfterSet pol k (sh, newEntry v t)))"
proof -
  have *: "entriesOk i (mapDel k (shm sh))"
    "lruOk (allList sh) (allElems sh) allElem (mapDel k (shm sh))"
    "lruOk (volList sh) (volElems sh) volElem (mapDel k (shm sh))"
    using assms(1) by (simp_all add: shardOk_alt)
  have abs: "k \<notin> allElems sh" "k \<notin> volElems sh" using *(2,3) by (auto dest: lruOk_absent)
  show ?thesis
    using abs assms(4)
    by (auto simp: shardOk_alt putEntry_def lruAfterSet_def pushAll_def pushVol_def detachVol_def
        newEntry_def hasTTL_def intro!: lruOk_put [OF *(2)] lruOk_put [OF *(3)] entriesOk_put [OF *(1) assms(2,3)])
qed

lemma shardOk_touch:
  assumes "shardOk i sh" and k: "mapGet (shm sh) k = Some e"
  shows "shardOk i (putEntry k (touchVolatileLRU pol k (touchAllKeysLRU pol k (sh, e))))"
proof -
  have *: "entriesOk i (shm sh)" "lruOk (allList sh) (allElems sh) allElem (shm sh)"
    "lruOk (volList sh) (volElems sh) volElem (shm sh)"
    using assms(1) by (simp_all add: shardOk_alt)
  have e: "valueOk (evalue e)" "volElem e \<Longrightarrow> hasTTL e"
    using *(1) k by (auto simp: entriesOk_def)
  note flags = lruOk_flag [OF *(2) k] lruOk_flag [OF *(3) k]
  note rules = entriesOk_same [OF *(1) k] lruOk_same [OF *(2) k] lruOk_same [OF *(3) k]
    lruOk_add [OF *(2) k] lruOk_add [OF *(3) k] lruOk_front [OF lruOk_same [OF *(2) k]]
    lruOk_front [OF lruOk_same [OF *(3) k]]
  show ?thesis
    using e flags
    by (auto simp: shardOk_alt putEntry_def touchVolatileLRU_def touchAllKeysLRU_def pushAll_def
        pushVol_def detachVol_def hasTTL_def intro!: rules)
qed

lemma shardOk_mutate:
  assumes "shardOk i sh" and k: "mapGet (shm sh) k = Some e" and "valueOk v"
  shows "shardOk i (sh\<lparr>shm := mapPut k (e\<lparr>evalue := v\<rparr>) (shm sh)\<rparr>)"
proof -
  have *: "entriesOk i (shm sh)" "lruOk (allList sh) (allElems sh) allElem (shm sh)"
    "lruOk (volList sh) (volElems sh) volElem (shm sh)"
    using assms(1) by (simp_all add: shardOk_alt)
  have e: "volElem e \<Longrightarrow> hasTTL e"
    using *(1) k by (auto simp: entriesOk_def)
  then show ?thesis
    using assms(3)
    by (auto simp: shardOk_alt hasTTL_def
        intro!: entriesOk_same [OF *(1) k] lruOk_same [OF *(2) k] lruOk_same [OF *(3) k])
qed


section \<open>The primitives on the store\<close>

lemma addMem_fields [simp]:
  "shards (addMem d s) = shards s" "policyCache (addMem d s) = policyCache s"
  "maxMemCache (addMem d s) = maxMemCache s" "readLRUTick (addMem d s) = readLRUTick s"
  "evictCursor (addMem d s) = evictCursor s" "watch (addMem d s) = watch s" "rand (addMem d s) = rand s"
  by (simp_all add: addMem_def Let_def)

lemma mem_addMem: "0 \<le> mem s \<Longrightarrow> mem (addMem d s) = max 0 (mem s + d)"
  by (simp add: addMem_def Let_def)

lemma setShard_fields [simp]:
  "shards (setShard i sh s) = (shards s)(i := sh)" "mem (setShard i sh s) = mem s"
  "policyCache (setShard i sh s) = policyCache s" "maxMemCache (setShard i sh s) = maxMemCache s"
  "readLRUTick (setShard i sh s) = readLRUTick s" "evictCursor (setShard i sh s) = evictCursor s"
  "watch (setShard i sh s) = watch s" "rand (setShard i sh s) = rand s"
  by (simp_all add: setShard_def)

lemma bumpWatchKey_fields [simp]:
  "shards (bumpWatchKey k s) = shards s" "mem (bumpWatchKey k s) = mem s"
  "policyCache (bumpWatchKey k s) = policyCache s" "maxMemCache (bumpWatchKey k s) = maxMemCache s"
  "readLRUTick (bumpWatchKey k s) = readLRUTick s" "evictCursor (bumpWatchKey k s) = evictCursor s"
  "watch (bumpWatchKey k s) = (watch s)(k := watch s k + 1)" "rand (bumpWatchKey k s) = rand s"
  by (simp_all add: bumpWatchKey_def)

lemma policy_cong: "policyCache s = policyCache s' \<Longrightarrow> policy s = policy s'"
  by (simp add: policy_def)

lemma purge_fields [simp]:
  "policyCache (purgeEntryLocked s i k e) = policyCache s"
  "maxMemCache (purgeEntryLocked s i k e) = maxMemCache s"
  "readLRUTick (purgeEntryLocked s i k e) = readLRUTick s"
  "evictCursor (purgeEntryLocked s i k e) = evictCursor s"
  "rand (purgeEntryLocked s i k e) = rand s"
  "watch (purgeEntryLocked s i k e) = (watch s)(k := watch s k + 1)"
  by (simp_all add: purgeEntryLocked_def Let_def)

lemma replace_fields [simp]:
  "policyCache (replaceEntry s k old ne) = policyCache s"
  "maxMemCache (replaceEntry s k old ne) = maxMemCache s"
  "readLRUTick (replaceEntry s k old ne) = readLRUTick s"
  "evictCursor (replaceEntry s k old ne) = evictCursor s"
  "rand (replaceEntry s k old ne) = rand s"
  "watch (replaceEntry s k old ne) = (watch s)(k := watch s k + 1)"
  by (simp_all add: replaceEntry_def Let_def split: option.split)

lemma touch_fields [simp]:
  "mem (touchLRU s k e) = mem s" "policyCache (touchLRU s k e) = policyCache s"
  "maxMemCache (touchLRU s k e) = maxMemCache s" "readLRUTick (touchLRU s k e) = readLRUTick s"
  "evictCursor (touchLRU s k e) = evictCursor s" "rand (touchLRU s k e) = rand s"
  "watch (touchLRU s k e) = watch s"
  by (simp_all add: touchLRU_def)

lemma mem_purge: "0 \<le> mem s \<Longrightarrow> mem (purgeEntryLocked s i k e) = max 0 (mem s - estimateMem k e)"
  by (simp add: purgeEntryLocked_def Let_def mem_addMem)

lemma mem_replace:
  assumes "0 \<le> mem s"
  shows "mem (replaceEntry s k old ne) =
     (case old of None \<Rightarrow> mem s | Some e \<Rightarrow> max 0 (mem s - estimateMem k e)) + estimateMem k ne"
  using assms estimateMem_nonneg [of k ne]
  by (cases old) (simp_all add: replaceEntry_def Let_def mem_addMem del: estimateMem_nonneg)

lemma shards_purge:
  "shards (purgeEntryLocked s i k e) =
     (shards s)(i := (fst (removeFromLRU k (shards s i, e)))\<lparr>shm := mapDel k (shm (shards s i))\<rparr>)"
  by (simp add: purgeEntryLocked_def Let_def lru_moves)

lemma shards_replace:
  "shards (replaceEntry s k old ne) =
     (shards s)(shardIndex k := putEntry k (lruAfterSet (policy s) k
        (case old of None \<Rightarrow> shards s (shardIndex k)
                   | Some e \<Rightarrow> fst (removeFromLRU k (shards s (shardIndex k), e)), ne)))"
  by (simp add: replaceEntry_def Let_def policy_def split: option.split)

lemma shm_putEntry: "shm (putEntry k p) = mapPut k (snd p) (shm (fst p))"
  by (simp add: putEntry_def split: prod.split)

text \<open>What the primitives do to the visible contents.\<close>

lemma db_purge: "db (purgeEntryLocked s (shardIndex k) k e) = (db s)(k := None)"
  by (auto simp: db_def getEntry_def shardFor_def shards_purge fun_eq_iff)

lemma db_purge_at:
  "storeInv s \<Longrightarrow> mapGet (shm (shards s i)) k = Some e \<Longrightarrow>
   db (purgeEntryLocked s i k e) = (db s)(k := None)"
  using db_purge [of s k e] by (auto simp: storeInv_def shardOk_def)

lemma db_replace [simp]: "db (replaceEntry s k old ne) = (db s)(k \<mapsto> content ne)"
  by (auto simp: db_def getEntry_def shardFor_def shards_replace shm_putEntry lru_moves fun_eq_iff
      split: option.splits)

lemma db_touch: "getEntry s k = Some e \<Longrightarrow> db (touchLRU s k e) = db s"
  by (auto simp: db_def getEntry_def shardFor_def touchLRU_def shm_putEntry lru_moves fun_eq_iff)

text \<open>The primitives keep the invariant.\<close>

lemma storeInv_shard: "storeInv s \<Longrightarrow> shardOk i (shards s i)"
  by (simp add: storeInv_def)

lemma storeInv_mem: "storeInv s \<Longrightarrow> 0 \<le> mem s"
  by (simp add: storeInv_def)

lemma storeInv_routed:
  "storeInv s \<Longrightarrow> mapGet (shm (shards s i)) k = Some e \<Longrightarrow> shardIndex k = i"
  by (auto simp: storeInv_def shardOk_def)

lemma storeInv_valueOk: "storeInv s \<Longrightarrow> getEntry s k = Some e \<Longrightarrow> valueOk (evalue e)"
  by (auto simp: storeInv_def shardOk_def getEntry_def shardFor_def)

lemma storeInv_purge:
  "storeInv s \<Longrightarrow> mapGet (shm (shards s i)) k = Some e \<Longrightarrow> storeInv (purgeEntryLocked s i k e)"
  using shardOk_detach [of i "shards s i" k e]
  by (simp add: storeInv_def shards_purge mem_purge)

text \<open>The old entry handed to \<open>replaceEntry\<close> is the one in the map, or one that is in no LRU
  list when the key is absent.\<close>

definition oldOk :: "store \<Rightarrow> bytes \<Rightarrow> entry option \<Rightarrow> bool" where
  "oldOk s k old \<longleftrightarrow>
     old = getEntry s k \<or>
     (getEntry s k = None \<and> (\<forall>e. old = Some e \<longrightarrow> \<not> allElem e \<and> \<not> volElem e))"

lemma oldOk_self [simp]: "oldOk s k (getEntry s k)"
  by (simp add: oldOk_def)

lemma shardOk_mapOk: "shardOk i sh \<Longrightarrow> mapOk (shm sh)"
  by (simp add: shardOk_def)

lemma storeInv_replace:
  assumes inv: "storeInv s" and old: "oldOk s k old" and v: "valueOk v"
  shows "storeInv (replaceEntry s k old (newEntry v t))"
proof -
  let ?i = "shardIndex k"
  let ?sh = "case old of None \<Rightarrow> shards s ?i | Some e \<Rightarrow> fst (removeFromLRU k (shards s ?i, e))"
  have ok: "shardOk ?i (shards s ?i)" by (rule storeInv_shard [OF inv])
  have m: "shm ?sh = shm (shards s ?i)" by (simp add: lru_moves split: option.split)
  have "shardOk ?i (?sh\<lparr>shm := mapDel k (shm ?sh)\<rparr>)"
  proof (cases "getEntry s k")
    case None
    then have abs: "mapDel k (shm (shards s ?i)) = shm (shards s ?i)"
      by (simp add: getEntry_def shardFor_def AList.delete_idem mapGet_None_iff)
    have "?sh = shards s ?i"
      using old None by (auto simp: oldOk_def removeFromLRU_def detachAll_def detachVol_def split: option.split)
    with ok abs show ?thesis by simp
  next
    case (Some e)
    with old have "old = Some e" by (auto simp: oldOk_def)
    with Some ok show ?thesis
      by (auto simp: getEntry_def shardFor_def lru_moves intro: shardOk_detach)
  qed
  from shardOk_attach [OF this] v m shardOk_mapOk [OF ok]
  have "shardOk ?i (putEntry k (lruAfterSet (policy s) k (?sh, newEntry v t)))" by simp
  moreover have "0 \<le> mem (replaceEntry s k old (newEntry v t))"
    using storeInv_mem [OF inv] by (simp add: mem_replace split: option.split)
  ultimately show ?thesis using inv by (simp add: storeInv_def shards_replace)
qed

lemma storeInv_touch: "storeInv s \<Longrightarrow> getEntry s k = Some e \<Longrightarrow> storeInv (touchLRU s k e)"
  using shardOk_touch [of "shardIndex k" "shardFor s k" k e]
  by (simp add: storeInv_def touchLRU_def getEntry_def shardFor_def)

text \<open>The sum of the estimates under the primitives.\<close>

lemma totalMem_setShard:
  "i < NumShards \<Longrightarrow> shards s' = (shards s)(i := sh) \<Longrightarrow>
   totalMem s' = totalMem s - shardMem (shards s i) + shardMem sh"
  by (simp add: totalMem_def sum.remove [of "{..<NumShards}" i])

lemma totalMem_purge:
  assumes "storeInv s" and k: "mapGet (shm (shards s i)) k = Some e" and i: "i < NumShards"
  shows "totalMem (purgeEntryLocked s i k e') = totalMem s - estimateMem k e"
proof -
  have "mapOk (shm (shards s i))" by (rule shardOk_mapOk [OF storeInv_shard [OF assms(1)]])
  then show ?thesis
    using totalMem_setShard [OF i shards_purge] k
    by (simp add: shardMem_def mapSum_del del: map_of_eq_Some_iff)
qed

lemma totalMem_replace:
  assumes "storeInv s"
  shows "totalMem (replaceEntry s k old ne) =
    totalMem s - (case getEntry s k of None \<Rightarrow> 0 | Some e \<Rightarrow> estimateMem k e) + estimateMem k ne"
proof -
  let ?i = "shardIndex k"
  have m: "mapOk (shm (shards s ?i))" by (rule shardOk_mapOk [OF storeInv_shard [OF assms(1)]])
  let ?p = "lruAfterSet (policy s) k
        (case old of None \<Rightarrow> shards s ?i | Some e \<Rightarrow> fst (removeFromLRU k (shards s ?i, e)), ne)"
  have "shm (fst ?p) = shm (shards s ?i)" by (simp add: lru_moves split: option.split)
  moreover have "estimateMem k (snd ?p) = estimateMem k ne"
    by (rule content_eqD(3)) (simp add: lru_moves)
  ultimately show ?thesis
    using m totalMem_setShard [OF shardIndex_less shards_replace, of s k old ne]
    by (simp add: shardMem_def shm_putEntry mapSum_put getEntry_def shardFor_def)
qed

lemma totalMem_touch:
  assumes "storeInv s" and "getEntry s k = Some e"
  shows "totalMem (touchLRU s k e) = totalMem s"
proof -
  let ?p = "touchVolatileLRU (policy s) k (touchAllKeysLRU (policy s) k (shardFor s k, e))"
  have "estimateMem k (snd ?p) = estimateMem k e" "shm (fst ?p) = shm (shardFor s k)"
    by (rule content_eqD(3)) (simp_all add: lru_moves)
  moreover have "mapOk (shm (shardFor s k))"
    unfolding shardFor_def by (rule shardOk_mapOk [OF storeInv_shard [OF assms(1)]])
  moreover have "shards (touchLRU s k e) = (shards s)(shardIndex k := putEntry k ?p)"
    by (simp add: touchLRU_def)
  ultimately show ?thesis
    using totalMem_setShard [OF shardIndex_less, of "touchLRU s k e" s k] assms(2)
    by (simp add: shardMem_def shm_putEntry mapSum_put getEntry_def shardFor_def del: map_of_eq_Some_iff)
qed

lemma totalMem_ge:
  assumes "storeInv s" and k: "mapGet (shm (shards s i)) k = Some e" and i: "i < NumShards"
  shows "estimateMem k e \<le> totalMem s"
proof -
  have nn: "0 \<le> shardMem sh" for sh by (simp add: shardMem_def mapSum_nonneg)
  have "0 \<le> totalMem (purgeEntryLocked s i k e)"
    unfolding totalMem_def by (intro sum_nonneg nn)
  then show ?thesis by (simp add: totalMem_purge [OF assms])
qed

end
