(* ===== verification/Store_Steps.thy ===== *)
theory Store_Steps
  imports Store_Core
begin

text \<open>
  Every method of the store is a sequence of a few primitive steps: an entry is written, an
  entry is purged, an LRU list is touched, a counter advances.  The step relation \<open>prim L\<close>
  allows the steps whose labels are in \<open>L\<close>; an operation's lemma says which labels it needs, and
  the locale \<open>store_operation\<close> gives what follows from it: the invariant, the memory
  counter, the keys left alone and the watch versions.
\<close>

datatype label =
    Write bytes
  | Purge bytes
  | Unlink bytes
  | Shrink bytes
  | Stale bytes
  | Evict

text \<open>The entries the eviction policy allows to evict.\<close>

definition volatilePolicy :: "bytes \<Rightarrow> bool" where
  "volatilePolicy pol \<longleftrightarrow> pol \<in> {''volatile-lru'', ''volatile-random'', ''volatile-ttl''}"

definition evictable :: "store \<Rightarrow> entry \<Rightarrow> bool" where
  "evictable s e \<longleftrightarrow> policy s \<noteq> ''noeviction'' \<and> (volatilePolicy (policy s) \<longrightarrow> hasTTL e)"

text \<open>\<open>Rename\<close> takes the source out of its shard without bumping its watch version.\<close>

definition unlinkEntry :: "store \<Rightarrow> bytes \<Rightarrow> entry \<Rightarrow> store" where
  "unlinkEntry s key e =
     (let i = shardIndex key;
          sh = fst (removeFromLRU key (shards s i, e));
          s = setShard i (sh\<lparr>shm := mapDel key (shm sh)\<rparr>) s
      in addMem (- estimateMem key e) s)"

text \<open>The list methods that pop change the list an entry points to, in place.\<close>

definition mutateList :: "store \<Rightarrow> bytes \<Rightarrow> entry \<Rightarrow> bytes list \<Rightarrow> store" where
  "mutateList s key e l =
     setShard (shardIndex key) (putEntry key (shardFor s key, e\<lparr>evalue := VList l\<rparr>)) s"

text \<open>The label \<open>Stale\<close> stands for a write that takes the size of an entry already purged off the
  counter once more, as \<open>incrBy\<close> does after the expiry of the key.\<close>

text \<open>How \<open>LPop\<close>, \<open>RPop\<close> and \<open>LRem\<close> end, once the elements left in the list are \<open>l\<close>.\<close>

definition commitList :: "store \<Rightarrow> bytes \<Rightarrow> entry \<Rightarrow> bytes list \<Rightarrow> store" where
  "commitList s key e l =
     (let s = mutateList s key e l; old = e\<lparr>evalue := VList l\<rparr>
      in if l = [] then purgeEntryLocked s (shardIndex key) key old
         else replaceEntry s key (Some old) (newEntry (VList l) (expiresAt e)))"

inductive prim :: "label set \<Rightarrow> store \<Rightarrow> store \<Rightarrow> bool" for L where
  prim_purge: "mapGet (shm (shards s i)) k = Some e \<Longrightarrow> i < NumShards \<Longrightarrow> Purge k \<in> L \<Longrightarrow>
     prim L s (purgeEntryLocked s i k e)"
| prim_evict: "mapGet (shm (shards s i)) k = Some e \<Longrightarrow> i < NumShards \<Longrightarrow> evictable s e \<Longrightarrow> Evict \<in> L \<Longrightarrow>
     prim L s (purgeEntryLocked s i k e)"
| prim_write: "valueOk v \<Longrightarrow> Write k \<in> L \<Longrightarrow> prim L s (replaceEntry s k (getEntry s k) (newEntry v t))"
| prim_touch: "getEntry s k = Some e \<Longrightarrow> prim L s (touchLRU s k e)"
| prim_count: "prim L s (s\<lparr>readLRUTick := a, evictCursor := b, rand := c\<rparr>)"
| prim_unlink: "getEntry s k = Some e \<Longrightarrow> Unlink k \<in> L \<Longrightarrow> prim L s (unlinkEntry s k e)"
| prim_shrink: "getEntry s k = Some e \<Longrightarrow> evalue e = VList l \<Longrightarrow> length l' \<le> length l \<Longrightarrow>
     Shrink k \<in> L \<Longrightarrow> prim L s (commitList s k e l')"
| prim_stale: "getEntry s k = None \<Longrightarrow> \<not> allElem e \<Longrightarrow> \<not> volElem e \<Longrightarrow> valueOk v \<Longrightarrow>
     Write k \<in> L \<Longrightarrow> Stale k \<in> L \<Longrightarrow> prim L s (replaceEntry s k (Some e) (newEntry v t))"

abbreviation prims :: "label set \<Rightarrow> store \<Rightarrow> store \<Rightarrow> bool" where
  "prims L \<equiv> (prim L)\<^sup>*\<^sup>*"

text \<open>How far the memory counter is above the sum of the estimates.\<close>

definition memDrift :: "store \<Rightarrow> int" where
  "memDrift s = mem s - totalMem s"

lemma memExact_drift: "memExact s \<longleftrightarrow> memDrift s = 0"
  by (simp add: memExact_def memDrift_def)


section \<open>Unlinking and in-place changes\<close>

lemma unlink_purge:
  "unlinkEntry s k e = (purgeEntryLocked s (shardIndex k) k e)\<lparr>watch := watch s\<rparr>"
  by (simp add: unlinkEntry_def purgeEntryLocked_def Let_def bumpWatchKey_def addMem_def setShard_def)

lemma unlink_fields [simp]:
  "policyCache (unlinkEntry s k e) = policyCache s" "maxMemCache (unlinkEntry s k e) = maxMemCache s"
  "watch (unlinkEntry s k e) = watch s"
  by (simp_all add: unlink_purge)

lemma watch_irrelevant [simp]:
  "storeInv (s\<lparr>watch := w\<rparr>) = storeInv s" "db (s\<lparr>watch := w\<rparr>) = db s" "totalMem (s\<lparr>watch := w\<rparr>) = totalMem s"
  by (simp_all add: storeInv_def db_def getEntry_def shardFor_def totalMem_def fun_eq_iff)

lemma counters_irrelevant [simp]:
  "storeInv (s\<lparr>readLRUTick := a, evictCursor := b, rand := c\<rparr>) = storeInv s"
  "getEntry (s\<lparr>readLRUTick := a, evictCursor := b, rand := c\<rparr>) = getEntry s"
  "db (s\<lparr>readLRUTick := a, evictCursor := b, rand := c\<rparr>) = db s"
  "totalMem (s\<lparr>readLRUTick := a, evictCursor := b, rand := c\<rparr>) = totalMem s"
  by (simp_all add: storeInv_def db_def getEntry_def shardFor_def totalMem_def fun_eq_iff)

lemma db_unlink [simp]: "db (unlinkEntry s k e) = (db s)(k := None)"
  by (simp add: unlink_purge db_purge)

lemma mutate_fields [simp]:
  "policyCache (mutateList s k e l) = policyCache s" "maxMemCache (mutateList s k e l) = maxMemCache s"
  "watch (mutateList s k e l) = watch s" "mem (mutateList s k e l) = mem s"
  by (simp_all add: mutateList_def)

lemma getEntry_mutate [simp]:
  "getEntry (mutateList s k e l) = (getEntry s)(k \<mapsto> e\<lparr>evalue := VList l\<rparr>)"
  by (auto simp: mutateList_def getEntry_def shardFor_def shm_putEntry fun_eq_iff)

lemma storeInv_mutate:
  "storeInv s \<Longrightarrow> getEntry s k = Some e \<Longrightarrow> storeInv (mutateList s k e l)"
  using shardOk_mutate [of "shardIndex k" "shardFor s k" k e "VList l"]
  by (simp add: storeInv_def mutateList_def putEntry_def getEntry_def shardFor_def)

lemma totalMem_mutate:
  assumes "storeInv s" and k: "getEntry s k = Some e"
  shows "totalMem (mutateList s k e l) =
    totalMem s - valueMem (evalue e) + 32 * int (length l)"
proof -
  have "mapOk (shm (shardFor s k))"
    unfolding shardFor_def by (rule shardOk_mapOk [OF storeInv_shard [OF assms(1)]])
  moreover have "shards (mutateList s k e l) =
      (shards s)(shardIndex k := putEntry k (shardFor s k, e\<lparr>evalue := VList l\<rparr>))"
    by (simp add: mutateList_def)
  ultimately show ?thesis
    using totalMem_setShard [OF shardIndex_less, of "mutateList s k e l" s k] k
    by (simp add: shardMem_def shm_putEntry mapSum_put getEntry_def shardFor_def estimateMem_def
        del: map_of_eq_Some_iff)
qed

lemma db_commit:
  "db (commitList s k e l) = (db s)(k := if l = [] then None else Some (VList l, expiresAt e))"
proof -
  have "db (mutateList s k e l') = (db s)(k \<mapsto> (VList l', expiresAt e))" for l'
    by (auto simp: db_def content_def fun_eq_iff)
  then show ?thesis by (simp add: commitList_def Let_def db_purge content_def newEntry_def)
qed

lemma commit_fields [simp]:
  "policyCache (commitList s k e l) = policyCache s" "maxMemCache (commitList s k e l) = maxMemCache s"
  "watch (commitList s k e l) = (watch s)(k := watch s k + 1)"
  by (simp_all add: commitList_def Let_def)

lemma storeInv_commit:
  assumes "storeInv s" and "getEntry s k = Some e"
  shows "storeInv (commitList s k e l)"
proof -
  have inv: "storeInv (mutateList s k e l)" by (rule storeInv_mutate [OF assms])
  have "mapGet (shm (shards (mutateList s k e l) (shardIndex k))) k = Some (e\<lparr>evalue := VList l\<rparr>)"
    by (simp add: getEntry_fold)
  from storeInv_purge [OF inv this] storeInv_replace [OF inv, of k "Some (e\<lparr>evalue := VList l\<rparr>)" "VList l"]
  show ?thesis by (cases "l = []") (simp_all add: commitList_def Let_def oldOk_def)
qed

text \<open>The estimate taken off the counter is that of the shortened list: 32 bytes per removed
  element stay counted.\<close>

lemma memDrift_commit:
  assumes "storeInv s" and e: "getEntry s k = Some e" and "evalue e = VList l" and "0 \<le> memDrift s"
    and "length l' \<le> length l"
  shows "memDrift (commitList s k e l') = memDrift s + 32 * int (length l - length l')"
proof -
  let ?s = "mutateList s k e l'" and ?e = "e\<lparr>evalue := VList l'\<rparr>"
  have inv: "storeInv ?s" by (rule storeInv_mutate [OF assms(1,2)])
  have g: "mapGet (shm (shards ?s (shardIndex k))) k = Some ?e"
    by (simp add: getEntry_fold)
  have t: "totalMem ?s = totalMem s - 32 * int (length l - length l')"
    using totalMem_mutate [OF assms(1,2), of l'] assms(3,5) by (simp add: of_nat_diff)
  have ge: "estimateMem k ?e \<le> mem ?s"
    using totalMem_ge [OF inv g shardIndex_less] t assms(4) by (simp add: memDrift_def)
  show ?thesis
  proof (cases "l' = []")
    case True
    then show ?thesis
      using totalMem_purge [OF inv g shardIndex_less, of ?e] mem_purge [OF storeInv_mem [OF inv], of "shardIndex k" k ?e] t ge
      by (simp add: commitList_def memDrift_def)
  next
    case False
    then show ?thesis
      using totalMem_replace [OF inv, of k "Some ?e" "newEntry (VList l') (expiresAt e)"] t ge
        mem_replace [OF storeInv_mem [OF inv], of k "Some ?e" "newEntry (VList l') (expiresAt e)"]
      by (simp add: commitList_def memDrift_def)
  qed
qed


section \<open>What the steps keep\<close>

lemma prim_inv:
  "prim L s s' \<Longrightarrow> storeInv s \<Longrightarrow> storeInv s'"
  by (induction rule: prim.induct)
    (auto intro: storeInv_purge storeInv_replace storeInv_touch storeInv_commit
      simp: unlink_purge getEntry_fold oldOk_def)

lemma prim_config:
  "prim L s s' \<Longrightarrow> policyCache s' = policyCache s \<and> maxMemCache s' = maxMemCache s"
  by (induction rule: prim.induct) simp_all

text \<open>Whether the policy allows to evict the entry of a key, from what the key holds.\<close>

definition mayGo :: "store \<Rightarrow> bytes \<Rightarrow> bool" where
  "mayGo s k \<longleftrightarrow> policy s \<noteq> ''noeviction'' \<and> (volatilePolicy (policy s) \<longrightarrow> (\<exists>v t. db s k = Some (v, t) \<and> \<not> isZero t))"

lemma evictable_mayGo:
  assumes "storeInv s" "mapGet (shm (shards s i)) k = Some e" "evictable s e"
  shows "mayGo s k"
proof -
  have "getEntry s k = Some e" using storeInv_routed [OF assms(1,2)] assms(2) by (auto simp: getEntry_def shardFor_def)
  with assms(3) show ?thesis by (auto simp: mayGo_def evictable_def db_def content_def hasTTL_def)
qed

lemma mayGo_cong: "db s' k = db s k \<Longrightarrow> policyCache s' = policyCache s \<Longrightarrow> mayGo s' k = mayGo s k"
  by (simp add: mayGo_def policy_def)

lemma prim_frame:
  "prim L s s' \<Longrightarrow> storeInv s \<Longrightarrow> Write k \<notin> L \<Longrightarrow> Shrink k \<notin> L \<Longrightarrow>
   db s' k = db s k \<or> (db s' k = None \<and> (Purge k \<in> L \<or> Unlink k \<in> L \<or> Evict \<in> L \<and> mayGo s k))"
  by (induction rule: prim.induct) (auto simp: db_purge_at db_touch db_commit intro: evictable_mayGo)

text \<open>A step advances the version of a key by at most one, and by one when it changes the key.\<close>

lemma prim_watch:
  "prim L s s' \<Longrightarrow> storeInv s \<Longrightarrow> Unlink k \<notin> L \<Longrightarrow>
   \<exists>n\<le>1. watch s' k = watch s k + of_nat n \<and> (n = 0 \<longrightarrow> db s' k = db s k)"
  by (induction rule: prim.induct)
    (auto simp: db_purge_at db_touch db_commit intro: exI [of _ 0] exI [of _ 1])

text \<open>A step that does not write a key either leaves the key and its version alone, or it removes the
  key and advances the version.\<close>

lemma prim_quiet:
  "prim L s s' \<Longrightarrow> storeInv s \<Longrightarrow> Write k \<notin> L \<Longrightarrow> Shrink k \<notin> L \<Longrightarrow> Unlink k \<notin> L \<Longrightarrow>
   watch s' k = watch s k \<and> db s' k = db s k \<or> watch s' k = watch s k + 1 \<and> db s k \<noteq> None \<and> db s' k = None"
proof (induction rule: prim.induct)
  case (prim_purge s i k' e)
  then show ?case using storeInv_routed [of s i k' e] by (auto simp: db_purge_at db_def getEntry_def shardFor_def)
next
  case (prim_evict s i k' e)
  then show ?case using storeInv_routed [of s i k' e] by (auto simp: db_purge_at db_def getEntry_def shardFor_def)
qed (auto simp: db_touch db_commit)

lemma prim_drift:
  "prim L s s' \<Longrightarrow> storeInv s \<Longrightarrow> 0 \<le> memDrift s \<Longrightarrow> \<forall>k. Stale k \<notin> L \<Longrightarrow>
   memDrift s \<le> memDrift s' \<and> ((\<forall>k. Shrink k \<notin> L) \<longrightarrow> memDrift s' = memDrift s)"
proof (induction rule: prim.induct)
  case (prim_purge s i k e)
  then show ?case
    using totalMem_ge [of s i k e] storeInv_mem [of s]
    by (auto simp: memDrift_def totalMem_purge mem_purge)
next
  case (prim_evict s i k e)
  then show ?case
    using totalMem_ge [of s i k e] storeInv_mem [of s]
    by (auto simp: memDrift_def totalMem_purge mem_purge)
next
  case (prim_write v k s t)
  then show ?case
    using totalMem_ge [of s "shardIndex k" k] storeInv_mem [of s]
    by (auto simp: memDrift_def totalMem_replace mem_replace getEntry_def shardFor_def
        split: option.split)
next
  case (prim_touch s k e)
  then show ?case by (simp add: memDrift_def totalMem_touch)
next
  case (prim_count s a b c)
  then show ?case by (simp add: memDrift_def)
next
  case (prim_unlink s k e)
  then show ?case
    using totalMem_ge [of s "shardIndex k" k e] storeInv_mem [of s]
    by (auto simp: memDrift_def unlink_purge totalMem_purge mem_purge getEntry_def shardFor_def)
next
  case (prim_shrink s k e l l')
  then show ?case by (auto simp: memDrift_commit)
next
  case (prim_stale s k e v t)
  then show ?case by simp
qed

text \<open>A step allowed by fewer labels is allowed by more.\<close>

lemma prim_mono: "prim L s s' \<Longrightarrow> L \<subseteq> L' \<Longrightarrow> prim L' s s'"
  by (induction rule: prim.induct) (auto intro: prim.intros)

lemma prims_mono: "prims L s s' \<Longrightarrow> L \<subseteq> L' \<Longrightarrow> prims L' s s'"
  by (induction rule: rtranclp_induct) (auto intro: prim_mono rtranclp.rtrancl_into_rtrancl)

lemmas prims_intros = prim.intros [THEN r_into_rtranclp [of "prim L" for L]]

lemma prims_inv: "prims L s s' \<Longrightarrow> storeInv s \<Longrightarrow> storeInv s'"
  by (induction rule: rtranclp_induct) (auto intro: prim_inv)

lemma prims_config:
  "prims L s s' \<Longrightarrow> policyCache s' = policyCache s \<and> maxMemCache s' = maxMemCache s"
  by (induction rule: rtranclp_induct) (auto dest: prim_config)

lemma prims_frame:
  assumes "prims L s s'" and "storeInv s" and "Write k \<notin> L" "Shrink k \<notin> L"
  shows "db s' k = db s k \<or> (db s' k = None \<and> (Purge k \<in> L \<or> Unlink k \<in> L \<or> Evict \<in> L \<and> mayGo s k))"
  using assms
proof (induction rule: rtranclp_induct)
  case (step s1 s2)
  note p = prim_frame [OF step.hyps(2) prims_inv [OF step.hyps(1) step.prems(1)] step.prems(2,3)]
  show ?case
  proof (cases "db s1 k = db s k")
    case True
    then have "mayGo s1 k = mayGo s k" using prims_config [OF step.hyps(1)] by (intro mayGo_cong) simp_all
    with p True show ?thesis by simp
  next
    case False
    with step.IH [OF step.prems] have q: "db s1 k = None" "Purge k \<in> L \<or> Unlink k \<in> L \<or> Evict \<in> L \<and> mayGo s k" by blast+
    from p have "db s2 k = None" unfolding q(1) by blast
    with q(2) show ?thesis by blast
  qed
qed simp

text \<open>Steps that do not write a key remove it at most once.\<close>

lemma prims_quiet:
  assumes "prims L s s'" and "storeInv s" and "Write k \<notin> L" "Shrink k \<notin> L" "Unlink k \<notin> L"
  shows "watch s' k = watch s k \<and> db s' k = db s k \<or> watch s' k = watch s k + 1 \<and> db s k \<noteq> None \<and> db s' k = None"
  using assms
proof (induction rule: rtranclp_induct)
  case (step s1 s2)
  from prim_quiet [OF step.hyps(2) prims_inv [OF step.hyps(1) step.prems(1)] step.prems(2-4)] step.IH [OF step.prems]
  show ?case by auto
qed simp

lemma prims_drift:
  assumes "prims L s s'" and "storeInv s" and "0 \<le> memDrift s" and "\<forall>k. Stale k \<notin> L"
  shows "memDrift s \<le> memDrift s' \<and> ((\<forall>k. Shrink k \<notin> L) \<longrightarrow> memDrift s' = memDrift s)"
  using assms
proof (induction rule: rtranclp_induct)
  case (step s1 s2)
  have "memDrift s \<le> memDrift s1" "(\<forall>k. Shrink k \<notin> L) \<longrightarrow> memDrift s1 = memDrift s"
    using step.IH step.prems by simp_all
  with prim_drift [OF step.hyps(2) prims_inv [OF step.hyps(1)]] step.prems show ?case by auto
qed simp


section \<open>At most one write\<close>

text \<open>Most methods write at most one entry: steps that only remove, a write, steps that only remove.\<close>

definition once :: "label set \<Rightarrow> label set \<Rightarrow> store \<Rightarrow> store \<Rightarrow> bool" where
  "once Q W s s' \<longleftrightarrow> (\<exists>s1 s2. prims Q s s1 \<and> (s2 = s1 \<or> prim W s1 s2) \<and> prims Q s2 s')"

lemma once_quiet: "prims Q s s' \<Longrightarrow> once Q W s s'"
  by (auto simp: once_def)

lemma once_refl [simp]: "once Q W s s"
  by (rule once_quiet) simp

lemma once_write: "prims Q s s1 \<Longrightarrow> prim W s1 s' \<Longrightarrow> once Q W s s'"
  by (auto simp: once_def)

lemma once_before: "prims Q s s1 \<Longrightarrow> once Q W s1 s' \<Longrightarrow> once Q W s s'"
  unfolding once_def by (metis rtranclp_trans)

lemma once_after: "once Q W s s1 \<Longrightarrow> prims Q s1 s' \<Longrightarrow> once Q W s s'"
  unfolding once_def by (metis rtranclp_trans)

lemma once_mono: "once Q W s s' \<Longrightarrow> Q \<subseteq> Q' \<Longrightarrow> W \<subseteq> W' \<Longrightarrow> once Q' W' s s'"
  unfolding once_def by (metis prim_mono prims_mono)

lemma once_prims:
  assumes "once Q W s s'" and "Q \<subseteq> L" "W \<subseteq> L"
  shows "prims L s s'"
proof -
  obtain s1 s2 where "prims Q s s1" "s2 = s1 \<or> prim W s1 s2" "prims Q s2 s'" using assms(1) by (auto simp: once_def)
  then have "prims L s s1" "prims L s1 s2" "prims L s2 s'"
    using prims_mono [OF _ assms(2)] prim_mono [OF _ assms(3)] by auto
  then show ?thesis by (meson rtranclp_trans)
qed

text \<open>The version of a key advances by at most three then: a removal, the write, a removal.\<close>

lemma once_watch:
  assumes "once Q W s s'" and "storeInv s" and "Write k \<notin> Q" "Shrink k \<notin> Q" "Unlink k \<notin> Q \<union> W"
  shows "\<exists>n\<le>3. watch s' k = watch s k + of_nat n \<and> (n = 0 \<longrightarrow> db s' k = db s k)"
proof -
  obtain s1 s2 where p: "prims Q s s1" "s2 = s1 \<or> prim W s1 s2" "prims Q s2 s'" using assms(1) by (auto simp: once_def)
  have inv1: "storeInv s1" by (rule prims_inv [OF p(1) assms(2)])
  then have inv2: "storeInv s2" using p(2) prim_inv by blast
  have q: "\<exists>n\<le>1. watch b k = watch a k + of_nat n \<and> (n = 0 \<longrightarrow> db b k = db a k)" if "prims Q a b" "storeInv a" for a b
    using prims_quiet [OF that assms(3,4)] assms(5) by (auto intro: exI [of _ 0] exI [of _ 1])
  obtain n1 where n1: "n1 \<le> 1" "watch s1 k = watch s k + of_nat n1" "n1 = 0 \<longrightarrow> db s1 k = db s k"
    using q [OF p(1) assms(2)] by blast
  obtain n2 where n2: "n2 \<le> 1" "watch s2 k = watch s1 k + of_nat n2" "n2 = 0 \<longrightarrow> db s2 k = db s1 k"
  proof (cases "s2 = s1")
    case True
    then show ?thesis using that [of 0] by simp
  next
    case False
    with p(2) prim_watch [OF _ inv1, of W s2 k] assms(5) that show ?thesis by blast
  qed
  obtain n3 where n3: "n3 \<le> 1" "watch s' k = watch s2 k + of_nat n3" "n3 = 0 \<longrightarrow> db s' k = db s2 k"
    using q [OF p(3) inv2] by blast
  from n1 n2 n3 show ?thesis by (intro exI [of _ "n1 + n2 + n3"]) auto
qed


section \<open>The contract of a store operation\<close>

text \<open>The label of the guard that makes room.\<close>

definition evictLabels :: "label set" where
  "evictLabels = {Evict}"

locale store_operation =
  fixes L :: "label set" and opn :: "store \<Rightarrow> store"
  assumes steps: "storeInv s \<Longrightarrow> prims L s (opn s)"
begin

lemma keeps_inv: "storeInv s \<Longrightarrow> storeInv (opn s)"
  using prims_inv [OF steps] by blast

lemma keeps_config: "storeInv s \<Longrightarrow> policyCache (opn s) = policyCache s \<and> maxMemCache (opn s) = maxMemCache s"
  using prims_config [OF steps] by blast

lemma keeps_exact:
  "\<forall>k. Shrink k \<notin> L \<and> Stale k \<notin> L \<Longrightarrow> storeInv s \<Longrightarrow> memExact s \<Longrightarrow> memExact (opn s)"
  using prims_drift [OF steps, of s] by (simp add: memExact_drift)

lemma counter_above: "\<forall>k. Stale k \<notin> L \<Longrightarrow> storeInv s \<Longrightarrow> 0 \<le> memDrift s \<Longrightarrow> memDrift s \<le> memDrift (opn s)"
  using prims_drift [OF steps, of s] by simp

lemma frame:
  "storeInv s \<Longrightarrow> Write k \<notin> L \<Longrightarrow> Shrink k \<notin> L \<Longrightarrow> Purge k \<notin> L \<Longrightarrow> Unlink k \<notin> L \<Longrightarrow>
   db (opn s) k = db s k \<or> db (opn s) k = None \<and> Evict \<in> L \<and> mayGo s k"
  using prims_frame [OF steps, of s k] by auto

end

text \<open>How every method starts.\<close>

lemma liveEntry_steps:
  "prims {Purge k} s (fst (liveEntry now s k))"
  by (auto simp: liveEntry_def getEntry_fold split: option.split intro!: prims_intros)

interpretation live_entry: store_operation "{Purge k}" "\<lambda>s. fst (liveEntry now s k)" for now k
  by unfold_locales (rule liveEntry_steps)

lemma live_isExpired: "live now (content e) \<longleftrightarrow> \<not> isExpired now e"
  by (auto simp: live_def content_def isExpired_def)

lemma view_getEntry:
  "view now s k = (case getEntry s k of None \<Rightarrow> None | Some e \<Rightarrow> if isExpired now e then None else Some (content e))"
  by (simp add: view_def db_def live_isExpired split: option.split)

lemma view_cong: "db s = db s' \<Longrightarrow> view now s = view now s'"
  by (simp add: view_def fun_eq_iff)

lemma liveEntry_cases:
  assumes "storeInv s"
  obtains (absent) s1 where "liveEntry now s k = (s1, None)" "storeInv s1" "prims {Purge k} s s1"
      "getEntry s1 k = None" "view now s k = None" "view now s1 = view now s" "db s1 = (db s)(k := None)"
  | (present) e where "liveEntry now s k = (s, Some e)" "getEntry s k = Some e" "\<not> isExpired now e"
      "view now s k = Some (content e)" "valueOk (evalue e)"
proof (cases "getEntry s k")
  case None
  then have "db s k = None" by (simp add: db_def)
  with None show thesis
    by (intro absent [of s]) (auto simp: liveEntry_def assms view_getEntry fun_eq_iff)
next
  case (Some e)
  show thesis
  proof (cases "isExpired now e")
    case True
    let ?s = "purgeEntryLocked s (shardIndex k) k e"
    have l: "liveEntry now s k = (?s, None)" using Some True by (simp add: liveEntry_def)
    have d: "db ?s = (db s)(k := None)" by (rule db_purge)
    then have "getEntry ?s k = None" by (simp add: db_def fun_eq_iff split: if_splits)
    moreover have v: "view now s k = None" using Some True by (simp add: view_getEntry)
    moreover have "view now ?s = view now s" using v by (auto simp: view_def d fun_eq_iff)
    ultimately show thesis
      using liveEntry_steps [of k s now] live_entry.keeps_inv [OF assms, of now k] l d
      by (intro absent [of ?s]) simp_all
  next
    case False
    then show thesis
      using Some storeInv_valueOk [OF assms Some]
      by (intro present [of e]) (simp_all add: liveEntry_def view_getEntry)
  qed
qed

lemma liveEntry_facts:
  assumes "liveEntry now s k = (s', old)" and "storeInv s"
  shows "storeInv s'" "old = getEntry s' k" "prims {Purge k} s s'" "view now s' = view now s"
    "k' \<noteq> k \<Longrightarrow> db s' k' = db s k'" "view now s k = map_option content old"
    "policyCache s' = policyCache s" "maxMemCache s' = maxMemCache s"
    "\<And>e. old = Some e \<Longrightarrow> s' = s \<and> \<not> isExpired now e \<and> valueOk (evalue e)"
proof -
  have "storeInv s' \<and> old = getEntry s' k \<and> prims {Purge k} s s' \<and> view now s' = view now s \<and>
    (k' \<noteq> k \<longrightarrow> db s' k' = db s k') \<and> view now s k = map_option content old \<and>
    (\<forall>e. old = Some e \<longrightarrow> s' = s \<and> \<not> isExpired now e \<and> valueOk (evalue e))"
    using assms(2) by (rule liveEntry_cases [of s now k]) (use assms in auto)
  moreover have "policyCache s' = policyCache s \<and> maxMemCache s' = maxMemCache s"
    using live_entry.keeps_config [OF assms(2), of now k] assms(1) by simp
  ultimately show "storeInv s'" "old = getEntry s' k" "prims {Purge k} s s'" "view now s' = view now s"
    "k' \<noteq> k \<Longrightarrow> db s' k' = db s k'" "view now s k = map_option content old"
    "policyCache s' = policyCache s" "maxMemCache s' = maxMemCache s"
    "\<And>e. old = Some e \<Longrightarrow> s' = s \<and> \<not> isExpired now e \<and> valueOk (evalue e)" by auto
qed

end
