(* ===== verification/Store_Evict.thy ===== *)
theory Store_Evict
  imports Store_Steps
begin

text \<open>
  Eviction (\<^verbatim>\<open>src/internal/store/eviction.go\<close>) and the memory guard of
  \<^verbatim>\<open>src/internal/store/store.go\<close>.  Each policy is a bounded search for one victim; the locale
  \<open>evictor\<close> is the contract they share, and \<open>evictFromStore\<close> meets it whatever the policy, which
  is what makes the guard's loop end: a successful eviction leaves one key less.
\<close>


section \<open>Policies\<close>

text \<open>\<^verbatim>\<open>rand.IntN(n)\<close>\<close>

definition randIntN :: "store \<Rightarrow> nat \<Rightarrow> nat \<times> store" where
  "randIntN s n = (rand s 0 mod n, s\<lparr>rand := (\<lambda>j. rand s (Suc j))\<rparr>)"

text \<open>\<^verbatim>\<open>int(s.evictCursor.Add(1)-1) % NumShards\<close>\<close>

definition nextShard :: "store \<Rightarrow> nat \<times> store" where
  "nextShard s = (unat (evictCursor s) mod NumShards, s\<lparr>evictCursor := evictCursor s + 1\<rparr>)"

fun evictAllKeysLRUFrom :: "nat \<Rightarrow> store \<Rightarrow> bytes \<Rightarrow> store \<times> bool" where
  "evictAllKeysLRUFrom 0 s avoidKey = (s, False)"
| "evictAllKeysLRUFrom (Suc n) s avoidKey =
     (case nextShard s of (si, s) \<Rightarrow>
        let sh = shards s si
        in if allList sh = [] then evictAllKeysLRUFrom n s avoidKey
           else let victim = last (allList sh)
                in if avoidKey \<noteq> [] \<and> victim = avoidKey then evictAllKeysLRUFrom n s avoidKey
                   else case mapGet (shm sh) victim of
                          None \<Rightarrow> evictAllKeysLRUFrom n s avoidKey
                        | Some e \<Rightarrow> (purgeEntryLocked s si victim e, True))"

definition evictAllKeysLRU :: "store \<Rightarrow> bytes \<Rightarrow> store \<times> bool" where
  "evictAllKeysLRU = evictAllKeysLRUFrom (NumShards * 2)"

fun evictVolatileLRUFrom :: "nat \<Rightarrow> store \<Rightarrow> bytes \<Rightarrow> store \<times> bool" where
  "evictVolatileLRUFrom 0 s avoidKey = (s, False)"
| "evictVolatileLRUFrom (Suc n) s avoidKey =
     (case nextShard s of (si, s) \<Rightarrow>
        let sh = shards s si
        in if volList sh = [] then evictVolatileLRUFrom n s avoidKey
           else let victim = last (volList sh)
                in if avoidKey \<noteq> [] \<and> victim = avoidKey then evictVolatileLRUFrom n s avoidKey
                   else case mapGet (shm sh) victim of
                          None \<Rightarrow> evictVolatileLRUFrom n s avoidKey
                        | Some e \<Rightarrow>
                            if \<not> hasTTL e then evictVolatileLRUFrom n s avoidKey
                            else (purgeEntryLocked s si victim e, True))"

definition evictVolatileLRU :: "store \<Rightarrow> bytes \<Rightarrow> store \<times> bool" where
  "evictVolatileLRU = evictVolatileLRUFrom (NumShards * 2)"

fun evictRandomFrom :: "nat \<Rightarrow> (entry \<Rightarrow> bool) \<Rightarrow> store \<Rightarrow> bytes \<Rightarrow> store \<times> bool" where
  "evictRandomFrom 0 pred s avoidKey = (s, False)"
| "evictRandomFrom (Suc n) pred s avoidKey =
     (case randIntN s NumShards of (si, s) \<Rightarrow>
        let sh = shards s si
        in if shm sh = [] then evictRandomFrom n pred s avoidKey
           else let cand = map fst (filter (\<lambda>(k, e). pred e) (shm sh))
                in if cand = [] then evictRandomFrom n pred s avoidKey
                   else case randIntN s (length cand) of (j, s) \<Rightarrow>
                     let victim = cand ! j
                     in if avoidKey \<noteq> [] \<and> victim = avoidKey then evictRandomFrom n pred s avoidKey
                        else case mapGet (shm sh) victim of
                               None \<Rightarrow> evictRandomFrom n pred s avoidKey
                             | Some e \<Rightarrow> (purgeEntryLocked s si victim e, True))"

definition evictRandom :: "(entry \<Rightarrow> bool) \<Rightarrow> store \<Rightarrow> bytes \<Rightarrow> store \<times> bool" where
  "evictRandom = evictRandomFrom (NumShards * 8)"

definition ttlBetter ::
  "bytes \<Rightarrow> nat \<Rightarrow> bytes \<times> entry \<Rightarrow> (bytes \<times> nat \<times> time) option \<Rightarrow> (bytes \<times> nat \<times> time) option" where
  "ttlBetter avoidKey si = (\<lambda>(k, e) best.
     if \<not> hasTTL e then best
     else if avoidKey \<noteq> [] \<and> k = avoidKey then best
     else case best of
            None \<Rightarrow> Some (k, si, expiresAt e)
          | Some (_, _, bestAt) \<Rightarrow> if expiresAt e < bestAt then Some (k, si, expiresAt e) else best)"

definition soonestTTL :: "store \<Rightarrow> bytes \<Rightarrow> (bytes \<times> nat \<times> time) option" where
  "soonestTTL s avoidKey =
     fold (\<lambda>si best. fold (ttlBetter avoidKey si) (shm (shards s si)) best) [0..<NumShards] None"

definition evictVolatileTTL :: "store \<Rightarrow> bytes \<Rightarrow> store \<times> bool" where
  "evictVolatileTTL s avoidKey =
     (case soonestTTL s avoidKey of
        None \<Rightarrow> (s, False)
      | Some (bestKey, bestSi, _) \<Rightarrow>
          (case mapGet (shm (shards s bestSi)) bestKey of
             None \<Rightarrow> (s, False)
           | Some e \<Rightarrow>
               if hasTTL e then (purgeEntryLocked s bestSi bestKey e, True) else (s, False)))"

definition evictFromStore :: "store \<Rightarrow> bytes \<Rightarrow> store \<times> bool" where
  "evictFromStore s avoidKey =
     (let pol = policy s
      in if pol = ''noeviction'' then (s, False)
         else if pol = ''allkeys-lru'' then evictAllKeysLRU s avoidKey
         else if pol = ''volatile-lru'' then evictVolatileLRU s avoidKey
         else if pol = ''allkeys-random'' then evictRandom (\<lambda>_. True) s avoidKey
         else if pol = ''volatile-random'' then evictRandom hasTTL s avoidKey
         else if pol = ''volatile-ttl'' then evictVolatileTTL s avoidKey
         else (s, False))"


section \<open>The contract of an eviction policy\<close>

definition counterStep :: "store \<Rightarrow> store \<Rightarrow> bool" where
  "counterStep s s' \<longleftrightarrow> (\<exists>a b c. s' = s\<lparr>readLRUTick := a, evictCursor := b, rand := c\<rparr>)"

lemma counterStep_refl [simp]: "counterStep s s"
  unfolding counterStep_def
  by (intro exI [of _ "readLRUTick s"] exI [of _ "evictCursor s"] exI [of _ "rand s"]) simp

lemma counterStep_trans: "counterStep s s' \<Longrightarrow> counterStep s' s'' \<Longrightarrow> counterStep s s''"
  by (auto simp: counterStep_def) (metis)

lemma counterStep_randIntN: "randIntN s n = (j, s') \<Longrightarrow> counterStep s s'"
  unfolding counterStep_def randIntN_def
  by (intro exI [of _ "readLRUTick s"] exI [of _ "evictCursor s"] exI [of _ "rand s'"]) auto

lemma counterStep_nextShard: "nextShard s = (j, s') \<Longrightarrow> counterStep s s'"
  unfolding counterStep_def nextShard_def
  by (intro exI [of _ "readLRUTick s"] exI [of _ "evictCursor s'"] exI [of _ "rand s"]) auto

lemma counterStep_fields:
  "counterStep s s' \<Longrightarrow> shards s' = shards s \<and> mem s' = mem s \<and> policyCache s' = policyCache s \<and>
     maxMemCache s' = maxMemCache s \<and> watch s' = watch s \<and> storeInv s' = storeInv s \<and> db s' = db s \<and>
     totalMem s' = totalMem s"
  by (auto simp: counterStep_def)

lemma counterStep_prims: "counterStep s s' \<Longrightarrow> prims L s s'"
  by (auto simp: counterStep_def intro: prims_intros)

definition keyCount :: "store \<Rightarrow> nat" where
  "keyCount s = (\<Sum>i<NumShards. length (shm (shards s i)))"

text \<open>\<open>victimOf vic s avoid s'\<close>: \<open>s'\<close> is \<open>s\<close> without one entry that \<open>vic\<close> accepts and whose key is
  not \<open>avoid\<close>; an empty \<open>avoid\<close> excludes nothing.\<close>

definition victimOf :: "(entry \<Rightarrow> bool) \<Rightarrow> store \<Rightarrow> bytes \<Rightarrow> store \<Rightarrow> bool" where
  "victimOf vic s avoidKey s' \<longleftrightarrow>
     (\<exists>s0 i v e. counterStep s s0 \<and> i < NumShards \<and> mapGet (shm (shards s i)) v = Some e \<and>
        (avoidKey \<noteq> [] \<longrightarrow> v \<noteq> avoidKey) \<and> vic e \<and> s' = purgeEntryLocked s0 i v e)"

lemma victimOfI:
  "counterStep s s0 \<Longrightarrow> i < NumShards \<Longrightarrow> mapGet (shm (shards s i)) v = Some e \<Longrightarrow>
   (avoidKey \<noteq> [] \<longrightarrow> v \<noteq> avoidKey) \<Longrightarrow> vic e \<Longrightarrow> victimOf vic s avoidKey (purgeEntryLocked s0 i v e)"
  unfolding victimOf_def by blast

lemma victimOfE:
  assumes "victimOf vic s avoidKey s'"
  obtains s0 i v e where "counterStep s s0" "i < NumShards" "mapGet (shm (shards s i)) v = Some e"
    "avoidKey \<noteq> [] \<longrightarrow> v \<noteq> avoidKey" "vic e" "s' = purgeEntryLocked s0 i v e"
  using assms unfolding victimOf_def by blast

lemma victimOf_counter:
  assumes c: "counterStep s s1" and "victimOf vic s1 avoidKey s'"
  shows "victimOf vic s avoidKey s'"
  using assms(2)
proof (rule victimOfE)
  fix s0 i v e
  assume *: "counterStep s1 s0" "i < NumShards" "mapGet (shm (shards s1 i)) v = Some e"
    "avoidKey \<noteq> [] \<longrightarrow> v \<noteq> avoidKey" "vic e" "s' = purgeEntryLocked s0 i v e"
  have "mapGet (shm (shards s i)) v = Some e"
    using *(3) by (simp add: counterStep_fields [OF c])
  with * show ?thesis using counterStep_trans [OF c] by (simp add: victimOfI)
qed

lemma keyCount_counter: "counterStep s s' \<Longrightarrow> keyCount s' = keyCount s"
  by (auto simp: keyCount_def dest: counterStep_fields)

lemma keyCount_purge:
  assumes "i < NumShards" and "mapGet (shm (shards s i)) v = Some e"
  shows "keyCount (purgeEntryLocked s i v e) < keyCount s"
proof -
  have "length (mapDel v (shm (shards s i))) < length (shm (shards s i))"
    using assms(2) unfolding AList.delete_eq
    by (intro length_filter_less [of "(v, e)"]) (auto dest: map_of_SomeD)
  then show ?thesis
    unfolding keyCount_def shards_purge using assms(1) by (intro sum_strict_mono_ex1) auto
qed

locale evictor =
  fixes vic :: "store \<Rightarrow> entry \<Rightarrow> bool" and ev :: "store \<Rightarrow> bytes \<Rightarrow> store \<times> bool"
  assumes evicted: "ev s avoidKey = (s', True) \<Longrightarrow> victimOf (vic s) s avoidKey s'"
    and gave_up: "ev s avoidKey = (s', False) \<Longrightarrow> counterStep s s'"
begin

lemma fewer_keys: "ev s avoidKey = (s', True) \<Longrightarrow> keyCount s' < keyCount s"
proof -
  assume "ev s avoidKey = (s', True)"
  from evicted [OF this] obtain s0 i v e where "counterStep s s0" "i < NumShards"
      "mapGet (shm (shards s i)) v = Some e" "s' = purgeEntryLocked s0 i v e"
    unfolding victimOf_def by blast
  then show ?thesis
    using keyCount_purge [of i s0 v e] by (simp add: counterStep_fields keyCount_counter)
qed

lemma evict_prims:
  assumes "storeInv s" and allowed: "\<And>s e. storeInv s \<Longrightarrow> vic s e \<Longrightarrow> evictable s e"
  shows "prims evictLabels s (fst (ev s avoidKey))"
proof (cases "ev s avoidKey")
  case (Pair s' b)
  show ?thesis
  proof (cases b)
    case True
    with Pair have "victimOf (vic s) s avoidKey s'" by (simp add: evicted)
    then obtain s0 i v e where c: "counterStep s s0" and e: "mapGet (shm (shards s i)) v = Some e"
      and i: "i < NumShards" and v: "vic s e" and s': "s' = purgeEntryLocked s0 i v e"
      by (rule victimOfE)
    have "mapGet (shm (shards s0 i)) v = Some e" using e by (simp add: counterStep_fields [OF c])
    moreover have "evictable s0 e"
    proof -
      have "policy s0 = policy s" using counterStep_fields [OF c] by (simp add: policy_def)
      with allowed [OF assms(1) v] show ?thesis by (simp add: evictable_def)
    qed
    ultimately have "prim evictLabels s0 s'"
      unfolding s' using i by (intro prim_evict) (simp_all add: evictLabels_def)
    with Pair show ?thesis
      by (simp add: rtranclp.rtrancl_into_rtrancl [OF counterStep_prims [OF c]])
  next
    case False
    with Pair gave_up show ?thesis by (auto intro: counterStep_prims)
  qed
qed

lemma one_key_gone:
  assumes "storeInv s" and "ev s avoidKey = (s', True)"
  shows "\<exists>v e. getEntry s v = Some e \<and> vic s e \<and> (avoidKey \<noteq> [] \<longrightarrow> v \<noteq> avoidKey) \<and>
           db s' = (db s)(v := None)"
proof -
  obtain s0 i v e where *: "counterStep s s0" "mapGet (shm (shards s i)) v = Some e"
      "avoidKey \<noteq> [] \<longrightarrow> v \<noteq> avoidKey" "vic s e" "s' = purgeEntryLocked s0 i v e"
    using evicted [OF assms(2)] unfolding victimOf_def by blast
  have i: "i = shardIndex v" using storeInv_routed [OF assms(1) *(2)] by simp
  have "getEntry s v = Some e" using *(2) by (simp add: i getEntry_fold)
  moreover have "db s' = (db s)(v := None)"
    using *(1,5) by (simp add: i db_purge counterStep_fields)
  ultimately show ?thesis using *(3,4) by blast
qed

lemma nothing_gone: "ev s avoidKey = (s', False) \<Longrightarrow> db s' = db s"
  using gave_up [of s avoidKey s'] by (simp add: counterStep_fields)

end

text \<open>The loops: a round that finds no victim continues from a state that differs in its
  counters only.\<close>

lemma evictAllKeysLRU_contract:
  "evictAllKeysLRUFrom n s avoidKey = (s', b) \<Longrightarrow>
   if b then victimOf (\<lambda>_. True) s avoidKey s' else counterStep s s'"
proof (induction n arbitrary: s)
  case (Suc n)
  obtain si s1 where n: "nextShard s = (si, s1)" by (cases "nextShard s")
  have c: "counterStep s s1" by (rule counterStep_nextShard [OF n])
  have si: "si < NumShards" using n by (auto simp: nextShard_def NumShards_def)
  note sh = counterStep_fields [OF c]
  show ?case
  proof (cases "evictAllKeysLRUFrom n s1 avoidKey = (s', b)")
    case True
    from Suc.IH [OF True] show ?thesis
      using victimOf_counter [OF c] counterStep_trans [OF c] by (cases b) auto
  next
    case False
    with Suc.prems n obtain e where "avoidKey \<noteq> [] \<longrightarrow> last (allList (shards s1 si)) \<noteq> avoidKey"
        "mapGet (shm (shards s1 si)) (last (allList (shards s1 si))) = Some e"
        "s' = purgeEntryLocked s1 si (last (allList (shards s1 si))) e" "b"
      by (auto simp: Let_def split: if_splits option.splits)
    then show ?thesis using c si sh by (auto intro!: victimOfI)
  qed
qed simp

lemma evictVolatileLRU_contract:
  "evictVolatileLRUFrom n s avoidKey = (s', b) \<Longrightarrow>
   if b then victimOf hasTTL s avoidKey s' else counterStep s s'"
proof (induction n arbitrary: s)
  case (Suc n)
  obtain si s1 where n: "nextShard s = (si, s1)" by (cases "nextShard s")
  have c: "counterStep s s1" by (rule counterStep_nextShard [OF n])
  have si: "si < NumShards" using n by (auto simp: nextShard_def NumShards_def)
  note sh = counterStep_fields [OF c]
  show ?case
  proof (cases "evictVolatileLRUFrom n s1 avoidKey = (s', b)")
    case True
    from Suc.IH [OF True] show ?thesis
      using victimOf_counter [OF c] counterStep_trans [OF c] by (cases b) auto
  next
    case False
    with Suc.prems n obtain e where "avoidKey \<noteq> [] \<longrightarrow> last (volList (shards s1 si)) \<noteq> avoidKey"
        "mapGet (shm (shards s1 si)) (last (volList (shards s1 si))) = Some e" "hasTTL e"
        "s' = purgeEntryLocked s1 si (last (volList (shards s1 si))) e" "b"
      by (auto simp: Let_def split: if_splits option.splits)
    then show ?thesis using c si sh by (auto intro!: victimOfI)
  qed
qed simp

lemma evictRandom_contract:
  "evictRandomFrom n pred s avoidKey = (s', b) \<Longrightarrow>
   if b then victimOf (\<lambda>e. storeInv s \<longrightarrow> pred e) s avoidKey s' else counterStep s s'"
proof (induction n arbitrary: s)
  case (Suc n)
  obtain si s1 where n: "randIntN s NumShards = (si, s1)" by (cases "randIntN s NumShards")
  let ?cand = "map fst (filter (\<lambda>(k, e). pred e) (shm (shards s1 si)))"
  obtain j s2 where j: "randIntN s1 (length ?cand) = (j, s2)" by (cases "randIntN s1 (length ?cand)")
  have c1: "counterStep s s1" by (rule counterStep_randIntN [OF n])
  have c2: "counterStep s s2" by (rule counterStep_trans [OF c1 counterStep_randIntN [OF j]])
  have si: "si < NumShards" using n by (auto simp: randIntN_def NumShards_def)
  note f1 = counterStep_fields [OF c1] and f2 = counterStep_fields [OF c2]
  show ?case
  proof (cases "evictRandomFrom n pred s1 avoidKey = (s', b) \<or> evictRandomFrom n pred s2 avoidKey = (s', b)")
    case True
    then show ?thesis
      using Suc.IH [of s1] Suc.IH [of s2] f1 f2
        victimOf_counter [OF c1] counterStep_trans [OF c1] victimOf_counter [OF c2] counterStep_trans [OF c2]
      by (cases b) auto
  next
    case False
    with Suc.prems n j obtain e where e: "?cand \<noteq> []" "avoidKey \<noteq> [] \<longrightarrow> ?cand ! j \<noteq> avoidKey"
        "mapGet (shm (shards s1 si)) (?cand ! j) = Some e" "s' = purgeEntryLocked s2 si (?cand ! j) e" "b"
      by (auto simp: Let_def split: if_splits option.splits)
    have "j < length ?cand" using j e(1) by (auto simp: randIntN_def)
    then have "?cand ! j \<in> set ?cand" by (rule nth_mem)
    then obtain e' where e': "(?cand ! j, e') \<in> set (shm (shards s1 si))" "pred e'" by auto
    have "pred e" if "storeInv s"
    proof -
      have "mapOk (shm (shards s1 si))"
        using shardOk_mapOk [OF storeInv_shard [OF that], of si] f1 by simp
      from map_of_is_SomeI [OF this e'(1)] e(3) e'(2) show ?thesis
        by (simp del: map_of_eq_Some_iff)
    qed
    then show ?thesis using e c2 si f1 by (simp add: victimOfI)
  qed
qed simp

text \<open>The scan for the soonest expiry returns an entry of the shard it names.\<close>

definition ttlCand :: "store \<Rightarrow> bytes \<Rightarrow> bytes \<times> nat \<times> time \<Rightarrow> bool" where
  "ttlCand s avoidKey = (\<lambda>(k, i, t). i < NumShards \<and> (avoidKey \<noteq> [] \<longrightarrow> k \<noteq> avoidKey) \<and>
     (\<exists>e. (k, e) \<in> set (shm (shards s i)) \<and> hasTTL e \<and> expiresAt e = t))"

definition notLater :: "time \<Rightarrow> (bytes \<times> nat \<times> time) option \<Rightarrow> bool" where
  "notLater t best \<longleftrightarrow> (\<exists>k i t'. best = Some (k, i, t') \<and> t' \<le> t)"

lemma ttlBetter_notLater:
  "notLater t best \<Longrightarrow> notLater t (ttlBetter avoidKey si p best)"
  by (auto simp: ttlBetter_def notLater_def split: prod.split)

lemma ttlBetter_self:
  "hasTTL e \<Longrightarrow> (avoidKey \<noteq> [] \<longrightarrow> k \<noteq> avoidKey) \<Longrightarrow>
   notLater (expiresAt e) (ttlBetter avoidKey si (k, e) best)"
  by (auto simp: ttlBetter_def notLater_def split: option.split)

lemma ttlFold_notLater:
  "notLater t best \<Longrightarrow> notLater t (fold (ttlBetter avoidKey si) ps best)"
  by (induction ps arbitrary: best) (auto simp: ttlBetter_notLater)

lemma ttlFold_covers:
  "(k, e) \<in> set ps \<Longrightarrow> hasTTL e \<Longrightarrow> (avoidKey \<noteq> [] \<longrightarrow> k \<noteq> avoidKey) \<Longrightarrow>
   notLater (expiresAt e) (fold (ttlBetter avoidKey si) ps best)"
  by (induction ps arbitrary: best) (auto simp: ttlFold_notLater [OF ttlBetter_self])

definition candOk :: "store \<Rightarrow> bytes \<Rightarrow> (bytes \<times> nat \<times> time) option \<Rightarrow> bool" where
  "candOk s avoidKey best \<longleftrightarrow> (\<forall>c. best = Some c \<longrightarrow> ttlCand s avoidKey c)"

lemma ttlBetter_cand:
  "si < NumShards \<Longrightarrow> p \<in> set (shm (shards s si)) \<Longrightarrow> candOk s avoidKey best \<Longrightarrow>
   candOk s avoidKey (ttlBetter avoidKey si p best)"
  by (cases p) (auto simp: ttlBetter_def candOk_def ttlCand_def split: option.split)

lemma ttlFold_cand:
  "si < NumShards \<Longrightarrow> set ps \<subseteq> set (shm (shards s si)) \<Longrightarrow> candOk s avoidKey best \<Longrightarrow>
   candOk s avoidKey (fold (ttlBetter avoidKey si) ps best)"
  by (induction ps arbitrary: best) (simp_all add: ttlBetter_cand)

lemma soonestTTL_cand: "candOk s avoidKey (soonestTTL s avoidKey)"
proof -
  have "set ns \<subseteq> {..<NumShards} \<Longrightarrow> candOk s avoidKey best \<Longrightarrow>
      candOk s avoidKey (fold (\<lambda>si best. fold (ttlBetter avoidKey si) (shm (shards s si)) best) ns best)" for ns best
    by (induction ns arbitrary: best) (simp_all add: ttlFold_cand)
  from this [of "[0..<NumShards]" None] show ?thesis
    by (simp add: soonestTTL_def atLeast0LessThan candOk_def)
qed

lemma soonestTTL_covers:
  assumes "(k, e) \<in> set (shm (shards s i))" "i < NumShards" "hasTTL e" "avoidKey \<noteq> [] \<longrightarrow> k \<noteq> avoidKey"
  shows "notLater (expiresAt e) (soonestTTL s avoidKey)"
proof -
  have keep: "notLater t best \<Longrightarrow>
      notLater t (fold (\<lambda>si best. fold (ttlBetter avoidKey si) (shm (shards s si)) best) ns best)" for t ns best
    by (induction ns arbitrary: best) (auto simp: ttlFold_notLater)
  have "i \<in> set ns \<Longrightarrow>
      notLater (expiresAt e) (fold (\<lambda>si best. fold (ttlBetter avoidKey si) (shm (shards s si)) best) ns best)" for ns best
    by (induction ns arbitrary: best) (auto intro: keep ttlFold_covers [OF assms(1,3,4)])
  then show ?thesis using assms(2) by (simp add: soonestTTL_def)
qed

lemma evictVolatileTTL_contract:
  "evictVolatileTTL s avoidKey = (s', b) \<Longrightarrow>
   if b then victimOf hasTTL s avoidKey s' else counterStep s s'"
  using soonestTTL_cand [of s avoidKey]
  by (auto simp: evictVolatileTTL_def candOk_def ttlCand_def split: option.splits if_splits intro!: victimOfI)

interpretation lru_all: evictor "\<lambda>_ _. True" evictAllKeysLRU
  by unfold_locales (auto simp: evictAllKeysLRU_def dest: evictAllKeysLRU_contract)

interpretation lru_vol: evictor "\<lambda>_. hasTTL" evictVolatileLRU
  by unfold_locales (auto simp: evictVolatileLRU_def dest: evictVolatileLRU_contract)

interpretation rnd: evictor "\<lambda>s e. storeInv s \<longrightarrow> pred e" "evictRandom pred" for pred
  by unfold_locales (auto simp: evictRandom_def dest: evictRandom_contract)

interpretation ttl_vol: evictor "\<lambda>_. hasTTL" evictVolatileTTL
  by unfold_locales (auto dest: evictVolatileTTL_contract)

definition mayEvict :: "store \<Rightarrow> entry \<Rightarrow> bool" where
  "mayEvict s e \<longleftrightarrow> (storeInv s \<longrightarrow> evictable s e)"

lemma victimOf_mono: "victimOf v s avoidKey s' \<Longrightarrow> (\<And>e. v e \<Longrightarrow> v' e) \<Longrightarrow> victimOf v' s avoidKey s'"
  unfolding victimOf_def by blast

lemma evictFromStore_victim:
  assumes "evictFromStore s avoidKey = (s', True)"
  shows "victimOf (mayEvict s) s avoidKey s'"
proof -
  have "policy s = ''allkeys-lru'' \<and> victimOf (\<lambda>_. True) s avoidKey s' \<or>
        policy s = ''volatile-lru'' \<and> victimOf hasTTL s avoidKey s' \<or>
        policy s = ''allkeys-random'' \<and> victimOf (\<lambda>e. storeInv s \<longrightarrow> True) s avoidKey s' \<or>
        policy s = ''volatile-random'' \<and> victimOf (\<lambda>e. storeInv s \<longrightarrow> hasTTL e) s avoidKey s' \<or>
        policy s = ''volatile-ttl'' \<and> victimOf hasTTL s avoidKey s'"
    using assms lru_all.evicted [of s avoidKey s'] lru_vol.evicted [of s avoidKey s']
      rnd.evicted [of "\<lambda>_. True" s avoidKey s'] rnd.evicted [of hasTTL s avoidKey s']
      ttl_vol.evicted [of s avoidKey s']
    by (simp add: evictFromStore_def Let_def split: if_splits)
  then show ?thesis
    by (elim disjE conjE) (erule victimOf_mono; simp add: mayEvict_def evictable_def volatilePolicy_def)+
qed

interpretation evict: evictor mayEvict evictFromStore
proof unfold_locales
  show "evictFromStore s avoidKey = (s', True) \<Longrightarrow> victimOf (mayEvict s) s avoidKey s'" for s avoidKey s'
    by (rule evictFromStore_victim)
  show "evictFromStore s avoidKey = (s', False) \<Longrightarrow> counterStep s s'" for s avoidKey s'
    using lru_all.gave_up [of s avoidKey s'] lru_vol.gave_up [of s avoidKey s']
      rnd.gave_up [of _ s avoidKey s'] ttl_vol.gave_up [of s avoidKey s']
    by (auto simp: evictFromStore_def Let_def split: if_splits)
qed


section \<open>The memory guard\<close>

text \<open>\<open>fits s delta\<close>: \<^verbatim>\<open>s.mem.Load()+delta <= int64(s.maxMemBytes())\<close>; the conversion of the unsigned
  limit wraps.\<close>

definition fits :: "store \<Rightarrow> int \<Rightarrow> bool" where
  "fits s delta \<longleftrightarrow> mem s + delta \<le> sint (maxMemBytes s)"

function ensureLoop :: "store \<Rightarrow> bytes \<Rightarrow> int \<Rightarrow> bool \<Rightarrow> store \<times> bool \<times> store_error option" where
  "ensureLoop s key delta evicted =
     (if fits s delta then (s, evicted, None)
      else case evictFromStore s key of
             (s', ok) \<Rightarrow> if ok then ensureLoop s' key delta True else (s', True, Some ErrOOM))"
  by pat_completeness auto
termination
  by (relation "measure (\<lambda>(s, _). keyCount s)") (auto simp: evict.fewer_keys)

declare ensureLoop.simps [simp del]

definition ensureMemoryWithRetry :: "store \<Rightarrow> bytes \<Rightarrow> int \<Rightarrow> store \<times> bool \<times> store_error option" where
  "ensureMemoryWithRetry s key delta =
     (if maxMemBytes s = 0 \<or> delta \<le> 0 then (s, False, None) else ensureLoop s key delta False)"

function evictLoop :: "store \<Rightarrow> int \<Rightarrow> store \<times> store_error option" where
  "evictLoop s delta =
     (if fits s delta then (s, None)
      else case evictFromStore s [] of
             (s', ok) \<Rightarrow> if ok then evictLoop s' delta else (s', Some ErrOOM))"
  by pat_completeness auto
termination
  by (relation "measure (\<lambda>(s, _). keyCount s)") (auto simp: evict.fewer_keys)

declare evictLoop.simps [simp del]

definition evictUntilFits :: "store \<Rightarrow> int \<Rightarrow> store \<times> store_error option" where
  "evictUntilFits s delta = (if maxMemBytes s = 0 then (s, None) else evictLoop s delta)"

text \<open>How most writing methods end: the guard runs, the old entry is read again when something
  was evicted, and the new entry replaces it.\<close>

definition commitEntry :: "store \<Rightarrow> bytes \<Rightarrow> entry option \<Rightarrow> entry \<Rightarrow> int \<Rightarrow> store \<times> store_error option" where
  "commitEntry s key old ne delta =
     (case ensureMemoryWithRetry s key delta of
        (s, evicted, Some err) \<Rightarrow> (s, Some err)
      | (s, evicted, None) \<Rightarrow> (replaceEntry s key (if evicted then getEntry s key else old) ne, None))"


section \<open>What eviction does and leaves alone\<close>

text \<open>\<open>evictedFrom key s s'\<close>: \<open>s'\<close> is \<open>s\<close> after evictions that spare \<open>key\<close>.\<close>

definition evictedFrom :: "bytes \<Rightarrow> store \<Rightarrow> store \<Rightarrow> bool" where
  "evictedFrom key s s' \<longleftrightarrow>
     storeInv s' \<and> prims evictLabels s s' \<and>
     (key \<noteq> [] \<longrightarrow> getEntry s' key = getEntry s key) \<and>
     (\<forall>k. db s' k = db s k \<or>
          (db s' k = None \<and> (\<exists>e. getEntry s k = Some e \<and> mayEvict s e)))"

lemma evictedFrom_refl [simp]: "storeInv s \<Longrightarrow> evictedFrom key s s"
  by (simp add: evictedFrom_def)

lemma mayEvict_cong:
  "storeInv s \<Longrightarrow> storeInv s' \<Longrightarrow> policyCache s' = policyCache s \<Longrightarrow> content e' = content e \<Longrightarrow>
   mayEvict s' e' = mayEvict s e"
  by (simp add: mayEvict_def evictable_def policy_def content_eqD(5) [of e' e])

lemma evictedFrom_trans:
  assumes "storeInv s" "evictedFrom key s s1" "evictedFrom key s1 s2"
  shows "evictedFrom key s s2"
proof -
  have inv: "storeInv s1" and cfg: "policyCache s1 = policyCache s"
    using assms(2) prims_config by (auto simp: evictedFrom_def)
  have step2: "db s2 k = db s1 k \<or> (db s2 k = None \<and> (\<exists>e. getEntry s1 k = Some e \<and> mayEvict s1 e))" for k
    using assms(3) by (simp add: evictedFrom_def)
  have "db s2 k = db s k \<or> (db s2 k = None \<and> (\<exists>e. getEntry s k = Some e \<and> mayEvict s e))" for k
  proof (cases "db s1 k = db s k")
    case True
    then have "map_option content (getEntry s1 k) = map_option content (getEntry s k)"
      by (simp add: db_def)
    then have "(\<exists>e. getEntry s1 k = Some e \<and> mayEvict s1 e) \<Longrightarrow> (\<exists>e. getEntry s k = Some e \<and> mayEvict s e)"
      using mayEvict_cong [OF assms(1) inv cfg] by (cases "getEntry s k"; cases "getEntry s1 k") (simp_all, metis)
    with True step2 [of k] show ?thesis by auto
  next
    case False
    with assms(2) have "db s1 k = None" "\<exists>e. getEntry s k = Some e \<and> mayEvict s e"
      by (auto simp: evictedFrom_def)
    moreover from this(1) have "getEntry s1 k = None" by (simp add: db_def)
    ultimately show ?thesis using step2 [of k] by auto
  qed
  moreover have "prims evictLabels s s2"
    using assms(2,3) by (auto simp: evictedFrom_def intro: rtranclp_trans)
  ultimately show ?thesis using assms(2,3) by (auto simp: evictedFrom_def)
qed

lemma getEntry_purge_other: "k \<noteq> v \<Longrightarrow> getEntry (purgeEntryLocked s i v e) k = getEntry s k"
  by (simp add: getEntry_def shardFor_def shards_purge)

lemma evict_evictedFrom:
  assumes inv: "storeInv s" and ev: "evictFromStore s key = (s', b)"
  shows "evictedFrom key s s'"
proof -
  have steps: "prims evictLabels s s'" using evict.evict_prims [OF inv, of key] ev by (simp add: mayEvict_def)
  have inv': "storeInv s'" by (rule prims_inv [OF steps inv])
  show ?thesis
  proof (cases b)
    case True
    then obtain s0 i v e where *: "counterStep s s0" "mapGet (shm (shards s i)) v = Some e"
        "key \<noteq> [] \<longrightarrow> v \<noteq> key" "mayEvict s e" "s' = purgeEntryLocked s0 i v e"
      using victimOfE [OF evict.evicted [of s key s']] ev by metis
    have i: "i = shardIndex v" using storeInv_routed [OF inv *(2)] by simp
    have "getEntry s v = Some e" using *(2) by (simp add: i getEntry_fold)
    moreover have "getEntry s0 = getEntry s"
      using counterStep_fields [OF *(1)] by (simp add: getEntry_def shardFor_def fun_eq_iff)
    ultimately show ?thesis
      using steps inv' *(3-5) counterStep_fields [OF *(1)]
      by (auto simp: evictedFrom_def i db_purge getEntry_purge_other)
  next
    case False
    with ev have "counterStep s s'" by (auto dest: evict.gave_up)
    from counterStep_fields [OF this] show ?thesis
      using steps inv' by (simp add: evictedFrom_def getEntry_def shardFor_def)
  qed
qed

lemma ensureLoop_props:
  "ensureLoop s key delta evd = (s', evd', err) \<Longrightarrow> storeInv s \<Longrightarrow>
   evictedFrom key s s' \<and> (err = None \<longrightarrow> fits s' delta) \<and> (err = None \<or> err = Some ErrOOM) \<and>
   (\<not> evd' \<longrightarrow> s' = s \<and> err = None)"
proof (induction s key delta evd arbitrary: s' evd' err rule: ensureLoop.induct)
  case (1 s key delta evd)
  obtain s1 ok where e: "evictFromStore s key = (s1, ok)" by (cases "evictFromStore s key")
  have s1: "evictedFrom key s s1" by (rule evict_evictedFrom [OF "1.prems"(2) e])
  then have inv1: "storeInv s1" by (simp add: evictedFrom_def)
  show ?case
  proof (cases "fits s delta \<or> \<not> ok")
    case True
    with "1.prems" e s1 show ?thesis by (auto simp: ensureLoop.simps [of s] split: if_splits)
  next
    case False
    then have r: "ensureLoop s1 key delta True = (s', evd', err)"
      using "1.prems"(1) e by (simp add: ensureLoop.simps [of s])
    have "evd'" using r
    proof (induction s1 key delta "True" arbitrary: s' rule: ensureLoop.induct)
      case (1 s key delta)
      then show ?case by (auto simp: ensureLoop.simps [of s] split: if_splits prod.splits)
    qed
    with "1.IH" [OF _ e [symmetric]] False r inv1 show ?thesis
      using evictedFrom_trans [OF "1.prems"(2) s1] by auto
  qed
qed

lemma evictLoop_props:
  "evictLoop s delta = (s', err) \<Longrightarrow> storeInv s \<Longrightarrow>
   evictedFrom [] s s' \<and> (err = None \<longrightarrow> fits s' delta) \<and> (err = None \<or> err = Some ErrOOM)"
proof (induction s delta arbitrary: s' err rule: evictLoop.induct)
  case (1 s delta)
  obtain s1 ok where e: "evictFromStore s [] = (s1, ok)" by (cases "evictFromStore s []")
  have s1: "evictedFrom [] s s1" by (rule evict_evictedFrom [OF "1.prems"(2) e])
  then have inv1: "storeInv s1" by (simp add: evictedFrom_def)
  show ?case
  proof (cases "fits s delta \<or> \<not> ok")
    case True
    with "1.prems" e s1 show ?thesis by (auto simp: evictLoop.simps [of s] split: if_splits)
  next
    case False
    then have r: "evictLoop s1 delta = (s', err)"
      using "1.prems"(1) e by (simp add: evictLoop.simps [of s])
    with "1.IH" [OF _ e [symmetric]] False inv1 show ?thesis
      using evictedFrom_trans [OF "1.prems"(2) s1] by auto
  qed
qed

lemma ensure_props:
  assumes "ensureMemoryWithRetry s key delta = (s', evd, err)" and "storeInv s"
  shows "evictedFrom key s s'" "err = None \<or> err = Some ErrOOM" "\<not> evd \<Longrightarrow> s' = s \<and> err = None"
    "err = None \<Longrightarrow> maxMemBytes s \<noteq> 0 \<Longrightarrow> 0 < delta \<Longrightarrow> fits s' delta"
  using assms ensureLoop_props [of s key delta False s' evd err]
  by (auto simp: ensureMemoryWithRetry_def split: if_splits)

lemma ensure_fits:
  "maxMemBytes s = 0 \<or> delta \<le> 0 \<or> fits s delta \<Longrightarrow> ensureMemoryWithRetry s key delta = (s, False, None)"
  by (auto simp: ensureMemoryWithRetry_def ensureLoop.simps [of s])

lemma evictUntilFits_props:
  assumes "evictUntilFits s delta = (s', err)" and "storeInv s"
  shows "evictedFrom [] s s'" "err = None \<or> err = Some ErrOOM"
    "err = None \<Longrightarrow> maxMemBytes s \<noteq> 0 \<Longrightarrow> fits s' delta"
  using assms evictLoop_props [of s delta s' err]
  by (auto simp: evictUntilFits_def split: if_splits)

lemma evictedFrom_inv: "evictedFrom key s s' \<Longrightarrow> storeInv s'"
  by (simp add: evictedFrom_def)

lemma evictedFrom_steps: "evictedFrom key s s' \<Longrightarrow> evictLabels \<subseteq> L \<Longrightarrow> prims L s s'"
  by (auto simp: evictedFrom_def intro: prims_mono)

lemma evictedFrom_config: "evictedFrom key s s' \<Longrightarrow> policyCache s' = policyCache s \<and> maxMemCache s' = maxMemCache s"
  by (auto simp: evictedFrom_def dest: prims_config)

text \<open>What the clients of the store still see after evictions: at every instant a part of what
  they saw before.\<close>

lemma evictedFrom_view:
  assumes "evictedFrom key s s'"
  shows "view now s' k = view now s k \<or> view now s' k = None"
proof -
  have "db s' k = db s k \<or> db s' k = None" using assms by (auto simp: evictedFrom_def)
  then show ?thesis by (auto simp: view_def)
qed

lemma evictedFrom_absent:
  assumes "evictedFrom key s s'" and "getEntry s k = None"
  shows "getEntry s' k = None"
proof -
  have "db s' k = db s k \<or> db s' k = None" using assms(1) by (auto simp: evictedFrom_def)
  with assms(2) show ?thesis by (auto simp: db_def)
qed

lemma evictedFrom_key: "evictedFrom key s s' \<Longrightarrow> key \<noteq> [] \<Longrightarrow> getEntry s' key = getEntry s key"
  by (simp add: evictedFrom_def)

text \<open>The label set of a method that writes one key behind the guard.\<close>

definition writeLabels :: "bytes \<Rightarrow> label set" where
  "writeLabels key = {Write key, Purge key, Evict}"

text \<open>What such a method does before the write.\<close>

definition quietLabels :: "bytes \<Rightarrow> label set" where
  "quietLabels key = {Purge key, Evict}"

lemma label_sets [simp]:
  "Purge k \<notin> evictLabels" "Write k \<notin> evictLabels" "Shrink k \<notin> evictLabels" "Unlink k \<notin> evictLabels"
  "Purge k \<in> writeLabels key \<longleftrightarrow> k = key" "Write k \<in> writeLabels key \<longleftrightarrow> k = key" "Shrink k \<notin> writeLabels key"
  "Unlink k \<notin> writeLabels key" "evictLabels \<subseteq> writeLabels key" "{Purge k} \<subseteq> writeLabels key \<longleftrightarrow> k = key"
  "Stale k \<notin> evictLabels" "Stale k \<notin> writeLabels key" "Evict \<in> writeLabels key" "Evict \<in> evictLabels"
  "evictLabels \<subseteq> quietLabels key" "{Purge k} \<subseteq> quietLabels key \<longleftrightarrow> k = key" "quietLabels key \<subseteq> writeLabels key"
  "{Write key} \<subseteq> writeLabels key" "Write k \<notin> quietLabels key" "Shrink k \<notin> quietLabels key" "Unlink k \<notin> quietLabels key"
  "Stale k \<notin> quietLabels key" "Purge k \<in> quietLabels key \<longleftrightarrow> k = key" "Evict \<in> quietLabels key"
  by (auto simp: evictLabels_def writeLabels_def quietLabels_def)

lemma commit_cases:
  assumes inv: "storeInv s" and old: "old = getEntry s key" and v: "valueOk v"
  obtains (oom) s' where "commitEntry s key old (newEntry v t) delta = (s', Some ErrOOM)"
      "evictedFrom key s s'"
  | (stored) s1 where "commitEntry s key old (newEntry v t) delta =
        (replaceEntry s1 key (getEntry s1 key) (newEntry v t), None)"
      "evictedFrom key s s1" "maxMemBytes s \<noteq> 0 \<Longrightarrow> 0 < delta \<Longrightarrow> fits s1 delta"
      "maxMemBytes s = 0 \<or> delta \<le> 0 \<or> fits s delta \<Longrightarrow> s1 = s"
proof (cases "ensureMemoryWithRetry s key delta")
  case (fields s1 evd err)
  note e = ensure_props [OF fields inv]
  show thesis
  proof (cases err)
    case None
    have "commitEntry s key old (newEntry v t) delta =
        (replaceEntry s1 key (getEntry s1 key) (newEntry v t), None)"
      using e(3) by (auto simp: commitEntry_def fields None old)
    moreover have "maxMemBytes s = 0 \<or> delta \<le> 0 \<or> fits s delta \<Longrightarrow> s1 = s"
      using ensure_fits [of s delta key] fields by simp
    ultimately show thesis using e None by (intro stored [of s1]) auto
  next
    case (Some x)
    then have "err = Some ErrOOM" using e(2) by simp
    with fields e(1) show thesis by (intro oom [of s1]) (simp_all add: commitEntry_def)
  qed
qed

end
