(* ===== verification/Store_Strings.thy ===== *)
theory Store_Strings
  imports Store_Evict
begin

text \<open>
  The string methods of the store (\<^verbatim>\<open>src/internal/store/store.go\<close>, from \<open>Get\<close> to \<open>MSetNX\<close>), with the
  ordering of shard locks and keys.  A method returns the new store and its result; the map
  arguments of \<open>MSet\<close> and \<open>MSetNX\<close> are association lists in the order Go iterates over them.
\<close>

type_synonym 'a res = "store_error + 'a"

definition entrySize :: "bytes \<Rightarrow> entry option \<Rightarrow> int" where
  "entrySize key old = (case old of None \<Rightarrow> 0 | Some e \<Rightarrow> estimateMem key e)"

text \<open>The read path's LRU update: always under an LRU policy, every sixteenth time otherwise.\<close>

definition touchOnRead :: "store \<Rightarrow> bytes \<Rightarrow> entry \<Rightarrow> store" where
  "touchOnRead s key e =
     (let pol = policy s
      in if pol = ''allkeys-lru'' \<or> pol = ''volatile-lru'' then touchLRU s key e
         else let tick = readLRUTick s + 1; s = s\<lparr>readLRUTick := tick\<rparr>
              in if tick mod 16 = 0 then touchLRU s key e else s)"

definition Get :: "time \<Rightarrow> store \<Rightarrow> bytes \<Rightarrow> store \<times> bytes option res" where
  "Get now s key =
     (case liveEntry now s key of
        (s, None) \<Rightarrow> (s, Inr None)
      | (s, Some e) \<Rightarrow>
          (case evalue e of
             VString b \<Rightarrow> (touchOnRead s key e, Inr (appendNil b))
           | _ \<Rightarrow> (s, Inl ErrWrongType)))"

definition setLocked ::
  "time \<Rightarrow> store \<Rightarrow> bytes \<Rightarrow> bytes \<Rightarrow> time \<Rightarrow> bool \<Rightarrow> bool \<Rightarrow> store \<times> store_error option" where
  "setLocked now s key val exp nx xx =
     (case liveEntry now s key of (s, old) \<Rightarrow>
        if nx \<and> old \<noteq> None then (s, None)
        else if xx \<and> old = None then (s, None)
        else
          let ne = newEntry (VString val) exp;
              newBytes = estimateMem key ne;
              oldBytes = entrySize key old
          in case ensureMemoryWithRetry s key (newBytes - oldBytes) of
               (s, evicted, Some err) \<Rightarrow> (s, Some err)
             | (s, evicted, None) \<Rightarrow>
                 if evicted then
                   (case liveEntry now s key of (s, old) \<Rightarrow>
                      if nx \<and> old \<noteq> None then (s, None)
                      else if xx \<and> old = None then (s, None)
                      else (replaceEntry s key old ne, None))
                 else (replaceEntry s key old ne, None))"

definition Set :: "time \<Rightarrow> store \<Rightarrow> bytes \<Rightarrow> bytes \<Rightarrow> time \<Rightarrow> store \<times> store_error option" where
  "Set now s key val exp = setLocked now s key val exp False False"

definition SetNX :: "time \<Rightarrow> store \<Rightarrow> bytes \<Rightarrow> bytes \<Rightarrow> time \<Rightarrow> store \<times> bool res" where
  "SetNX now s key val exp =
     (case liveEntry now s key of
        (s, Some _) \<Rightarrow> (s, Inr False)
      | (s, None) \<Rightarrow>
          (let ne = newEntry (VString val) exp
           in case ensureMemoryWithRetry s key (estimateMem key ne) of
                (s, evicted, Some err) \<Rightarrow> (s, Inl err)
              | (s, evicted, None) \<Rightarrow>
                  if evicted then
                    (case liveEntry now s key of
                       (s, Some _) \<Rightarrow> (s, Inr False)
                     | (s, None) \<Rightarrow> (replaceEntry s key None ne, Inr True))
                  else (replaceEntry s key None ne, Inr True)))"

definition SetXX :: "time \<Rightarrow> store \<Rightarrow> bytes \<Rightarrow> bytes \<Rightarrow> time \<Rightarrow> store \<times> bool res" where
  "SetXX now s key val exp =
     (case liveEntry now s key of
        (s, None) \<Rightarrow> (s, Inr False)
      | (s, Some old) \<Rightarrow>
          (let ne = newEntry (VString val) exp
           in case ensureMemoryWithRetry s key (estimateMem key ne - estimateMem key old) of
                (s, evicted, Some err) \<Rightarrow> (s, Inl err)
              | (s, evicted, None) \<Rightarrow>
                  if evicted then
                    (case liveEntry now s key of
                       (s, None) \<Rightarrow> (s, Inr False)
                     | (s, Some old) \<Rightarrow> (replaceEntry s key (Some old) ne, Inr True))
                  else (replaceEntry s key (Some old) ne, Inr True)))"

definition GetSet :: "time \<Rightarrow> store \<Rightarrow> bytes \<Rightarrow> bytes \<Rightarrow> time \<Rightarrow> store \<times> (bytes option \<times> bool) res" where
  "GetSet now s key val exp =
     (case liveEntry now s key of (s, old) \<Rightarrow>
        (case (case old of
                 None \<Rightarrow> Inr None
               | Some e \<Rightarrow> (case evalue e of VString b \<Rightarrow> Inr (appendNil b) | _ \<Rightarrow> Inl ErrWrongType)) of
           Inl err \<Rightarrow> (s, Inl err)
         | Inr prev \<Rightarrow>
             (let ne = newEntry (VString val) exp
              in case commitEntry s key old ne (estimateMem key ne - entrySize key old) of
                   (s, Some err) \<Rightarrow> (s, Inl err)
                 | (s, None) \<Rightarrow> (s, Inr (prev, True)))))"

text \<open>The branch for a key that appears during eviction (another goroutine's write) is dead when
  the method runs alone, but it is part of the code.\<close>

definition Append :: "time \<Rightarrow> store \<Rightarrow> bytes \<Rightarrow> bytes \<Rightarrow> store \<times> int res" where
  "Append now s key tail =
     (case liveEntry now s key of
        (s, None) \<Rightarrow>
          (let ne = newEntry (VString tail) zeroTime
           in case ensureMemoryWithRetry s key (estimateMem key ne) of
                (s, evicted, Some err) \<Rightarrow> (s, Inl err)
              | (s, evicted, None) \<Rightarrow>
                  (case (if evicted then getEntry s key else None) of
                     Some cur \<Rightarrow>
                       if isExpired now cur then (replaceEntry s key None ne, Inr (int (length tail)))
                       else (case evalue cur of
                               VString oldVal \<Rightarrow>
                                 (replaceEntry s key (Some cur) (newEntry (VString (oldVal @ tail)) (expiresAt cur)),
                                  Inr (int (length (oldVal @ tail))))
                             | _ \<Rightarrow> (s, Inl ErrWrongType))
                   | None \<Rightarrow> (replaceEntry s key None ne, Inr (int (length tail)))))
      | (s, Some e) \<Rightarrow>
          (case evalue e of
             VString old \<Rightarrow>
               (let ne = newEntry (VString (old @ tail)) (expiresAt e)
                in case commitEntry s key (Some e) ne (estimateMem key ne - estimateMem key e) of
                     (s, Some err) \<Rightarrow> (s, Inl err)
                   | (s, None) \<Rightarrow> (s, Inr (int (length (old @ tail)))))
           | _ \<Rightarrow> (s, Inl ErrWrongType)))"

definition addInt64 :: "int \<Rightarrow> int \<Rightarrow> int \<times> bool" where
  "addInt64 a b =
     (if b > 0 \<and> a > wrap64 (maxInt64 - b) then (0, False)
      else if b < 0 \<and> a < wrap64 (minInt64 - b) then (0, False)
      else (wrap64 (a + b), True))"

text \<open>The integer a string holds: empty after trimming is 0.\<close>

definition intOf :: "bytes \<Rightarrow> int res" where
  "intOf b =
     (let t = trimSpace b
      in if t = [] then Inr 0
         else case parseInt t of Inl err \<Rightarrow> Inl (ErrNotInteger t err) | Inr v \<Rightarrow> Inr v)"

text \<open>After the purge of an expired entry the variable \<open>e\<close> still points to it, with both list
  elements cleared, and it is what \<open>replaceEntry\<close> gets as the old entry.\<close>

definition incrBy :: "time \<Rightarrow> store \<Rightarrow> bytes \<Rightarrow> int \<Rightarrow> store \<times> int res" where
  "incrBy now s key delta =
     (let (s, e, ok) =
        (case getEntry s key of
           None \<Rightarrow> (s, None, False)
         | Some e \<Rightarrow>
             if isExpired now e
             then (purgeEntryLocked s (shardIndex key) key e,
                   Some (snd (removeFromLRU key (shardFor s key, e))), False)
             else (s, Some e, True))
      in case (if ok then (case evalue (the e) of VString b \<Rightarrow> intOf b | _ \<Rightarrow> Inl ErrWrongType) else Inr 0) of
           Inl err \<Rightarrow> (s, Inl err)
         | Inr cur \<Rightarrow>
             (case addInt64 cur delta of (next, ok2) \<Rightarrow>
                if \<not> ok2 then (s, Inl ErrIncrOverflow)
                else let ne = newEntry (VString (formatInt next)) (if ok then expiresAt (the e) else zeroTime);
                         oldB = (if ok then estimateMem key (the e) else 0)
                     in case commitEntry s key e ne (estimateMem key ne - oldB) of
                          (s, Some err) \<Rightarrow> (s, Inl err)
                        | (s, None) \<Rightarrow> (s, Inr next)))"

definition IncrBy :: "time \<Rightarrow> store \<Rightarrow> bytes \<Rightarrow> int \<Rightarrow> store \<times> int res" where
  "IncrBy now s key delta = incrBy now s key delta"

definition DecrBy :: "time \<Rightarrow> store \<Rightarrow> bytes \<Rightarrow> int \<Rightarrow> store \<times> int res" where
  "DecrBy now s key delta = incrBy now s key (wrap64 (- delta))"

fun MGet :: "time \<Rightarrow> store \<Rightarrow> bytes list \<Rightarrow> store \<times> bytes option list res" where
  "MGet now s [] = (s, Inr [])"
| "MGet now s (k # ks) =
     (case Get now s k of
        (s, Inl err) \<Rightarrow> (s, Inl err)
      | (s, Inr v) \<Rightarrow>
          (case MGet now s ks of
             (s, Inl err) \<Rightarrow> (s, Inl err)
           | (s, Inr vs) \<Rightarrow> (s, Inr ((case v of None \<Rightarrow> None | Some b \<Rightarrow> appendNil b) # vs))))"

definition sortedKeys :: "(bytes, bytes) gomap \<Rightarrow> bytes list" where
  "sortedKeys pairs = exchangeSort (map fst pairs)"

fun msetLoop :: "time \<Rightarrow> store \<Rightarrow> (bytes, bytes) gomap \<Rightarrow> bytes list \<Rightarrow> store \<times> store_error option" where
  "msetLoop now s pairs [] = (s, None)"
| "msetLoop now s pairs (k # ks) =
     (case Set now s k (the (mapGet pairs k)) zeroTime of
        (s, Some err) \<Rightarrow> (s, Some err)
      | (s, None) \<Rightarrow> msetLoop now s pairs ks)"

definition MSet :: "time \<Rightarrow> store \<Rightarrow> (bytes, bytes) gomap \<Rightarrow> store \<times> store_error option" where
  "MSet now s pairs = msetLoop now s pairs (sortedKeys pairs)"

text \<open>The indices of the shard locks to take: each once, in the order of first use, then sorted.\<close>

fun collectShards :: "nat list \<Rightarrow> nat list \<Rightarrow> bytes list \<Rightarrow> nat list" where
  "collectShards seen idx [] = idx"
| "collectShards seen idx (k # ks) =
     (let si = shardIndex k
      in if si \<in> set seen then collectShards seen idx ks
         else collectShards (si # seen) (idx @ [si]) ks)"

definition sortShardIndices :: "nat list \<Rightarrow> nat list" where
  "sortShardIndices idx = exchangeSort idx"

definition acquireShardsInOrderKeys :: "bytes list \<Rightarrow> nat list" where
  "acquireShardsInOrderKeys ks = sortShardIndices (collectShards [] [] ks)"

definition acquireShardsInOrderKeysMapKeys :: "(bytes, bytes) gomap \<Rightarrow> nat list" where
  "acquireShardsInOrderKeysMapKeys pairs = sortShardIndices (collectShards [] [] (map fst pairs))"

definition acquireShardsInOrder :: "(bytes, bytes) gomap \<Rightarrow> nat list" where
  "acquireShardsInOrder pairs = acquireShardsInOrderKeysMapKeys pairs"

definition anyLive :: "time \<Rightarrow> store \<Rightarrow> (bytes, bytes) gomap \<Rightarrow> bool" where
  "anyLive now s pairs \<longleftrightarrow>
     list_ex (\<lambda>(k, _). case getEntry s k of None \<Rightarrow> False | Some e \<Rightarrow> \<not> isExpired now e) pairs"

fun msetnxSize :: "time \<Rightarrow> store \<Rightarrow> (bytes, bytes) gomap \<Rightarrow> store \<times> int" where
  "msetnxSize now s [] = (s, 0)"
| "msetnxSize now s ((k, v) # ps) =
     (case liveEntry now s k of (s, _) \<Rightarrow>
        (case msetnxSize now s ps of
           (s, delta) \<Rightarrow> (s, estimateMem k (newEntry (VString v) zeroTime) + delta)))"

fun msetnxWrite :: "time \<Rightarrow> store \<Rightarrow> (bytes, bytes) gomap \<Rightarrow> store" where
  "msetnxWrite now s [] = s"
| "msetnxWrite now s ((k, v) # ps) =
     (case liveEntry now s k of (s, old) \<Rightarrow>
        msetnxWrite now (replaceEntry s k old (newEntry (VString v) zeroTime)) ps)"

definition MSetNX :: "time \<Rightarrow> store \<Rightarrow> (bytes, bytes) gomap \<Rightarrow> store \<times> bool res" where
  "MSetNX now s pairs =
     (if pairs = [] then (s, Inr True)
      else if anyLive now s pairs then (s, Inr False)
      else case msetnxSize now s pairs of (s, delta) \<Rightarrow>
        (case evictUntilFits s delta of
           (s, Some err) \<Rightarrow> (s, Inl err)
         | (s, None) \<Rightarrow>
             if anyLive now s pairs then (s, Inr False)
             else (msetnxWrite now s pairs, Inr True)))"


section \<open>Steps\<close>

lemma touchOnRead_steps: "getEntry s key = Some e \<Longrightarrow> prims L s (touchOnRead s key e)"
proof -
  assume e: "getEntry s key = Some e"
  let ?s = "s\<lparr>readLRUTick := readLRUTick s + 1\<rparr>"
  have tick: "prim L s ?s"
    using prim_count [where L = L and s = s and a = "readLRUTick s + 1" and b = "evictCursor s" and c = "rand s"] by simp
  have "getEntry ?s key = Some e" using e by (simp add: getEntry_def shardFor_def)
  from prim_touch [OF this, of L] tick prim_touch [OF e, of L] show ?thesis
    by (auto simp: touchOnRead_def Let_def intro: rtranclp.rtrancl_into_rtrancl)
qed

lemma touchOnRead_db: "getEntry s key = Some e \<Longrightarrow> db (touchOnRead s key e) = db s"
  using db_touch [of s key e] db_touch [of "s\<lparr>readLRUTick := readLRUTick s + 1\<rparr>" key e]
  by (auto simp: touchOnRead_def Let_def db_def getEntry_def shardFor_def fun_eq_iff)

lemma Get_steps: "storeInv s \<Longrightarrow> prims {Purge key} s (fst (Get now s key))"
proof (erule liveEntry_cases [of s now key])
  fix e assume "liveEntry now s key = (s, Some e)" "getEntry s key = Some e"
  then show ?thesis by (auto simp: Get_def touchOnRead_steps split: dvalue.split)
qed (simp add: Get_def)

text \<open>What \<open>Get\<close> returns is a function of what is visible.\<close>

lemma Get_result:
  assumes "storeInv s"
  shows "snd (Get now s key) =
    (case view now s key of
       None \<Rightarrow> Inr None
     | Some (VString b, _) \<Rightarrow> Inr (appendNil b)
     | Some _ \<Rightarrow> Inl ErrWrongType)"
    and "view now (fst (Get now s key)) = view now s"
proof -
  show "snd (Get now s key) = (case view now s key of None \<Rightarrow> Inr None
     | Some (VString b, _) \<Rightarrow> Inr (appendNil b) | Some _ \<Rightarrow> Inl ErrWrongType)"
    using assms by (rule liveEntry_cases [of s now key]) (auto simp: Get_def content_def split: dvalue.split)
  show "view now (fst (Get now s key)) = view now s"
    using assms
  proof (rule liveEntry_cases [of s now key])
    fix e assume "liveEntry now s key = (s, Some e)" "getEntry s key = Some e"
    then show ?thesis
      using view_cong [OF touchOnRead_db] by (auto simp: Get_def split: dvalue.split)
  qed (simp add: Get_def)
qed

text \<open>The outcome of a guarded write of \<open>c\<close> to one key: first entries go, the expired one of the key and
  what is evicted, and then either the memory is exhausted or the key holds \<open>c\<close>; without a memory
  limit no other key changes.\<close>

definition wroteOrOOM :: "bytes \<Rightarrow> dvalue \<times> time \<Rightarrow> store \<Rightarrow> store \<Rightarrow> store_error option \<Rightarrow> bool" where
  "wroteOrOOM key c s s' err \<longleftrightarrow>
     (\<exists>s1. prims (quietLabels key) s s1 \<and>
        (err = None \<and> prim {Write key} s1 s' \<and> db s' key = Some c \<or>
         err = Some ErrOOM \<and> s' = s1 \<and> maxMemBytes s \<noteq> 0)) \<and>
     (maxMemBytes s = 0 \<longrightarrow> (\<forall>k. k \<noteq> key \<longrightarrow> db s' k = db s k))"

lemma content_newEntry [simp]: "content (newEntry v t) = (v, t)"
  by (simp add: content_def newEntry_def)

lemma wroteOrOOM_write:
  assumes "prims (quietLabels key) s s1" "valueOk v"
    and "maxMemBytes s = 0 \<Longrightarrow> \<forall>k. k \<noteq> key \<longrightarrow> db s1 k = db s k"
  shows "wroteOrOOM key (v, t) s (replaceEntry s1 key (getEntry s1 key) (newEntry v t)) None"
proof -
  have "prim {Write key} s1 (replaceEntry s1 key (getEntry s1 key) (newEntry v t))"
    by (rule prim_write [OF assms(2)]) simp
  with assms show ?thesis by (auto simp: wroteOrOOM_def)
qed

lemma wroteOrOOM_refused: "prims (quietLabels key) s s' \<Longrightarrow> maxMemBytes s \<noteq> 0 \<Longrightarrow> wroteOrOOM key c s s' (Some ErrOOM)"
  by (auto simp: wroteOrOOM_def)

lemma wroteOrOOM_once: "wroteOrOOM key c s s' err \<Longrightarrow> once (quietLabels key) {Write key} s s'"
  by (auto simp: wroteOrOOM_def intro: once_write once_quiet)

lemma wroteOrOOM_more: "wroteOrOOM key c s s' err \<Longrightarrow> prims (writeLabels key) s s'"
  by (rule once_prims [OF wroteOrOOM_once]) simp_all

lemma purge_then_evict: "prims {Purge key} s s1 \<Longrightarrow> evictedFrom key s1 s2 \<Longrightarrow> prims (quietLabels key) s s2"
  using rtranclp_trans [OF prims_mono [of "{Purge key}" s s1] evictedFrom_steps [of key s1 s2 "quietLabels key"]] by simp

lemma commit_wrote:
  assumes "storeInv s" and "liveEntry now s key = (s1, old)" and "valueOk v"
    and c: "commitEntry s1 key old (newEntry v t) delta = (s', err)"
  shows "wroteOrOOM key (v, t) s s' err"
proof -
  note l = liveEntry_facts [OF assms(2,1)]
  show ?thesis
    using l(1,2) assms(3)
  proof (rule commit_cases [where t = t and delta = delta])
    fix s2
    assume "commitEntry s1 key old (newEntry v t) delta = (s2, Some ErrOOM)" "evictedFrom key s1 s2"
    then have "s' = s2" "err = Some ErrOOM" using c by simp_all
    moreover have "maxMemBytes s \<noteq> 0"
    proof
      assume "maxMemBytes s = 0"
      then have "ensureMemoryWithRetry s1 key delta = (s1, False, None)"
        using l(8) by (intro ensure_fits) (simp add: maxMemBytes_def)
      with c \<open>err = Some ErrOOM\<close> show False by (simp add: commitEntry_def)
    qed
    ultimately show ?thesis using purge_then_evict [OF l(3) \<open>evictedFrom key s1 s2\<close>] by (simp add: wroteOrOOM_refused)
  next
    fix s2
    assume w: "commitEntry s1 key old (newEntry v t) delta = (replaceEntry s2 key (getEntry s2 key) (newEntry v t), None)"
      "evictedFrom key s1 s2" "maxMemBytes s1 = 0 \<or> delta \<le> 0 \<or> fits s1 delta \<Longrightarrow> s2 = s1"
    have "prims (quietLabels key) s s2" by (rule purge_then_evict [OF l(3) w(2)])
    moreover have "maxMemBytes s = 0 \<Longrightarrow> s2 = s1" using w(3) l(8) by (simp add: maxMemBytes_def)
    ultimately show ?thesis
      using wroteOrOOM_write [OF _ assms(3)] w(1) c l(5) by auto
  qed
qed

lemma ensure_no_limit:
  "maxMemCache s = 0 \<Longrightarrow> ensureMemoryWithRetry s key delta = (s, False, None)"
  by (rule ensure_fits) (simp add: maxMemBytes_def)

lemma Set_wrote:
  assumes "storeInv s" and "Set now s key val exp = (s', err)"
  shows "wroteOrOOM key (VString val, exp) s s' err"
proof -
  obtain s1 old where l: "liveEntry now s key = (s1, old)" by (cases "liveEntry now s key")
  note lf = liveEntry_facts [OF l assms(1)]
  let ?d = "estimateMem key (newEntry (VString val) exp) - entrySize key old"
  obtain s2 evd er where e: "ensureMemoryWithRetry s1 key ?d = (s2, evd, er)"
    by (cases "ensureMemoryWithRetry s1 key ?d")
  note ef = ensure_props [OF e lf(1)]
  obtain s3 old3 where l3: "liveEntry now s2 key = (s3, old3)" by (cases "liveEntry now s2 key")
  note lf3 = liveEntry_facts [OF l3 evictedFrom_inv [OF ef(1)]]
  have st2: "prims (quietLabels key) s s2" by (rule purge_then_evict [OF lf(3) ef(1)])
  have st3: "prims (quietLabels key) s s3"
    by (rule rtranclp_trans [OF st2 prims_mono [OF lf3(3)]]) simp
  have free: "s2 = s1 \<and> \<not> evd \<and> er = None" if "maxMemBytes s = 0"
    using ensure_no_limit [of s1 key ?d] e that lf(8) by (simp add: maxMemBytes_def)
  show ?thesis
  proof (cases er)
    case (Some x)
    then have "s' = s2" "err = Some x" using assms(2) l e by (auto simp: Set_def setLocked_def)
    with Some ef(2) st2 free show ?thesis by (auto intro: wroteOrOOM_refused)
  next
    case None
    show ?thesis
    proof (cases evd)
      case True
      then have s': "s' = replaceEntry s3 key (getEntry s3 key) (newEntry (VString val) exp)" "err = None"
        using assms(2) l e l3 None lf3(2) by (auto simp: Set_def setLocked_def)
      show ?thesis unfolding s' using free True by (intro wroteOrOOM_write [OF st3]) auto
    next
      case False
      then have s': "s' = replaceEntry s1 key (getEntry s1 key) (newEntry (VString val) exp)" "err = None"
        using assms(2) l e None lf(2) ef(3) by (auto simp: Set_def setLocked_def)
      show ?thesis unfolding s' using lf(5) st2 False ef(3)
        by (intro wroteOrOOM_write) auto
    qed
  qed
qed


definition outcome :: "store_error option \<Rightarrow> 'a \<Rightarrow> 'a res" where
  "outcome err r = (case err of None \<Rightarrow> Inr r | Some e \<Rightarrow> Inl e)"

lemma outcome_simps [simp]: "outcome None r = Inr r" "outcome (Some e) r = Inl e"
  by (simp_all add: outcome_def)

lemma SetNX_spec:
  assumes "storeInv s" and "SetNX now s key val exp = (s', r)"
  shows "if view now s key \<noteq> None then s' = s \<and> r = Inr False
         else \<exists>err. wroteOrOOM key (VString val, exp) s s' err \<and> r = outcome err True"
proof -
  obtain s1 old where l: "liveEntry now s key = (s1, old)" by (cases "liveEntry now s key")
  note lf = liveEntry_facts [OF l assms(1)]
  show ?thesis
  proof (cases old)
    case (Some e)
    with assms(2) l lf(6,9) show ?thesis by (auto simp: SetNX_def)
  next
    case None
    let ?ne = "newEntry (VString val) exp"
    obtain s2 evd er where e: "ensureMemoryWithRetry s1 key (estimateMem key ?ne) = (s2, evd, er)"
      by (cases "ensureMemoryWithRetry s1 key (estimateMem key ?ne)")
    note ef = ensure_props [OF e lf(1)]
    have st2: "prims (quietLabels key) s s2" by (rule purge_then_evict [OF lf(3) ef(1)])
    have free: "s2 = s1 \<and> er = None" if "maxMemBytes s = 0"
      using ensure_no_limit [of s1 key] e that lf(8) by (simp add: maxMemBytes_def)
    have abs: "getEntry s2 key = None"
      using evictedFrom_absent [OF ef(1)] lf(2) None by simp
    then have l2: "liveEntry now s2 key = (s2, None)" by (simp add: liveEntry_def)
    have v: "view now s key = None" using lf(6) None by simp
    show ?thesis
    proof (cases er)
      case (Some x)
      with assms(2) l None e ef(2) st2 free v show ?thesis
        by (auto simp: SetNX_def intro!: exI [of _ "Some ErrOOM"] wroteOrOOM_refused)
    next
      case N: None
      have "s' = replaceEntry s2 key (getEntry s2 key) ?ne" "r = Inr True"
        using assms(2) l None e N l2 abs by (auto simp: SetNX_def Let_def split: if_splits)
      moreover have "wroteOrOOM key (VString val, exp) s (replaceEntry s2 key (getEntry s2 key) ?ne) None"
        using free lf(5) by (intro wroteOrOOM_write [OF st2]) auto
      ultimately show ?thesis using v by (auto intro: exI [of _ None])
    qed
  qed
qed

lemma SetXX_spec:
  assumes "storeInv s" and "SetXX now s key val exp = (s', r)"
  shows "if view now s key = None then r = Inr False \<and> view now s' = view now s \<and> prims {Purge key} s s'
         else (\<exists>err. wroteOrOOM key (VString val, exp) s s' err \<and> r = outcome err True) \<or>
              key = [] \<and> r = Inr False \<and> prims (quietLabels key) s s'"
proof -
  obtain s1 old where l: "liveEntry now s key = (s1, old)" by (cases "liveEntry now s key")
  note lf = liveEntry_facts [OF l assms(1)]
  show ?thesis
  proof (cases old)
    case None
    with assms(2) l lf(3,4,6) show ?thesis by (auto simp: SetXX_def)
  next
    case (Some eo)
    then have s1: "s1 = s" and live: "\<not> isExpired now eo" and g: "getEntry s key = Some eo"
      using lf(9,2) by auto
    let ?ne = "newEntry (VString val) exp"
    let ?d = "estimateMem key ?ne - estimateMem key eo"
    obtain s2 evd er where e: "ensureMemoryWithRetry s key ?d = (s2, evd, er)"
      by (cases "ensureMemoryWithRetry s key ?d")
    note ef = ensure_props [OF e assms(1)]
    obtain s3 old3 where l3: "liveEntry now s2 key = (s3, old3)" by (cases "liveEntry now s2 key")
    note lf3 = liveEntry_facts [OF l3 evictedFrom_inv [OF ef(1)]]
    have st2: "prims (quietLabels key) s s2" by (rule evictedFrom_steps [OF ef(1)]) simp
    have st3: "prims (quietLabels key) s s3"
      by (rule rtranclp_trans [OF st2 prims_mono [OF lf3(3)]]) simp
    have free: "s2 = s \<and> \<not> evd \<and> er = None" if "maxMemBytes s = 0"
      using ensure_no_limit [of s key ?d] e that by (simp add: maxMemBytes_def)
    have v: "view now s key \<noteq> None" using lf(6) Some by auto
    show ?thesis
    proof (cases er)
      case (Some x)
      with assms(2) l \<open>old = Some eo\<close> s1 e ef(2) st2 free v show ?thesis
        by (auto simp: SetXX_def intro!: exI [of _ "Some ErrOOM"] wroteOrOOM_refused)
    next
      case None
      note N = None
      show ?thesis
      proof (cases "evd \<and> old3 = None")
        case True
        have "key = []"
        proof (rule ccontr)
          assume "key \<noteq> []"
          then have "getEntry s2 key = Some eo" using evictedFrom_key [OF ef(1)] g by simp
          with live l3 True show False by (simp add: liveEntry_def)
        qed
        with True assms(2) l \<open>old = Some eo\<close> s1 e N l3 st3 v show ?thesis by (auto simp: SetXX_def)
      next
        case False
        have s3: "evd \<Longrightarrow> s3 = s2" using False lf3(9) by (cases old3) auto
        have "s' = replaceEntry s2 key (getEntry s2 key) ?ne \<and> r = Inr True"
        proof (cases evd)
          case True
          with False obtain o3 where "old3 = Some o3" "getEntry s2 key = Some o3" "s3 = s2"
            using s3 lf3(2) by auto
          with True assms(2) l \<open>old = Some eo\<close> s1 e N l3 show ?thesis by (simp add: SetXX_def Let_def)
        next
          case False
          with assms(2) l \<open>old = Some eo\<close> s1 e N ef(3) g show ?thesis by (simp add: SetXX_def Let_def)
        qed
        moreover have "wroteOrOOM key (VString val, exp) s (replaceEntry s2 key (getEntry s2 key) ?ne) None"
          using free by (intro wroteOrOOM_write [OF st2]) auto
        ultimately show ?thesis using v by (auto intro: exI [of _ None])
      qed
    qed
  qed
qed


text \<open>The string a visible entry holds, and its expiry.\<close>

definition viewString :: "(dvalue \<times> time) option \<Rightarrow> bytes option res" where
  "viewString c =
     (case c of
        None \<Rightarrow> Inr None
      | Some (v, _) \<Rightarrow> (case v of VString b \<Rightarrow> Inr (Some b) | _ \<Rightarrow> Inl ErrWrongType))"

definition viewTTL :: "(dvalue \<times> time) option \<Rightarrow> time" where
  "viewTTL c = (case c of None \<Rightarrow> zeroTime | Some (_, t) \<Rightarrow> t)"

definition orEmpty :: "bytes option \<Rightarrow> bytes" where
  "orEmpty b = (case b of None \<Rightarrow> [] | Some b \<Rightarrow> b)"

lemma GetSet_spec:
  assumes "storeInv s" and g: "GetSet now s key val exp = (s', r)"
  shows "case viewString (view now s key) of
           Inl e \<Rightarrow> s' = s \<and> r = Inl e
         | Inr b \<Rightarrow> \<exists>err. wroteOrOOM key (VString val, exp) s s' err \<and>
                        r = outcome err (appendNil (orEmpty b), True)"
proof -
  obtain s1 old where l: "liveEntry now s key = (s1, old)" by (cases "liveEntry now s key")
  note lf = liveEntry_facts [OF l assms(1)]
  let ?ne = "newEntry (VString val) exp"
  let ?d = "estimateMem key ?ne - entrySize key old"
  obtain s2 err where c: "commitEntry s1 key old ?ne ?d = (s2, err)" by (cases "commitEntry s1 key old ?ne ?d")
  have w: "wroteOrOOM key (VString val, exp) s s2 err"
    by (rule commit_wrote [OF assms(1) l _ c]) simp
  show ?thesis
  proof (cases "viewString (view now s key)")
    case (Inl e)
    then obtain eo where "old = Some eo" "\<forall>b. evalue eo \<noteq> VString b" "e = ErrWrongType"
      using lf(6) by (cases old) (auto simp: viewString_def content_def split: dvalue.splits)
    with g l lf(9) Inl show ?thesis by (auto simp: GetSet_def split: dvalue.splits)
  next
    case (Inr b)
    have "(case old of None \<Rightarrow> Inr None
        | Some e \<Rightarrow> (case evalue e of VString b \<Rightarrow> Inr (appendNil b) | _ \<Rightarrow> Inl ErrWrongType)) =
        (Inr (appendNil (orEmpty b)) :: bytes option res)"
      using Inr lf(6) by (cases old)
        (auto simp: viewString_def content_def orEmpty_def appendNil_def split: dvalue.splits)
    with g l c have "s' = s2 \<and> r = outcome err (appendNil (orEmpty b), True)"
      by (cases err) (simp_all add: GetSet_def Let_def)
    with w Inr show ?thesis by auto
  qed
qed

lemma Append_spec:
  assumes "storeInv s" and a: "Append now s key tail = (s', r)"
  shows "case viewString (view now s key) of
           Inl e \<Rightarrow> s' = s \<and> r = Inl e
         | Inr b \<Rightarrow> \<exists>err. wroteOrOOM key (VString (orEmpty b @ tail), viewTTL (view now s key)) s s' err \<and>
                        r = outcome err (int (length (orEmpty b @ tail)))"
proof -
  obtain s1 old where l: "liveEntry now s key = (s1, old)" by (cases "liveEntry now s key")
  note lf = liveEntry_facts [OF l assms(1)]
  show ?thesis
  proof (cases old)
    case None
    let ?ne = "newEntry (VString tail) zeroTime"
    obtain s2 evd er where e: "ensureMemoryWithRetry s1 key (estimateMem key ?ne) = (s2, evd, er)"
      by (cases "ensureMemoryWithRetry s1 key (estimateMem key ?ne)")
    note ef = ensure_props [OF e lf(1)]
    have "getEntry s2 key = None"
      using evictedFrom_absent [OF ef(1)] lf(2) None by simp
    with ef(2,3) e None lf(2) have c: "commitEntry s1 key old ?ne (estimateMem key ?ne) =
        (if er = None then replaceEntry s2 key None ?ne else s2, er)"
      by (auto simp: commitEntry_def)
    with a l None e \<open>getEntry s2 key = None\<close>
    have "s' = (if er = None then replaceEntry s2 key None ?ne else s2)" "r = outcome er (int (length tail))"
      by (cases er; cases evd; simp add: Append_def Let_def)+
    moreover have "wroteOrOOM key (VString tail, zeroTime) s (if er = None then replaceEntry s2 key None ?ne else s2) er"
      by (rule commit_wrote [OF assms(1) l _ c]) simp
    ultimately show ?thesis using lf(6) None by (auto simp: viewString_def orEmpty_def viewTTL_def)
  next
    case (Some eo)
    with lf(9) have s1: "s1 = s" by simp
    show ?thesis
    proof (cases "evalue eo")
      case (VString ob)
      let ?ne = "newEntry (VString (ob @ tail)) (expiresAt eo)"
      let ?d = "estimateMem key ?ne - estimateMem key eo"
      obtain s2 err where c: "commitEntry s1 key old ?ne ?d = (s2, err)" by (cases "commitEntry s1 key old ?ne ?d")
      have "wroteOrOOM key (VString (ob @ tail), expiresAt eo) s s2 err"
        by (rule commit_wrote [OF assms(1) l _ c]) simp
      moreover have "s' = s2 \<and> r = outcome err (int (length (ob @ tail)))"
        using a l Some VString c by (cases err) (simp_all add: Append_def Let_def)
      ultimately show ?thesis
        using lf(6) Some VString by (auto simp: viewString_def content_def orEmpty_def viewTTL_def)
    qed (use a l Some s1 lf(6) in \<open>auto simp: Append_def viewString_def content_def\<close>)
  qed
qed


lemma addInt64_correct:
  "in_int64 a \<Longrightarrow> in_int64 b \<Longrightarrow> addInt64 a b = (if in_int64 (a + b) then (a + b, True) else (0, False))"
proof -
  assume a: "in_int64 a" and b: "in_int64 b"
  have "0 < b \<Longrightarrow> wrap64 (maxInt64 - b) = maxInt64 - b" "b < 0 \<Longrightarrow> wrap64 (minInt64 - b) = minInt64 - b"
    using b by (auto simp: in_int64_def maxInt64_def minInt64_def intro!: wrap64_id)
  then show ?thesis
    using a b by (auto simp: addInt64_def wrap64_id in_int64_def)
qed

lemma intOf_range: "intOf b = Inr v \<Longrightarrow> in_int64 v"
  by (auto simp: intOf_def Let_def in_int64_def [of 0] maxInt64_def minInt64_def
      intro: parseInt_range split: if_splits sum.splits)

text \<open>The tail of \<open>incrBy\<close>, from the entry that replaces the old one.\<close>

lemma incrBy_live:
  assumes "storeInv s" and d: "in_int64 delta" and a: "incrBy now s key delta = (s', r)"
    and ne: "\<And>e. getEntry s key = Some e \<Longrightarrow> \<not> isExpired now e"
  shows "case (case viewString (view now s key) of Inl e \<Rightarrow> Inl e | Inr b \<Rightarrow> intOf (orEmpty b)) of
           Inl e \<Rightarrow> s' = s \<and> r = Inl e
         | Inr cur \<Rightarrow>
             if in_int64 (cur + delta)
             then \<exists>err. wroteOrOOM key (VString (formatInt (cur + delta)), viewTTL (view now s key)) s s' err \<and>
                       r = outcome err (cur + delta)
             else s' = s \<and> r = Inl ErrIncrOverflow"
proof -
  let ?e = "getEntry s key"
  have l: "liveEntry now s key = (s, ?e)"
    using ne by (auto simp: liveEntry_def split: option.split)
  note lf = liveEntry_facts [OF l assms(1)]
  define cu :: "int res" where
    "cu = (if ?e \<noteq> None then (case evalue (the ?e) of VString b \<Rightarrow> intOf b | _ \<Rightarrow> Inl ErrWrongType) else Inr 0)"
  have cur: "(case viewString (view now s key) of Inl e \<Rightarrow> Inl e | Inr b \<Rightarrow> intOf (orEmpty b)) = cu"
    using lf(6) by (cases ?e) (auto simp: cu_def viewString_def content_def orEmpty_def intOf_def split: dvalue.split)
  have i: "incrBy now s key delta =
      (case cu of Inl err \<Rightarrow> (s, Inl err)
       | Inr cur \<Rightarrow> (case addInt64 cur delta of (next, ok2) \<Rightarrow>
           if \<not> ok2 then (s, Inl ErrIncrOverflow)
           else let ne = newEntry (VString (formatInt next)) (viewTTL (view now s key))
                in case commitEntry s key ?e ne (estimateMem key ne - entrySize key ?e) of
                     (s, Some err) \<Rightarrow> (s, Inl err) | (s, None) \<Rightarrow> (s, Inr next)))"
    using ne lf(6)
    by (cases ?e; simp add: cu_def incrBy_def Let_def viewTTL_def content_def entrySize_def split: sum.split prod.split)
  show ?thesis
  proof (cases cu)
    case (Inl e)
    with a show ?thesis unfolding cur i by auto
  next
    case (Inr c)
    have ad: "addInt64 c delta = (if in_int64 (c + delta) then (c + delta, True) else (0, False))"
    proof (rule addInt64_correct [OF _ d])
      show "in_int64 c"
        using Inr intOf_range
        by (cases ?e) (auto simp: cu_def in_int64_def [of 0] maxInt64_def minInt64_def split: dvalue.splits)
    qed
    let ?ne = "newEntry (VString (formatInt (c + delta))) (viewTTL (view now s key))"
    let ?d = "estimateMem key ?ne - entrySize key ?e"
    obtain s2 err where k: "commitEntry s key ?e ?ne ?d = (s2, err)" by (cases "commitEntry s key ?e ?ne ?d")
    have "wroteOrOOM key (VString (formatInt (c + delta)), viewTTL (view now s key)) s s2 err"
      by (rule commit_wrote [OF assms(1) l _ k]) simp
    with a k show ?thesis
      unfolding cur i by (cases err; cases "in_int64 (c + delta)") (auto simp: Inr ad Let_def)
  qed
qed


text \<open>On an expired key \<open>incrBy\<close> counts from 0 and forgets the expiry; the purged entry's size is
  taken off the counter a second time.\<close>

lemma removeFromLRU_cleared:
  "\<not> allElem (snd (removeFromLRU key (sh, e)))" "\<not> volElem (snd (removeFromLRU key (sh, e)))"
  by (auto simp: lru_defs)

lemma incrBy_expired:
  assumes inv: "storeInv s" and d: "in_int64 delta" and a: "incrBy now s key delta = (s', r)"
    and e: "getEntry s key = Some e" "isExpired now e"
  shows "once (quietLabels key) {Write key, Stale key} s s' \<and>
    (\<exists>err. r = outcome err delta \<and>
       (err = None \<and> db s' key = Some (VString (formatInt delta), zeroTime) \<or>
        err = Some ErrOOM \<and> maxMemBytes s \<noteq> 0 \<and> prims (quietLabels key) s s'))"
proof -
  let ?s1 = "purgeEntryLocked s (shardIndex key) key e"
  let ?old = "snd (removeFromLRU key (shardFor s key, e))"
  let ?ne = "newEntry (VString (formatInt delta)) zeroTime"
  let ?L = "{Write key, Stale key}"
  have l: "liveEntry now s key = (?s1, None)" using e by (simp add: liveEntry_def)
  note lf = liveEntry_facts [OF l inv]
  have ad: "addInt64 0 delta = (delta, True)"
    using addInt64_correct [OF _ d, of 0] d by (simp add: in_int64_def [of 0] maxInt64_def minInt64_def)
  obtain s2 evd er where en: "ensureMemoryWithRetry ?s1 key (estimateMem key ?ne) = (s2, evd, er)"
    by (cases "ensureMemoryWithRetry ?s1 key (estimateMem key ?ne)")
  note ef = ensure_props [OF en lf(1)]
  have st: "prims (quietLabels key) s s2" by (rule purge_then_evict [OF lf(3) ef(1)])
  have abs: "getEntry s2 key = None" using evictedFrom_absent [OF ef(1)] lf(2) by simp
  have free: "er = None" if "maxMemBytes s = 0"
    using ensure_no_limit [of ?s1 key "estimateMem key ?ne"] en that by (simp add: maxMemBytes_def)
  show ?thesis
  proof (cases er)
    case (Some x)
    with a e ad en ef(2) st free show ?thesis
      by (auto simp: incrBy_def commitEntry_def intro!: exI [of _ "Some ErrOOM"] once_quiet)
  next
    case None
    let ?o = "if evd then None else Some ?old"
    have "s' = replaceEntry s2 key ?o ?ne" "r = Inr delta"
      using a e ad en abs None by (auto simp: incrBy_def commitEntry_def)
    moreover have "prim ?L s2 (replaceEntry s2 key ?o ?ne)"
    proof (cases evd)
      case True
      then show ?thesis using prim_write [of "VString (formatInt delta)" key ?L s2 zeroTime] abs by simp
    next
      case False
      then show ?thesis using abs by (auto intro: prim_stale simp: removeFromLRU_cleared)
    qed
    ultimately show ?thesis
      using once_write [OF st, of ?L s'] by (auto intro: exI [of _ None])
  qed
qed

lemma incrBy_once:
  assumes inv: "storeInv s" and d: "in_int64 delta"
  shows "once (quietLabels key) {Write key, Stale key} s (fst (incrBy now s key delta))"
proof (cases "\<exists>e. getEntry s key = Some e \<and> isExpired now e")
  case True
  then show ?thesis using incrBy_expired [OF assms] by (metis surjective_pairing)
next
  case False
  obtain s' r where i: "incrBy now s key delta = (s', r)" by (cases "incrBy now s key delta")
  have "once (quietLabels key) {Write key} s s'"
    using incrBy_live [OF assms i] False by (auto split: sum.splits if_splits dest: wroteOrOOM_once)
  then show ?thesis using i by (auto intro: once_mono)
qed


text \<open>Several keys.\<close>

lemma MGet_steps: "storeInv s \<Longrightarrow> prims (Purge ` set ks) s (fst (MGet now s ks))"
proof (induction ks arbitrary: s)
  case (Cons k ks)
  let ?L = "Purge ` set (k # ks)"
  obtain s1 r where g: "Get now s k = (s1, r)" by (cases "Get now s k")
  have g1: "prims {Purge k} s s1" using Get_steps [OF Cons.prems, of k now] g by simp
  then have st: "prims ?L s s1" by (rule prims_mono) simp
  have "prims (Purge ` set ks) s1 (fst (MGet now s1 ks))"
    by (rule Cons.IH [OF prims_inv [OF g1 Cons.prems]])
  then have "prims ?L s1 (fst (MGet now s1 ks))" by (rule prims_mono) auto
  with st show ?case
    by (cases r; cases "MGet now s1 ks") (auto simp: g split: sum.split intro: rtranclp_trans)
qed simp

lemma MGet_result:
  "storeInv s \<Longrightarrow> \<forall>k\<in>set ks. \<exists>b. viewString (view now s k) = Inr b \<Longrightarrow>
   snd (MGet now s ks) = Inr (map (\<lambda>k. appendNil (orEmpty (projr (viewString (view now s k))))) ks)"
proof (induction ks arbitrary: s)
  case (Cons k ks)
  obtain s1 r where g: "Get now s k = (s1, r)" by (cases "Get now s k")
  have v: "view now s1 = view now s" and inv: "storeInv s1"
    using Get_result(2) [OF Cons.prems(1), of now k] prims_inv [OF Get_steps [OF Cons.prems(1), of k now] Cons.prems(1)] g
    by simp_all
  have r: "r = Inr (appendNil (orEmpty (projr (viewString (view now s k)))))"
    using Get_result(1) [OF Cons.prems(1), of now k] Cons.prems(2) g
    by (auto simp: viewString_def orEmpty_def appendNil_def split: option.splits dvalue.splits)
  have "snd (MGet now s1 ks) = Inr (map (\<lambda>k. appendNil (orEmpty (projr (viewString (view now s k))))) ks)"
    using Cons.IH [OF inv] Cons.prems(2) v by simp
  then show ?case
    by (cases "MGet now s1 ks") (simp add: g r appendNil_def split: option.split)
qed simp

lemma Set_once: "storeInv s \<Longrightarrow> once (quietLabels key) {Write key} s (fst (Set now s key val exp))"
  by (metis Set_wrote prod.exhaust_sel wroteOrOOM_once)

definition writeManyLabels :: "bytes set \<Rightarrow> label set" where
  "writeManyLabels K = Write ` K \<union> Purge ` K \<union> evictLabels"

lemma writeLabels_many: "k \<in> K \<Longrightarrow> writeLabels k \<subseteq> writeManyLabels K"
  by (auto simp: writeLabels_def writeManyLabels_def evictLabels_def)

text \<open>All that several writes may do to a key other than write it.\<close>

definition quietManyLabels :: "bytes \<Rightarrow> bytes set \<Rightarrow> label set" where
  "quietManyLabels k K = writeManyLabels K - {Write k}"

lemma many_labels:
  "k \<in> K \<Longrightarrow> quietLabels k \<subseteq> quietManyLabels k' K" "k \<in> K \<Longrightarrow> k \<noteq> k' \<Longrightarrow> {Write k} \<subseteq> quietManyLabels k' K"
  "quietManyLabels k K \<subseteq> writeManyLabels K" "k \<in> K \<Longrightarrow> {Write k} \<subseteq> writeManyLabels K \<inter> {Write k}"
  "evictLabels \<subseteq> quietManyLabels k K" "K' \<subseteq> K \<Longrightarrow> Purge ` K' \<subseteq> quietManyLabels k K"
  by (auto simp: quietManyLabels_def writeManyLabels_def quietLabels_def evictLabels_def)

lemma many_skip:
  assumes "once (quietLabels k) {Write k} s s'" and "k \<in> K" "k \<noteq> k'"
  shows "prims (quietManyLabels k' K) s s'"
  using once_prims [OF assms(1) many_labels(1,2)] assms(2,3) by blast

lemma many_hit: "once (quietLabels k) {Write k} s s' \<Longrightarrow> k \<in> K \<Longrightarrow> once (quietManyLabels k K) (writeManyLabels K \<inter> {Write k}) s s'"
  by (rule once_mono) (assumption, rule many_labels(1), assumption, rule many_labels(4))

text \<open>A list of distinct keys is written key by key: each key at most once.\<close>

lemma msetLoop_quiet:
  "storeInv s \<Longrightarrow> set ks \<subseteq> K \<Longrightarrow> k' \<notin> set ks \<Longrightarrow> prims (quietManyLabels k' K) s (fst (msetLoop now s pairs ks))"
proof (induction ks arbitrary: s)
  case (Cons k ks)
  let ?v = "the (mapGet pairs k)"
  obtain s1 err where g: "Set now s k ?v zeroTime = (s1, err)" by (cases "Set now s k ?v zeroTime")
  have st: "prims (quietManyLabels k' K) s s1"
    using many_skip [OF Set_once [OF Cons.prems(1)], of k K k' now ?v zeroTime] Cons.prems(2,3) g by auto
  have "prims (quietManyLabels k' K) s1 (fst (msetLoop now s1 pairs ks))"
    using Cons.IH [OF prims_inv [OF st Cons.prems(1)]] Cons.prems(2,3) by simp
  with st show ?case by (cases err) (auto simp: g intro: rtranclp_trans)
qed simp

lemma msetLoop_once:
  "storeInv s \<Longrightarrow> set ks \<subseteq> K \<Longrightarrow> distinct ks \<Longrightarrow> once (quietManyLabels k' K) (writeManyLabels K \<inter> {Write k'}) s (fst (msetLoop now s pairs ks))"
proof (induction ks arbitrary: s)
  case (Cons k ks)
  let ?v = "the (mapGet pairs k)"
  obtain s1 err where g: "Set now s k ?v zeroTime = (s1, err)" by (cases "Set now s k ?v zeroTime")
  note o = Set_once [OF Cons.prems(1), of k now ?v zeroTime]
  have inv: "storeInv s1" using prims_inv [OF once_prims [OF o subset_UNIV subset_UNIV] Cons.prems(1)] g by simp
  show ?case
  proof (cases "k = k'")
    case True
    have "once (quietManyLabels k' K) (writeManyLabels K \<inter> {Write k'}) s s1" using many_hit [OF o, of K] Cons.prems(2) g True by simp
    moreover have "prims (quietManyLabels k' K) s1 (fst (msetLoop now s1 pairs ks))"
      using msetLoop_quiet [OF inv] Cons.prems(2,3) True by simp
    ultimately show ?thesis by (cases err) (auto simp: g intro: once_after)
  next
    case False
    have "prims (quietManyLabels k' K) s s1" using many_skip [OF o, of K k'] Cons.prems(2) g False by simp
    moreover have "once (quietManyLabels k' K) (writeManyLabels K \<inter> {Write k'}) s1 (fst (msetLoop now s1 pairs ks))"
      using Cons.IH [OF inv] Cons.prems(2,3) by simp
    ultimately show ?thesis by (cases err) (auto simp: g intro: once_before once_quiet)
  qed
qed simp

lemma sortedKeys_sort: "sortedKeys pairs = sort (map fst pairs)"
  by (simp add: sortedKeys_def exchangeSort_correct)

lemma MSet_once:
  "storeInv s \<Longrightarrow> mapOk pairs \<Longrightarrow>
   once (quietManyLabels k (fst ` set pairs)) (writeManyLabels (fst ` set pairs) \<inter> {Write k}) s (fst (MSet now s pairs))"
  unfolding MSet_def by (rule msetLoop_once) (auto simp: sortedKeys_sort)

text \<open>Without a memory limit \<open>MSet\<close> writes every pair and nothing else.\<close>

lemma msetLoop_unlimited:
  "storeInv s \<Longrightarrow> maxMemCache s = 0 \<Longrightarrow> msetLoop now s pairs ks = (s', err) \<Longrightarrow>
   err = None \<and> (\<forall>k. db s' k = (if k \<in> set ks then Some (VString (the (mapGet pairs k)), zeroTime) else db s k))"
proof (induction ks arbitrary: s)
  case (Cons k ks)
  let ?v = "the (mapGet pairs k)"
  obtain s1 er where g: "Set now s k ?v zeroTime = (s1, er)" by (cases "Set now s k ?v zeroTime")
  have w: "wroteOrOOM k (VString ?v, zeroTime) s s1 er" by (rule Set_wrote [OF Cons.prems(1) g])
  have inv: "storeInv s1" and cfg: "maxMemCache s1 = 0"
    using prims_inv [OF wroteOrOOM_more [OF w] Cons.prems(1)] prims_config [OF wroteOrOOM_more [OF w]]
      Cons.prems(2) by simp_all
  have er: "er = None" "db s1 k = Some (VString ?v, zeroTime)" "\<forall>k'. k' \<noteq> k \<longrightarrow> db s1 k' = db s k'"
    using w Cons.prems(2) by (auto simp: wroteOrOOM_def maxMemBytes_def)
  have "msetLoop now s1 pairs ks = (s', err)" using Cons.prems(3) g er(1) by simp
  from Cons.IH [OF inv cfg this] er show ?case by auto
qed simp


text \<open>The shard locks are taken in strictly increasing order, each shard of a key once.\<close>

lemma collectShards_props:
  "set seen = set idx \<Longrightarrow> distinct idx \<Longrightarrow>
   distinct (collectShards seen idx ks) \<and> set (collectShards seen idx ks) = set idx \<union> shardIndex ` set ks"
  by (induction seen idx ks rule: collectShards.induct) (auto simp: Let_def)

lemma lock_order:
  "sorted_wrt (<) (acquireShardsInOrderKeys ks)" "set (acquireShardsInOrderKeys ks) = shardIndex ` set ks"
  using collectShards_props [of "[]" "[]" ks]
  by (simp_all add: acquireShardsInOrderKeys_def sortShardIndices_def exchangeSort_correct
      strict_sorted_iff)

text \<open>\<open>MSetNX\<close>\<close>

lemma anyLive_view: "anyLive now s pairs \<longleftrightarrow> (\<exists>k\<in>fst ` set pairs. view now s k \<noteq> None)"
  by (auto simp: anyLive_def list_ex_iff view_getEntry split: option.splits) force+

lemma msetnxSize_facts:
  "storeInv s \<Longrightarrow> msetnxSize now s ps = (s', d) \<Longrightarrow>
   storeInv s' \<and> prims (Purge ` fst ` set ps) s s' \<and> view now s' = view now s \<and>
   (\<forall>k. k \<notin> fst ` set ps \<longrightarrow> db s' k = db s k) \<and>
   d = (\<Sum>(k, v)\<leftarrow>ps. estimateMem k (newEntry (VString v) zeroTime))"
proof (induction now s ps arbitrary: s' d rule: msetnxSize.induct)
  case (2 now s k v ps)
  obtain s1 old where l: "liveEntry now s k = (s1, old)" by (cases "liveEntry now s k")
  note lf = liveEntry_facts [OF l "2.prems"(1)]
  obtain s2 d2 where m: "msetnxSize now s1 ps = (s2, d2)" by (cases "msetnxSize now s1 ps")
  have IH: "storeInv s2 \<and> prims (Purge ` fst ` set ps) s1 s2 \<and> view now s2 = view now s1 \<and>
   (\<forall>k. k \<notin> fst ` set ps \<longrightarrow> db s2 k = db s1 k) \<and>
   d2 = (\<Sum>(k, v)\<leftarrow>ps. estimateMem k (newEntry (VString v) zeroTime))"
    by (rule "2.IH" [OF l [symmetric] lf(1) m])
  have r: "s' = s2" "d = estimateMem k (newEntry (VString v) zeroTime) + d2"
    using "2.prems"(2) l m by simp_all
  have "prims (Purge ` fst ` set ((k, v) # ps)) s s1" by (rule prims_mono [OF lf(3)]) simp
  moreover have "prims (Purge ` fst ` set ((k, v) # ps)) s1 s2"
    by (rule prims_mono [of "Purge ` fst ` set ps"]) (use IH in auto)
  ultimately show ?case using IH lf(4,5) r by (auto intro: rtranclp_trans)
qed simp

lemma msetnxWrite_facts:
  "storeInv s \<Longrightarrow> mapOk ps \<Longrightarrow> fst ` set ps \<subseteq> K \<Longrightarrow>
   once (quietManyLabels k' K) (writeManyLabels K \<inter> {Write k'}) s (msetnxWrite now s ps) \<and>
   (k' \<notin> fst ` set ps \<longrightarrow> prims (quietManyLabels k' K) s (msetnxWrite now s ps)) \<and>
   (\<forall>k. db (msetnxWrite now s ps) k =
      (case mapGet ps k of None \<Rightarrow> db s k | Some v \<Rightarrow> Some (VString v, zeroTime)))"
proof (induction now s ps rule: msetnxWrite.induct)
  case (2 now s k v ps)
  obtain s1 old where l: "liveEntry now s k = (s1, old)" by (cases "liveEntry now s k")
  note lf = liveEntry_facts [OF l "2.prems"(1)]
  let ?s2 = "replaceEntry s1 k old (newEntry (VString v) zeroTime)"
  have "prim {Write k} s1 ?s2" using lf(2) prim_write [of "VString v" k "{Write k}" s1 zeroTime] by simp
  moreover have "prims (quietLabels k) s s1" by (rule prims_mono [OF lf(3)]) simp
  ultimately have o: "once (quietLabels k) {Write k} s ?s2" by (intro once_write)
  have inv: "storeInv ?s2" using prims_inv [OF once_prims [OF o subset_UNIV subset_UNIV] "2.prems"(1)] .
  have k: "k \<in> K" "fst ` set ps \<subseteq> K" "mapOk ps" "k \<notin> fst ` set ps" using "2.prems"(2,3) by simp_all
  note IH = "2.IH" [OF l [symmetric] inv k(3,2)]
  have "mapGet ps k = None" using k(4) by (simp add: mapGet_None_iff)
  then have d: "\<forall>k'. db (msetnxWrite now s ((k, v) # ps)) k' = (case mapGet ((k, v) # ps) k' of None \<Rightarrow> db s k' | Some v \<Rightarrow> Some (VString v, zeroTime))"
    using IH lf(5) by (auto simp: l split: option.split)
  show ?case
  proof (cases "k = k'")
    case True
    then have "once (quietManyLabels k' K) (writeManyLabels K \<inter> {Write k'}) s ?s2" "prims (quietManyLabels k' K) ?s2 (msetnxWrite now ?s2 ps)"
      using many_hit [OF o k(1)] IH k(4) by simp_all
    then have "once (quietManyLabels k' K) (writeManyLabels K \<inter> {Write k'}) s (msetnxWrite now ?s2 ps)" by (rule once_after)
    with d True l show ?thesis by simp
  next
    case False
    note p = many_skip [OF o k(1) False]
    have "once (quietManyLabels k' K) (writeManyLabels K \<inter> {Write k'}) s (msetnxWrite now ?s2 ps)" by (rule once_before [OF p]) (use IH in simp)
    moreover have "k' \<notin> fst ` set ps \<Longrightarrow> prims (quietManyLabels k' K) s (msetnxWrite now ?s2 ps)"
      using rtranclp_trans [OF p] IH by simp
    ultimately show ?thesis using d by (simp add: l)
  qed
qed simp


lemma MSetNX_spec:
  assumes inv: "storeInv s" and ok: "mapOk pairs" and a: "MSetNX now s pairs = (s', r)"
  shows "if \<exists>k\<in>fst ` set pairs. view now s k \<noteq> None then s' = s \<and> r = Inr False
         else (r = Inr True \<and> (\<forall>k v. mapGet pairs k = Some v \<longrightarrow> db s' k = Some (VString v, zeroTime)) \<and>
               (maxMemBytes s = 0 \<longrightarrow> (\<forall>k. k \<notin> fst ` set pairs \<longrightarrow> db s' k = db s k))) \<or>
              (r = Inl ErrOOM \<and> maxMemBytes s \<noteq> 0 \<and> (\<forall>k\<in>fst ` set pairs. view now s' k = None))"
    and "once (quietManyLabels k' (fst ` set pairs)) (writeManyLabels (fst ` set pairs) \<inter> {Write k'}) s s'"
proof -
  let ?L = "quietManyLabels k' (fst ` set pairs)" and ?W = "writeManyLabels (fst ` set pairs) \<inter> {Write k'}"
  obtain s1 d where m: "msetnxSize now s pairs = (s1, d)" by (cases "msetnxSize now s pairs")
  note mf = msetnxSize_facts [OF inv m]
  obtain s2 er where e: "evictUntilFits s1 d = (s2, er)" by (cases "evictUntilFits s1 d")
  have ef: "evictedFrom [] s1 s2" "er = None \<or> er = Some ErrOOM"
    using evictUntilFits_props [OF e] mf by simp_all
  have st1: "prims ?L s s1"
    by (rule prims_mono [of "Purge ` fst ` set pairs"]) (use mf in \<open>simp, simp add: many_labels(6)\<close>)
  then have st2: "prims ?L s s2"
    by (rule rtranclp_trans) (rule evictedFrom_steps [OF ef(1)], rule many_labels)
  have free: "s2 = s1 \<and> er = None" if "maxMemBytes s = 0"
    using e that prims_config [OF st1] by (simp add: evictUntilFits_def maxMemBytes_def)
  have still: "view now s2 k = None" if "view now s k = None" for k
    using evictedFrom_view [OF ef(1), of now k] mf that by auto
  have w: "once ?L ?W s2 (msetnxWrite now s2 pairs)"
    "\<forall>k. db (msetnxWrite now s2 pairs) k = (case mapGet pairs k of None \<Rightarrow> db s2 k | Some v \<Rightarrow> Some (VString v, zeroTime))"
    using msetnxWrite_facts [OF evictedFrom_inv [OF ef(1)] ok order_refl, of k' now] by simp_all
  show "once ?L ?W s s'"
    using a m e st2 once_before [OF st2 w(1)] by (auto simp: MSetNX_def split: if_splits option.splits intro: once_quiet)
  show "if \<exists>k\<in>fst ` set pairs. view now s k \<noteq> None then s' = s \<and> r = Inr False
         else (r = Inr True \<and> (\<forall>k v. mapGet pairs k = Some v \<longrightarrow> db s' k = Some (VString v, zeroTime)) \<and>
               (maxMemBytes s = 0 \<longrightarrow> (\<forall>k. k \<notin> fst ` set pairs \<longrightarrow> db s' k = db s k))) \<or>
              (r = Inl ErrOOM \<and> maxMemBytes s \<noteq> 0 \<and> (\<forall>k\<in>fst ` set pairs. view now s' k = None))"
  proof (cases "\<exists>k\<in>fst ` set pairs. view now s k \<noteq> None")
    case True
    then have "anyLive now s pairs" "pairs \<noteq> []" by (auto simp: anyLive_view)
    with a True show ?thesis by (simp add: MSetNX_def)
  next
    case False
    then have none: "view now s k = None" if "k \<in> fst ` set pairs" for k using that by blast
    have n: "\<not> anyLive now s pairs" "\<not> anyLive now s2 pairs"
      unfolding anyLive_view using none still [OF none] by fastforce+
    show ?thesis
    proof (cases "pairs = []")
      case True
      with a show ?thesis by (simp add: MSetNX_def)
    next
      case ne: False
      show ?thesis
      proof (cases er)
        case None
        then have s': "s' = msetnxWrite now s2 pairs" and r: "r = Inr True"
          using a n ne m e by (simp_all add: MSetNX_def)
        have "db s' k = Some (VString v, zeroTime)" if "mapGet pairs k = Some v" for k v
          using w(2) that by (simp add: s' del: map_of_eq_Some_iff)
        moreover have "db s' k = db s k" if "k \<notin> fst ` set pairs" "maxMemBytes s = 0" for k
        proof -
          have "mapGet pairs k = None" using that(1) by (simp add: mapGet_None_iff)
          then have "db s' k = db s2 k" using w(2) by (simp add: s')
          then show ?thesis using free that mf by simp
        qed
        ultimately show ?thesis unfolding if_not_P [OF False] using r by blast
      next
        case (Some x)
        then have "s' = s2" "r = Inl ErrOOM" using a n ne m e ef(2) by (auto simp: MSetNX_def)
        with still [OF none] free Some show ?thesis unfolding if_not_P [OF False] by auto
      qed
    qed
  qed
qed

end
