(* ===== verification/Go_Glob.thy ===== *)
theory Go_Glob
  imports Go_Prelude
begin

text \<open>
  \<^verbatim>\<open>path.Match\<close> of the Go library, which the store's \<open>matchGlob\<close> calls: the pattern is cut into
  chunks at its stars, a chunk is matched rune by rune, and a star or question mark never
  crosses a slash.  The functions follow the library's \<^verbatim>\<open>scanChunk\<close>, \<^verbatim>\<open>matchChunk\<close> and \<^verbatim>\<open>getEsc\<close>;
  \<open>None\<close> is \<^verbatim>\<open>ErrBadPattern\<close>.
\<close>


section \<open>UTF-8\<close>

abbreviation byteOf :: "char \<Rightarrow> nat" where
  "byteOf c \<equiv> of_char c"

definition cont :: "nat \<Rightarrow> nat \<Rightarrow> char \<Rightarrow> bool" where
  "cont lo hi c \<longleftrightarrow> lo \<le> byteOf c \<and> byteOf c \<le> hi"

abbreviation tailByte :: "char \<Rightarrow> bool" where
  "tailByte c \<equiv> cont 128 191 c"

definition runeError :: nat where
  "runeError = 65533"

text \<open>\<^verbatim>\<open>utf8.DecodeRuneInString\<close>: the rune and the bytes it takes\<close>

definition decodeRune :: "bytes \<Rightarrow> nat \<times> nat" where
  "decodeRune s =
     (case s of
        [] \<Rightarrow> (runeError, 0)
      | c0 # r \<Rightarrow>
          let b0 = byteOf c0
          in if b0 < 128 then (b0, 1)
             else if 194 \<le> b0 \<and> b0 \<le> 223 then
               (case r of
                  c1 # _ \<Rightarrow> if tailByte c1 then ((b0 - 192) * 64 + (byteOf c1 - 128), 2) else (runeError, 1)
                | [] \<Rightarrow> (runeError, 1))
             else if 224 \<le> b0 \<and> b0 \<le> 239 then
               (case r of
                  c1 # c2 # _ \<Rightarrow>
                    if cont (if b0 = 224 then 160 else 128) (if b0 = 237 then 159 else 191) c1 \<and> tailByte c2
                    then ((b0 - 224) * 4096 + (byteOf c1 - 128) * 64 + (byteOf c2 - 128), 3)
                    else (runeError, 1)
                | _ \<Rightarrow> (runeError, 1))
             else if 240 \<le> b0 \<and> b0 \<le> 244 then
               (case r of
                  c1 # c2 # c3 # _ \<Rightarrow>
                    if cont (if b0 = 240 then 144 else 128) (if b0 = 244 then 143 else 191) c1 \<and>
                       tailByte c2 \<and> tailByte c3
                    then ((b0 - 240) * 262144 + (byteOf c1 - 128) * 4096 + (byteOf c2 - 128) * 64 +
                          (byteOf c3 - 128), 4)
                    else (runeError, 1)
                | _ \<Rightarrow> (runeError, 1))
             else (runeError, 1))"

lemma decodeRune_size: "s \<noteq> [] \<Longrightarrow> 0 < snd (decodeRune s)"
  by (cases s) (auto simp: decodeRune_def Let_def split: list.split)


section \<open>Chunks\<close>

definition getEsc :: "bytes \<Rightarrow> (nat \<times> bytes) option" where
  "getEsc chunk =
     (if chunk = [] \<or> hd chunk = CHR ''-'' \<or> hd chunk = CHR '']'' then None
      else let chunk = (if hd chunk = CHR 0x5C then tl chunk else chunk)
           in if chunk = [] then None
              else case decodeRune chunk of (r, n) \<Rightarrow>
                if r = runeError \<and> n = 1 then None
                else let nchunk = drop n chunk in if nchunk = [] then None else Some (r, nchunk))"

lemma getEsc_shorter: "getEsc chunk = Some (r, c) \<Longrightarrow> length c < length chunk \<and> c \<noteq> []"
proof -
  assume g: "getEsc chunk = Some (r, c)"
  let ?ch = "if hd chunk = CHR 0x5C then tl chunk else chunk"
  have "?ch \<noteq> []" "c = drop (snd (decodeRune ?ch)) ?ch" "c \<noteq> []" "chunk \<noteq> []"
    using g by (auto simp: getEsc_def Let_def split: if_splits prod.splits)
  moreover have "0 < snd (decodeRune ?ch)" using \<open>?ch \<noteq> []\<close> by (rule decodeRune_size)
  moreover have "length ?ch \<le> length chunk" by simp
  ultimately show ?thesis by (auto simp: length_drop)
qed

text \<open>The ranges of a character class, up to the closing bracket.\<close>

function matchRanges :: "nat \<Rightarrow> bytes \<Rightarrow> nat \<Rightarrow> bool \<Rightarrow> (bool \<times> bytes) option" where
  "matchRanges r chunk nrange matched =
     (if chunk \<noteq> [] \<and> hd chunk = CHR '']'' \<and> nrange > 0 then Some (matched, tl chunk)
      else case getEsc chunk of
             None \<Rightarrow> None
           | Some (lo, chunk1) \<Rightarrow>
               (case (if hd chunk1 = CHR ''-'' then getEsc (tl chunk1) else Some (lo, chunk1)) of
                  None \<Rightarrow> None
                | Some (hi, chunk2) \<Rightarrow>
                    matchRanges r chunk2 (Suc nrange) (matched \<or> (lo \<le> r \<and> r \<le> hi))))"
  by pat_completeness auto
termination
proof (relation "measure (\<lambda>(r, chunk, _). length chunk)", goal_cases)
  case (2 r chunk nrange matched p lo chunk1 q hi chunk2)
  then show ?case
    using getEsc_shorter [of chunk lo chunk1] getEsc_shorter [of "tl chunk1" hi chunk2]
    by (auto split: if_splits)
qed simp

declare matchRanges.simps [simp del]

lemma matchRanges_shorter:
  "matchRanges r chunk nrange matched = Some (b, c) \<Longrightarrow> length c < length chunk"
proof (induction r chunk nrange matched rule: matchRanges.induct)
  case (1 r chunk nrange matched)
  show ?case
  proof (cases "chunk \<noteq> [] \<and> hd chunk = CHR '']'' \<and> nrange > 0")
    case True
    with "1.prems" show ?thesis by (cases chunk) (auto simp: matchRanges.simps [of r])
  next
    case False
    then obtain lo chunk1 hi chunk2 where
      c1: "getEsc chunk = Some (lo, chunk1)" and
      c2: "(if hd chunk1 = CHR ''-'' then getEsc (tl chunk1) else Some (lo, chunk1)) = Some (hi, chunk2)" and
      r: "matchRanges r chunk2 (Suc nrange) (matched \<or> (lo \<le> r \<and> r \<le> hi)) = Some (b, c)"
      using "1.prems" unfolding matchRanges.simps [of r chunk]
      by (auto split: option.splits if_splits)
    have "length c < length chunk2" by (rule "1.IH" [OF False c1 refl c2 refl r])
    moreover have "length chunk2 \<le> length chunk1"
      using c2 getEsc_shorter [of "tl chunk1" hi chunk2] by (auto split: if_splits)
    moreover have "length chunk1 < length chunk" using getEsc_shorter [OF c1] by simp
    ultimately show ?thesis by linarith
  qed
qed

function matchChunk :: "bytes \<Rightarrow> bytes \<Rightarrow> bool \<Rightarrow> (bytes \<times> bool) option" where
  "matchChunk chunk s failed =
     (case chunk of
        [] \<Rightarrow> Some (if failed then ([], False) else (s, True))
      | c # cs \<Rightarrow>
          let failed = (failed \<or> s = [])
          in if c = CHR ''['' then
               (case (if failed then (0, s) else (case decodeRune s of (r, n) \<Rightarrow> (r, drop n s))) of (r, s) \<Rightarrow>
                  let negated = (cs \<noteq> [] \<and> hd cs = CHR ''^'');
                      cs1 = (if negated then tl cs else cs)
                  in case matchRanges r cs1 0 False of
                       None \<Rightarrow> None
                     | Some (matched, cs2) \<Rightarrow> matchChunk cs2 s (failed \<or> matched = negated))
             else if c = CHR ''?'' then
               (if failed then matchChunk cs s True
                else matchChunk cs (drop (snd (decodeRune s)) s) (hd s = CHR ''/''))
             else if c = CHR 0x5C then
               (case cs of
                  [] \<Rightarrow> None
                | d # ds \<Rightarrow> if failed then matchChunk ds s True else matchChunk ds (tl s) (d \<noteq> hd s))
             else (if failed then matchChunk cs s True else matchChunk cs (tl s) (c \<noteq> hd s)))"
  by pat_completeness auto
termination
proof (relation "measure (\<lambda>(chunk, _). length chunk)", goal_cases)
  case (2 chunk s failed c cs fl r s' neg cs1 q matched cs2)
  then have "length cs2 < length cs1" by (metis matchRanges_shorter)
  moreover have "length cs1 \<le> length cs" using 2 by simp
  ultimately show ?case using 2 by simp
qed auto

declare matchChunk.simps [simp del]

fun scanTo :: "bool \<Rightarrow> bytes \<Rightarrow> bytes \<times> bytes" where
  "scanTo inrange [] = ([], [])"
| "scanTo inrange (c # r) =
     (if c = CHR 0x5C then
        (case r of
           [] \<Rightarrow> ([c], [])
         | d # r' \<Rightarrow> (case scanTo inrange r' of (a, b) \<Rightarrow> (c # d # a, b)))
      else if c = CHR ''*'' \<and> \<not> inrange then ([], c # r)
      else case scanTo (if c = CHR ''['' then True else if c = CHR '']'' then False else inrange) r of
             (a, b) \<Rightarrow> (c # a, b))"

definition scanChunk :: "bytes \<Rightarrow> bool \<times> bytes \<times> bytes" where
  "scanChunk pattern =
     (let p = dropWhile (\<lambda>c. c = CHR ''*'') pattern
      in (pattern \<noteq> [] \<and> hd pattern = CHR ''*'', scanTo False p))"

lemma scanTo_append: "scanTo b p = (c, r) \<Longrightarrow> p = c @ r"
  by (induction b p arbitrary: c r rule: scanTo.induct) (auto split: if_splits list.splits prod.splits)

lemma scanTo_nonempty: "p \<noteq> [] \<Longrightarrow> hd p \<noteq> CHR ''*'' \<Longrightarrow> fst (scanTo False p) \<noteq> []"
proof (cases p)
  case (Cons c r)
  assume "hd p \<noteq> CHR ''*''"
  with Cons show ?thesis by (cases r) (simp_all add: split_beta del: scanTo.simps(2) add: scanTo.simps(2) [of _ c])
qed simp

lemma scanChunk_shorter:
  assumes "pattern \<noteq> []" and "scanChunk pattern = (star, chunk, rest)"
  shows "length rest < length pattern"
proof -
  let ?p = "dropWhile (\<lambda>c. c = CHR ''*'') pattern"
  have sc: "scanTo False ?p = (chunk, rest)" and star: "star = (hd pattern = CHR ''*'')"
    using assms by (auto simp: scanChunk_def Let_def)
  have p: "?p = chunk @ rest" by (rule scanTo_append [OF sc])
  then have le: "length chunk + length rest \<le> length pattern"
    using length_dropWhile_le [of "\<lambda>c. c = CHR ''*''" pattern] by (metis length_append)
  show ?thesis
  proof (cases star)
    case True
    then have "length ?p < length pattern"
      using assms(1) star length_dropWhile_le [of "\<lambda>c. c = CHR ''*''" "tl pattern"] by (cases pattern) auto
    moreover have "length ?p = length chunk + length rest" by (simp only: p length_append)
    ultimately show ?thesis by linarith
  next
    case False
    then have "?p = pattern" using assms(1) star by (cases pattern) auto
    then have "chunk \<noteq> []" using scanTo_nonempty [of pattern] assms(1) star False sc by auto
    with le show ?thesis by (cases chunk) auto
  qed
qed


section \<open>The match\<close>

text \<open>The search for a position where the chunk after a star matches: \<open>Some (Some t)\<close> is a match that
  leaves \<open>t\<close>.\<close>

fun starSearch :: "bytes \<Rightarrow> bool \<Rightarrow> bytes \<Rightarrow> bytes option option" where
  "starSearch chunk lastChunk [] = Some None"
| "starSearch chunk lastChunk (c # r) =
     (if c = CHR ''/'' then Some None
      else case matchChunk chunk r False of
             None \<Rightarrow> None
           | Some (t, ok) \<Rightarrow>
               if ok \<and> \<not> (lastChunk \<and> t \<noteq> []) then Some (Some t) else starSearch chunk lastChunk r)"

text \<open>A failed match still checks that the rest of the pattern is well-formed.\<close>

function checkRest :: "bytes \<Rightarrow> bool option" where
  "checkRest pattern =
     (if pattern = [] then Some False
      else case scanChunk pattern of (star, chunk, rest) \<Rightarrow>
        (case matchChunk chunk [] False of None \<Rightarrow> None | Some _ \<Rightarrow> checkRest rest))"
  by pat_completeness auto
termination
  by (relation "measure length") (auto intro: scanChunk_shorter [OF _ sym])

function matchLoop :: "bytes \<Rightarrow> bytes \<Rightarrow> bool option" where
  "matchLoop pattern nm =
     (if pattern = [] then Some (nm = [])
      else case scanChunk pattern of (star, chunk, rest) \<Rightarrow>
        if star \<and> chunk = [] then Some (CHR ''/'' \<notin> set nm)
        else case matchChunk chunk nm False of
               None \<Rightarrow> None
             | Some (t, ok) \<Rightarrow>
                 if ok \<and> (t = [] \<or> rest \<noteq> []) then matchLoop rest t
                 else case (if star then starSearch chunk (rest = []) nm else Some None) of
                        None \<Rightarrow> None
                      | Some (Some t') \<Rightarrow> matchLoop rest t'
                      | Some None \<Rightarrow> checkRest rest)"
  by pat_completeness auto
termination
  by (relation "measure (\<lambda>(p, _). length p)") (auto intro: scanChunk_shorter [OF _ sym])

declare checkRest.simps [simp del] matchLoop.simps [simp del]

definition pathMatch :: "bytes \<Rightarrow> bytes \<Rightarrow> bool option" where
  "pathMatch pattern nm = matchLoop pattern nm"

text \<open>A lone star matches the names without a slash.\<close>

lemma pathMatch_star: "pathMatch ''*'' nm = Some (CHR ''/'' \<notin> set nm)"
  by (simp add: pathMatch_def matchLoop.simps [of "''*''"] scanChunk_def)

text \<open>A pattern without special characters matches itself only.\<close>

definition plain :: "char \<Rightarrow> bool" where
  "plain c \<longleftrightarrow> c \<notin> set ''*?[]'' \<and> c \<noteq> CHR 0x5C"

lemma scanTo_plain: "\<forall>c\<in>set p. plain c \<Longrightarrow> scanTo False p = (p, [])"
  by (induction p) (auto simp: plain_def)

lemma matchChunk_failed_plain: "\<forall>c\<in>set p. plain c \<Longrightarrow> matchChunk p s True = Some ([], False)"
  by (induction p arbitrary: s) (auto simp: plain_def matchChunk.simps [of "[]"] matchChunk.simps [of "_ # _"])

lemma matchChunk_plain:
  "\<forall>c\<in>set p. plain c \<Longrightarrow>
   matchChunk p s False = Some (if take (length p) s = p then (drop (length p) s, True) else ([], False))"
proof (induction p arbitrary: s)
  case Nil
  then show ?case by (simp add: matchChunk.simps [of "[]"])
next
  case (Cons c p)
  show ?case
  proof (cases "s \<noteq> [] \<and> hd s = c")
    case True
    with Cons show ?thesis by (cases s) (auto simp: plain_def matchChunk.simps [of "c # p"])
  next
    case False
    with Cons.prems matchChunk_failed_plain [of p] show ?thesis
      by (cases s) (auto simp: plain_def matchChunk.simps [of "c # p"])
  qed
qed

lemma pathMatch_plain:
  assumes "\<forall>c\<in>set p. plain c"
  shows "pathMatch p nm = Some (p = nm)"
proof (cases "p = []")
  case True
  then show ?thesis by (auto simp: pathMatch_def matchLoop.simps [of "[]"])
next
  case False
  then have "hd p \<noteq> CHR ''*''" using assms by (cases p) (auto simp: plain_def)
  then have sc: "scanChunk p = (False, p, [])"
    using False assms by (cases p) (simp_all add: scanChunk_def scanTo_plain del: scanTo.simps)
  have e: "matchLoop [] t = Some (t = [])" "checkRest [] = Some False" for t
    by (simp_all add: matchLoop.simps [of "[]"] checkRest.simps [of "[]"])
  show ?thesis
    using False assms
    by (auto simp: pathMatch_def matchLoop.simps [of p] sc matchChunk_plain e)
qed

end
