(* ===== verification/Go_Net.thy ===== *)
theory Go_Net
  imports Go_Strings Go_Glob
begin

text \<open>
  The functions of \<^verbatim>\<open>net\<close>, \<^verbatim>\<open>path/filepath\<close> and \<^verbatim>\<open>strings\<close> the configuration and the peer
  code call: host and port pairs, textual IP addresses, directory names, and case mapping of names
  that are compared with ASCII strings.
\<close>


section \<open>Case mapping\<close>

text \<open>\<^verbatim>\<open>strings.ToLower\<close> and \<^verbatim>\<open>strings.ToUpper\<close> as far as a comparison with an ASCII string can tell:
  besides the ASCII letters only the dotted capital I and the Kelvin sign have an ASCII lower case,
  and only the long s and the dotless i an ASCII upper case.  Other letters are left as they are.\<close>

fun lowerName :: "bytes \<Rightarrow> bytes" where
  "lowerName [] = []"
| "lowerName (c # r) =
     (if byteOf c = 196 \<and> r \<noteq> [] \<and> byteOf (hd r) = 176 then CHR ''i'' # lowerName (tl r)
      else if byteOf c = 226 \<and> length r \<ge> 2 \<and> byteOf (hd r) = 132 \<and> byteOf (r ! 1) = 170
           then CHR ''k'' # lowerName (drop 2 r)
      else toLowerChar c # lowerName r)"

fun upperName :: "bytes \<Rightarrow> bytes" where
  "upperName [] = []"
| "upperName (c # r) =
     (if byteOf c = 197 \<and> r \<noteq> [] \<and> byteOf (hd r) = 191 then CHR ''S'' # upperName (tl r)
      else if byteOf c = 196 \<and> r \<noteq> [] \<and> byteOf (hd r) = 177 then CHR ''I'' # upperName (tl r)
      else toUpperChar c # upperName r)"

text \<open>\<^verbatim>\<open>strings.EqualFold\<close> of a lower-cased string and an ASCII string: the long s folds to
  an ASCII letter, too.  For an ASCII string without an i this is \<^verbatim>\<open>EqualFold\<close> alone.\<close>

fun foldLower :: "bytes \<Rightarrow> bytes" where
  "foldLower [] = []"
| "foldLower (c # r) =
     (if byteOf c = 196 \<and> r \<noteq> [] \<and> byteOf (hd r) = 176 then CHR ''i'' # foldLower (tl r)
      else if byteOf c = 197 \<and> r \<noteq> [] \<and> byteOf (hd r) = 191 then CHR ''s'' # foldLower (tl r)
      else if byteOf c = 226 \<and> length r \<ge> 2 \<and> byteOf (hd r) = 132 \<and> byteOf (r ! 1) = 170
           then CHR ''k'' # foldLower (drop 2 r)
      else toLower [c] @ foldLower r)"

definition is_ascii :: "char \<Rightarrow> bool" where
  "is_ascii c \<longleftrightarrow> byteOf c < 128"

lemma lowerName_ascii: "\<forall>c\<in>set s. is_ascii c \<Longrightarrow> lowerName s = map toLowerChar s"
  by (induction s) (auto simp: is_ascii_def)

lemma upperName_ascii: "\<forall>c\<in>set s. is_ascii c \<Longrightarrow> upperName s = map toUpperChar s"
  by (induction s) (auto simp: is_ascii_def)

lemma is_digit_ascii: "is_digit c \<Longrightarrow> is_ascii c"
  by (simp add: is_digit_def is_ascii_def)

lemma toLowerChar_digit: "is_digit c \<Longrightarrow> toLowerChar c = c"
  by (simp add: is_digit_def toLowerChar_def Let_def)


section \<open>Host and port\<close>

definition splitAtLast :: "char \<Rightarrow> bytes \<Rightarrow> (bytes \<times> bytes) option" where
  "splitAtLast c s =
     (if c \<notin> set s then None
      else let post = rev (takeWhile (\<lambda>x. x \<noteq> c) (rev s))
           in Some (take (length s - length post - 1) s, post))"

datatype addr_error =
    MissingPort
  | TooManyColons
  | MissingBracket
  | UnexpectedOpen
  | UnexpectedClose

definition SplitHostPort :: "bytes \<Rightarrow> addr_error + bytes \<times> bytes" where
  "SplitHostPort s =
     (case splitAtLast (CHR '':'') s of
        None \<Rightarrow> Inl MissingPort
      | Some (pre, port) \<Rightarrow>
          if hd s = CHR ''['' then
            (if CHR '']'' \<notin> set s then Inl MissingBracket
             else let host = takeWhile (\<lambda>x. x \<noteq> CHR '']'') (tl s); endp = length host + 1
                  in if endp + 1 = length s then Inl MissingPort
                     else if endp + 1 = length pre then
                       (if CHR ''['' \<in> set (tl s) then Inl UnexpectedOpen
                        else if CHR '']'' \<in> set (drop (endp + 1) s) then Inl UnexpectedClose
                        else Inr (host, port))
                     else if s ! (endp + 1) = CHR '':'' then Inl TooManyColons
                     else Inl MissingPort)
          else if CHR '':'' \<in> set pre then Inl TooManyColons
          else if CHR ''['' \<in> set s then Inl UnexpectedOpen
          else if CHR '']'' \<in> set s then Inl UnexpectedClose
          else Inr (pre, port))"

definition JoinHostPort :: "bytes \<Rightarrow> bytes \<Rightarrow> bytes" where
  "JoinHostPort host port =
     (if CHR '':'' \<in> set host then CHR ''['' # host @ '']:'' @ port else host @ CHR '':'' # port)"

lemma takeWhile_until: "c \<notin> set xs \<Longrightarrow> takeWhile (\<lambda>x. x \<noteq> c) (xs @ c # ys) = xs"
  by (induction xs) auto

lemma splitAtLast_append: "c \<notin> set port \<Longrightarrow> splitAtLast c (pre @ c # port) = Some (pre, port)"
proof -
  assume "c \<notin> set port"
  then have "takeWhile (\<lambda>x. x \<noteq> c) (rev port @ c # rev pre) = rev port"
    by (simp add: takeWhile_until)
  then show ?thesis by (simp add: splitAtLast_def Let_def)
qed

text \<open>Splitting what was joined gives the parts back.\<close>

lemma split_join:
  assumes "\<forall>c\<in>set host \<union> set port. c \<noteq> CHR ''['' \<and> c \<noteq> CHR '']''" and "CHR '':'' \<notin> set port"
  shows "SplitHostPort (JoinHostPort host port) = Inr (host, port)"
proof (cases "CHR '':'' \<in> set host")
  case True
  have br: "CHR '']'' \<notin> set host" "CHR ''['' \<notin> set host" "CHR '']'' \<notin> set port" "CHR ''['' \<notin> set port"
    using assms(1) by auto
  have tw: "takeWhile (\<lambda>x. x \<noteq> CHR '']'') (host @ '']:'' @ port) = host"
    using br(1) by (simp add: takeWhile_until)
  have "CHR ''['' # host @ '']:'' @ port = (CHR ''['' # host @ '']'') @ CHR '':'' # port" by simp
  then have "splitAtLast (CHR '':'') (CHR ''['' # host @ '']:'' @ port) = Some (CHR ''['' # host @ '']'', port)"
    using splitAtLast_append [OF assms(2)] by metis
  with True tw br show ?thesis by (simp add: SplitHostPort_def JoinHostPort_def Let_def)
next
  case False
  have "hd (host @ CHR '':'' # port) \<noteq> CHR ''[''" using assms(1) by (cases host) auto
  with False assms show ?thesis
    by (simp add: SplitHostPort_def JoinHostPort_def splitAtLast_append)
      (use assms in auto)
qed


section \<open>IP addresses\<close>

fun splitOn :: "char \<Rightarrow> bytes \<Rightarrow> bytes list" where
  "splitOn c [] = [[]]"
| "splitOn c (x # s) =
     (case splitOn c s of
        [] \<Rightarrow> [[x]]
      | f # fs \<Rightarrow> if x = c then [] # f # fs else (x # f) # fs)"

definition octet :: "bytes \<Rightarrow> nat option" where
  "octet f =
     (if f = [] \<or> \<not> list_all is_digit f \<or> (length f > 1 \<and> hd f = CHR ''0'') \<or> length f > 3 then None
      else let v = foldl (\<lambda>a c. 10 * a + digit_val c) 0 f in if v > 255 then None else Some v)"

definition parseIPv4 :: "bytes \<Rightarrow> nat list option" where
  "parseIPv4 s =
     (let fs = splitOn (CHR ''.'') s; os = map octet fs
      in if length fs = 4 \<and> None \<notin> set os then Some (map the os) else None)"

definition hexVal :: "char \<Rightarrow> nat option" where
  "hexVal c =
     (let n = byteOf c
      in if 48 \<le> n \<and> n \<le> 57 then Some (n - 48)
         else if 97 \<le> n \<and> n \<le> 102 then Some (n - 87)
         else if 65 \<le> n \<and> n \<le> 70 then Some (n - 55)
         else None)"

definition hexRun :: "bytes \<Rightarrow> bytes" where
  "hexRun s = takeWhile (\<lambda>c. hexVal c \<noteq> None) s"

text \<open>The loop of \<^verbatim>\<open>parseIPv6\<close>: the bytes so far, the position of the ellipsis, what is left to read.\<close>

function parseGroups :: "nat list \<Rightarrow> nat option \<Rightarrow> bytes \<Rightarrow> (nat list \<times> nat option \<times> bytes) option" where
  "parseGroups ip ell s =
     (if length ip \<ge> 16 then Some (ip, ell, s)
      else let run = hexRun s; off = length run; rest = drop off s;
               acc = foldl (\<lambda>a c. 16 * a + the (hexVal c)) 0 run
           in if off = 0 \<or> off > 4 then None
              else if rest \<noteq> [] \<and> hd rest = CHR ''.'' then
                (if ell = None \<and> length ip \<noteq> 12 then None
                 else if length ip + 4 > 16 then None
                 else case parseIPv4 s of None \<Rightarrow> None | Some f \<Rightarrow> Some (ip @ f, ell, []))
              else let ip = ip @ [acc div 256, acc mod 256]
                   in if rest = [] then Some (ip, ell, [])
                      else if hd rest \<noteq> CHR '':'' \<or> length rest = 1 then None
                      else if rest ! 1 = CHR '':'' then
                        (if ell \<noteq> None then None
                         else if length rest = 2 then Some (ip, Some (length ip), [])
                         else parseGroups ip (Some (length ip)) (drop 2 rest))
                      else parseGroups ip ell (tl rest))"
  by pat_completeness auto
termination
  by (relation "measure (\<lambda>(ip, ell, s). 16 - length ip)") (auto simp: Let_def)

declare parseGroups.simps [simp del]

definition parseIPv6 :: "bytes \<Rightarrow> nat list option" where
  "parseIPv6 s =
     (let lead = take 2 s = ''::'';
          s = (if lead then drop 2 s else s)
      in if lead \<and> s = [] then Some (replicate 16 0)
         else case parseGroups [] (if lead then Some 0 else None) s of
                None \<Rightarrow> None
              | Some (ip, ell, rest) \<Rightarrow>
                  if rest \<noteq> [] then None
                  else if length ip < 16 then
                    (case ell of
                       None \<Rightarrow> None
                     | Some i \<Rightarrow> Some (take i ip @ replicate (16 - length ip) 0 @ drop i ip))
                  else if ell \<noteq> None then None
                  else Some ip)"

text \<open>\<^verbatim>\<open>net.ParseIP\<close>: 16 bytes, an IPv4 address in its mapped form; an address with a zone is refused.\<close>

definition ParseIP :: "bytes \<Rightarrow> nat list option" where
  "ParseIP s =
     (case find (\<lambda>c. c \<in> set ''.:%'') s of
        None \<Rightarrow> None
      | Some c \<Rightarrow>
          if c = CHR ''.'' then map_option (\<lambda>f. replicate 10 0 @ [255, 255] @ f) (parseIPv4 s)
          else if c = CHR '':'' \<and> CHR ''%'' \<notin> set s then parseIPv6 s
          else None)"

definition To4 :: "nat list \<Rightarrow> nat list option" where
  "To4 ip = (if take 12 ip = replicate 10 0 @ [255, 255] then Some (drop 12 ip) else None)"

definition IsLoopback :: "nat list \<Rightarrow> bool" where
  "IsLoopback ip =
     (case To4 ip of Some v4 \<Rightarrow> hd v4 = 127 | None \<Rightarrow> ip = replicate 15 0 @ [1])"

fun intercalate :: "bytes \<Rightarrow> bytes list \<Rightarrow> bytes" where
  "intercalate sep [] = []"
| "intercalate sep [x] = x"
| "intercalate sep (x # y # r) = x @ sep @ intercalate sep (y # r)"

definition ip4String :: "nat list \<Rightarrow> bytes" where
  "ip4String ip = intercalate ''.'' (map formatUint ip)"

definition hexDigit :: "nat \<Rightarrow> char" where
  "hexDigit d = (if d < 10 then char_of (48 + d) else char_of (87 + d))"

definition hexString :: "nat \<Rightarrow> bytes" where
  "hexString n =
     (if n < 16 then [hexDigit n]
      else if n < 256 then [hexDigit (n div 16), hexDigit (n mod 16)]
      else if n < 4096 then [hexDigit (n div 256), hexDigit (n div 16 mod 16), hexDigit (n mod 16)]
      else [hexDigit (n div 4096), hexDigit (n div 256 mod 16), hexDigit (n div 16 mod 16), hexDigit (n mod 16)])"

fun ip6Groups :: "nat list \<Rightarrow> nat list" where
  "ip6Groups (a # b # r) = (256 * a + b) # ip6Groups r"
| "ip6Groups _ = []"

text \<open>The first longest run of at least two zero groups, as its start and length.\<close>

fun zeroRun :: "nat list \<Rightarrow> nat" where
  "zeroRun (0 # gs) = Suc (zeroRun gs)"
| "zeroRun _ = 0"

definition bestRun :: "nat list \<Rightarrow> nat \<times> nat" where
  "bestRun gs =
     foldl (\<lambda>(i, n) j. let m = zeroRun (drop j gs) in if m \<ge> 2 \<and> m > n then (j, m) else (i, n))
       (0, 0) [0..<length gs]"

definition ip6String :: "nat list \<Rightarrow> bytes" where
  "ip6String ip =
     (let gs = ip6Groups ip
      in case bestRun gs of (i, n) \<Rightarrow>
           if n = 0 then intercalate '':'' (map hexString gs)
           else intercalate '':'' (map hexString (take i gs)) @ ''::'' @
                intercalate '':'' (map hexString (drop (i + n) gs)))"


section \<open>Directory names\<close>

text \<open>\<^verbatim>\<open>filepath.Clean\<close> on the elements of a path: empty elements and \<^verbatim>\<open>.\<close> go, \<^verbatim>\<open>..\<close> takes
  the element before it, and stays at the start of a relative path.\<close>

fun cleanElems :: "bool \<Rightarrow> bytes list \<Rightarrow> bytes list \<Rightarrow> bytes list" where
  "cleanElems rooted acc [] = rev acc"
| "cleanElems rooted acc (e # es) =
     (if e = [] \<or> e = ''.'' then cleanElems rooted acc es
      else if e = ''..'' then
        (case acc of
           [] \<Rightarrow> cleanElems rooted (if rooted then [] else [e]) es
         | a # as \<Rightarrow> if a = ''..'' then cleanElems rooted (e # acc) es else cleanElems rooted as es)
      else cleanElems rooted (e # acc) es)"

definition filepathClean :: "bytes \<Rightarrow> bytes" where
  "filepathClean p =
     (let rooted = (p \<noteq> [] \<and> hd p = CHR ''/'');
          out = (if rooted then ''/'' else []) @ intercalate ''/'' (cleanElems rooted [] (splitOn (CHR ''/'') p))
      in if out = [] then ''.'' else out)"

definition filepathDir :: "bytes \<Rightarrow> bytes" where
  "filepathDir p =
     filepathClean (case splitAtLast (CHR ''/'') p of None \<Rightarrow> [] | Some (pre, _) \<Rightarrow> pre @ ''/'')"

text \<open>\<^verbatim>\<open>filepath.Ext\<close>: from the last dot of the last element on.\<close>

definition filepathExt :: "bytes \<Rightarrow> bytes" where
  "filepathExt p =
     (let base = rev (takeWhile (\<lambda>c. c \<noteq> CHR ''/'') (rev p))
      in case splitAtLast (CHR ''.'') base of None \<Rightarrow> [] | Some (_, e) \<Rightarrow> CHR ''.'' # e)"

subsection \<open>Case mapping and trimming are idempotent\<close>

lemma toLowerChar_high: "byteOf c \<ge> 128 \<Longrightarrow> toLowerChar c = c"
  by (simp add: toLowerChar_def Let_def)

lemma toLowerChar_byte:
  "byteOf (toLowerChar c) \<ge> 128 \<longleftrightarrow> byteOf c \<ge> 128"
  "byteOf (toLowerChar c) \<ge> 128 \<Longrightarrow> toLowerChar c = c"
  by (auto simp: toLowerChar_def Let_def)

lemma lowerName_length: "length (lowerName s) \<le> length s"
  by (induction s rule: lowerName.induct) (auto simp: Let_def)

lemma lowerName_hd:
  "lowerName s \<noteq> [] \<Longrightarrow> byteOf (hd (lowerName s)) \<ge> 128 \<Longrightarrow>
   s \<noteq> [] \<and> hd s = hd (lowerName s) \<and> tl (lowerName s) = lowerName (tl s)"
  by (cases s) (auto simp: toLowerChar_byte split: if_splits)

lemma lowerName_fix_tl: "lowerName (c # r) = c # r \<Longrightarrow> lowerName r = r"
  using lowerName_length [of "tl r"] lowerName_length [of "drop 2 r"]
  by (cases r) (auto split: if_splits)

lemma lowerName_fix_suffix: "lowerName (s @ t) = s @ t \<Longrightarrow> lowerName t = t"
  by (induction s) (auto dest: lowerName_fix_tl simp del: lowerName.simps(2))

lemma lowerName_fix_prefix: "lowerName (s @ t) = s @ t \<Longrightarrow> lowerName s = s"
proof (induction s)
  case (Cons c s)
  have hd2: "2 \<le> length s \<Longrightarrow> hd (s @ t) = hd s" by (cases s) auto
  have r: "lowerName (s @ t) = s @ t" using Cons.prems lowerName_fix_tl by simp
  then have "length (lowerName (drop 2 (s @ t))) \<le> length (s @ t) - 2" "length (lowerName (tl (s @ t))) \<le> length (s @ t) - 1"
    using lowerName_length [of "drop 2 (s @ t)"] lowerName_length [of "tl (s @ t)"] by simp_all
  then have "\<not> (byteOf c = 196 \<and> s @ t \<noteq> [] \<and> byteOf (hd (s @ t)) = 176)"
    "\<not> (byteOf c = 226 \<and> length (s @ t) \<ge> 2 \<and> byteOf (hd (s @ t)) = 132 \<and> byteOf ((s @ t) ! 1) = 170)"
    "toLowerChar c = c"
    using Cons.prems by (auto split: if_splits)
  then have "\<not> (byteOf c = 196 \<and> s \<noteq> [] \<and> byteOf (hd s) = 176)"
    "\<not> (byteOf c = 226 \<and> length s \<ge> 2 \<and> byteOf (hd s) = 132 \<and> byteOf (s ! 1) = 170)" "toLowerChar c = c"
    using hd2 by (auto simp: nth_append)
  with Cons.IH [OF r] show ?case by auto
qed simp

lemma lowerName_idem [simp]: "lowerName (lowerName s) = lowerName s"
proof (induction s rule: lowerName.induct)
  case (2 c r)
  show ?case
  proof (cases "(byteOf c = 196 \<and> r \<noteq> [] \<and> byteOf (hd r) = 176) \<or>
      (byteOf c = 226 \<and> length r \<ge> 2 \<and> byteOf (hd r) = 132 \<and> byteOf (r ! 1) = 170)")
    case True
    with 2 show ?thesis by (auto simp: toLowerChar_def Let_def)
  next
    case False
    let ?r = "lowerName r"
    have n1: "\<not> (byteOf (toLowerChar c) = 196 \<and> ?r \<noteq> [] \<and> byteOf (hd ?r) = 176)"
      using False lowerName_hd [of r] toLowerChar_byte(2) [of c] by fastforce
    have n2: "\<not> (byteOf (toLowerChar c) = 226 \<and> length ?r \<ge> 2 \<and> byteOf (hd ?r) = 132 \<and> byteOf (?r ! 1) = 170)"
    proof
      assume h: "byteOf (toLowerChar c) = 226 \<and> length ?r \<ge> 2 \<and> byteOf (hd ?r) = 132 \<and> byteOf (?r ! 1) = 170"
      then have "?r \<noteq> []" by auto
      with h have a: "r \<noteq> []" "hd r = hd ?r" "tl ?r = lowerName (tl r)" using lowerName_hd [of r] by auto
      have "?r ! 1 = hd (tl ?r)" "tl ?r \<noteq> []" using h by (cases ?r; cases "tl ?r"; auto)+
      then have "tl r \<noteq> []" "hd (tl r) = ?r ! 1" using lowerName_hd [of "tl r"] h a(3) by auto
      moreover have "length r \<ge> 2" "r ! 1 = hd (tl r)" using a(1) \<open>tl r \<noteq> []\<close> by (cases r; cases "tl r"; auto)+
      ultimately show False using False h a toLowerChar_byte(2) [of c] by auto
    qed
    have "lowerName (c # r) = toLowerChar c # ?r" using False by (subst lowerName.simps) auto
    moreover have "lowerName (toLowerChar c # ?r) = toLowerChar (toLowerChar c) # lowerName ?r"
      by (subst lowerName.simps) (simp only: n1 n2 if_False)
    moreover have "lowerName ?r = ?r" using 2 False by blast
    ultimately show ?thesis by simp
  qed
qed simp

lemma hasPrefix_append: "hasPrefix s p \<Longrightarrow> hasPrefix (s @ t) p"
  by (auto simp: hasPrefix_def min_def) (metis append_take_drop_id length_take min.absorb2 nat_le_linear take_all)


lemma trimLeft_suffix: "\<exists>p. s = p @ trimLeft s"
proof (induction s rule: trimLeft.induct)
  case (1 s)
  show ?case
  proof (cases "s = [] \<or> spaceLen s = 0")
    case False
    with 1 obtain p where "drop (spaceLen s) s = p @ trimLeft (drop (spaceLen s) s)" by blast
    moreover have "trimLeft s = trimLeft (drop (spaceLen s) s)" using False by (subst trimLeft.simps) simp
    ultimately show ?thesis by (metis append_assoc append_take_drop_id)
  qed (auto simp: trimLeft.simps)
qed

lemma trimRight_prefix: "\<exists>p. s = trimRight s @ p"
proof (induction s rule: trimRight.induct)
  case (1 s)
  show ?case
  proof (cases "s = [] \<or> spaceLenEnd s = 0")
    case False
    let ?s = "take (length s - spaceLenEnd s) s"
    obtain p where "?s = trimRight ?s @ p" using 1 [OF False] by metis
    moreover have "trimRight s = trimRight ?s" using False by (subst trimRight.simps) simp
    ultimately show ?thesis by (metis append_assoc append_take_drop_id)
  qed (auto simp: trimRight.simps)
qed

lemma trimLeft_end: "trimLeft s = [] \<or> spaceLen (trimLeft s) = 0"
proof (induction s rule: trimLeft.induct)
  case (1 s)
  show ?case
  proof (cases "s = [] \<or> spaceLen s = 0")
    case False
    then have "trimLeft s = trimLeft (drop (spaceLen s) s)" by (subst trimLeft.simps) simp
    with 1 False show ?thesis by metis
  qed (auto simp: trimLeft.simps)
qed

lemma trimRight_end: "trimRight s = [] \<or> spaceLenEnd (trimRight s) = 0"
proof (induction s rule: trimRight.induct)
  case (1 s)
  show ?case
  proof (cases "s = [] \<or> spaceLenEnd s = 0")
    case False
    then have "trimRight s = trimRight (take (length s - spaceLenEnd s) s)" by (subst trimRight.simps) simp
    with 1 False show ?thesis by metis
  qed (auto simp: trimRight.simps)
qed

lemma spaceLen_zero: "spaceLen s = 0 \<longleftrightarrow> (\<forall>p\<in>set spaceSeqs. \<not> hasPrefix s p)"
proof -
  have "find (hasPrefix s) spaceSeqs = Some p \<Longrightarrow> length p > 0" for p
    using spaceSeqs_ends_not_graph by (auto simp: find_Some_iff in_set_conv_nth)
  then show ?thesis
    by (auto simp: spaceLen_def find_None_iff split: option.split) (metis find_Some_iff nth_mem)
qed

lemma trimSpace_idem [simp]: "trimSpace (trimSpace s) = trimSpace s"
proof -
  let ?u = "trimLeft s" and ?v = "trimRight (trimLeft s)"
  obtain p where p: "?u = ?v @ p" using trimRight_prefix by blast
  have "?v = [] \<or> spaceLen ?v = 0"
    using trimLeft_end [of s] p hasPrefix_append [of ?v _ p] by (auto simp: spaceLen_zero)
  then have "trimLeft ?v = ?v" by (auto simp: trimLeft.simps)
  moreover have "trimRight ?v = ?v" using trimRight_end [of ?u] by (auto simp: trimRight.simps)
  ultimately show ?thesis by (simp add: trimSpace_def)
qed

lemma trimSpace_infix: "\<exists>p q. s = p @ trimSpace s @ q"
  using trimLeft_suffix [of s] trimRight_prefix [of "trimLeft s"] unfolding trimSpace_def by (metis)

lemma lowerName_trimSpace [simp]: "lowerName (trimSpace (lowerName s)) = trimSpace (lowerName s)"
  using trimSpace_infix [of "lowerName s"] lowerName_idem [of s]
  by (metis lowerName_fix_prefix lowerName_fix_suffix)

end
