(* ===== verification/Store_Keys.thy ===== *)
theory Store_Keys
  imports Store_Strings Go_Net
begin

text \<open>
  The methods on keys of any type (\<^verbatim>\<open>src/internal/store/store.go\<close>, from \<open>Del\<close>), the cursor scan
  (\<^verbatim>\<open>store_scan.go\<close>) and active expiry (\<^verbatim>\<open>expiry.go\<close>).
\<close>

fun Del :: "time \<Rightarrow> store \<Rightarrow> bytes list \<Rightarrow> store \<times> nat" where
  "Del now s [] = (s, 0)"
| "Del now s (key # ks) =
     (case getEntry s key of
        None \<Rightarrow> Del now s ks
      | Some e \<Rightarrow>
          (case Del now (purgeEntryLocked s (shardIndex key) key e) ks of
             (s', n) \<Rightarrow> (s', if isExpired now e then n else Suc n)))"

fun Exists :: "time \<Rightarrow> store \<Rightarrow> bytes list \<Rightarrow> store \<times> nat" where
  "Exists now s [] = (s, 0)"
| "Exists now s (key # ks) =
     (case liveEntry now s key of
        (s, None) \<Rightarrow> Exists now s ks
      | (s, Some _) \<Rightarrow> (case Exists now s ks of (s', n) \<Rightarrow> (s', Suc n)))"

fun typeName :: "dvalue \<Rightarrow> bytes" where
  "typeName (VString _) = ''string''"
| "typeName (VHash _) = ''hash''"
| "typeName (VList _) = ''list''"
| "typeName (VSet _) = ''set''"

definition Type :: "time \<Rightarrow> store \<Rightarrow> bytes \<Rightarrow> store \<times> bytes" where
  "Type now s key =
     (case liveEntry now s key of
        (s, None) \<Rightarrow> (s, ''none'')
      | (s, Some e) \<Rightarrow> (s, typeName (evalue e)))"

text \<open>A copy of an entry that is in no LRU list.\<close>

definition cloneEntryForRename :: "entry \<Rightarrow> entry" where
  "cloneEntryForRename e = newEntry (evalue e) (expiresAt e)"

definition purgeIfPresent :: "store \<Rightarrow> bytes \<Rightarrow> store" where
  "purgeIfPresent s key =
     (case getEntry s key of None \<Rightarrow> s | Some e \<Rightarrow> purgeEntryLocked s (shardIndex key) key e)"

text \<open>The source leaves its shard without a watch bump.  It is unlinked as it is after the purge of
  the destination: the two may share a shard.\<close>

definition moveEntry :: "store \<Rightarrow> bytes \<Rightarrow> bytes \<Rightarrow> entry \<Rightarrow> store" where
  "moveEntry s src dst e =
     (let s = purgeIfPresent s dst;
          s = unlinkEntry s src e
      in replaceEntry s dst None (cloneEntryForRename e))"

definition Rename :: "time \<Rightarrow> store \<Rightarrow> bytes \<Rightarrow> bytes \<Rightarrow> store \<times> store_error option" where
  "Rename now s src dst =
     (if src = dst then (s, None)
      else case liveEntry now s src of
             (s, None) \<Rightarrow> (s, Some ErrNoSuchKey)
           | (s, Some e) \<Rightarrow> (moveEntry s src dst e, None))"

definition RenameNX :: "time \<Rightarrow> store \<Rightarrow> bytes \<Rightarrow> bytes \<Rightarrow> store \<times> bool" where
  "RenameNX now s src dst =
     (if src = dst then (s, True)
      else case liveEntry now s src of
             (s, None) \<Rightarrow> (s, False)
           | (s, Some e) \<Rightarrow>
               (case getEntry s dst of
                  Some d \<Rightarrow> if \<not> isExpired now d then (s, False) else (moveEntry s src dst e, True)
                | None \<Rightarrow> (moveEntry s src dst e, True)))"

definition matchGlob :: "bytes \<Rightarrow> bytes \<Rightarrow> bool" where
  "matchGlob pattern key \<longleftrightarrow> pathMatch pattern key = Some True"

text \<open>The unexpired keys of all shards, shard by shard.\<close>

definition liveKeys :: "time \<Rightarrow> store \<Rightarrow> bytes list" where
  "liveKeys now s =
     concat (map (\<lambda>i. map fst (filter (\<lambda>(k, e). \<not> isExpired now e) (shm (shards s i)))) [0..<NumShards])"

definition Keys :: "time \<Rightarrow> store \<Rightarrow> bytes \<Rightarrow> bytes list" where
  "Keys now s pattern =
     concat (map (\<lambda>i. map fst (filter (\<lambda>(k, e). \<not> isExpired now e \<and> matchGlob pattern k) (shm (shards s i))))
       [0..<NumShards])"

definition DBSize :: "time \<Rightarrow> store \<Rightarrow> nat" where
  "DBSize now s =
     (\<Sum>i\<leftarrow>[0..<NumShards]. length (filter (\<lambda>(k, e). \<not> isExpired now e) (shm (shards s i))))"

definition ExpireKeyCount :: "time \<Rightarrow> store \<Rightarrow> nat" where
  "ExpireKeyCount now s =
     (\<Sum>i\<leftarrow>[0..<NumShards]. length (filter (\<lambda>(k, e). \<not> isExpired now e \<and> hasTTL e) (shm (shards s i))))"

definition StoreStats :: "store \<Rightarrow> (nat \<times> nat) list" where
  "StoreStats s = map (\<lambda>i. (i, length (shm (shards s i)))) [0..<NumShards]"

definition flushShard :: "nat \<Rightarrow> store \<Rightarrow> store" where
  "flushShard i s = fold (\<lambda>(k, e) s. purgeEntryLocked s i k e) (shm (shards s i)) s"

definition FlushDB :: "store \<Rightarrow> store" where
  "FlushDB s = (fold flushShard [0..<NumShards] s)\<lparr>watch := (\<lambda>_. 0)\<rparr>"

definition ExpireAt :: "time \<Rightarrow> store \<Rightarrow> bytes \<Rightarrow> time \<Rightarrow> store \<times> bool" where
  "ExpireAt now s key at =
     (case liveEntry now s key of
        (s, None) \<Rightarrow> (s, False)
      | (s, Some old) \<Rightarrow> (replaceEntry s key (Some old) ((cloneEntryForRename old)\<lparr>expiresAt := at\<rparr>), True))"

definition Expire :: "time \<Rightarrow> store \<Rightarrow> bytes \<Rightarrow> int \<Rightarrow> store \<times> bool res" where
  "Expire now s key sec =
     (if sec \<le> 0 then (s, Inl ErrInvalidExpire)
      else case ExpireAt now s key (timeAdd now (durMul sec durSecond)) of (s, b) \<Rightarrow> (s, Inr b))"

text \<open>\<open>TTL\<close> and \<open>TTLMs\<close> differ in the unit of the answer.\<close>

definition ttlWith :: "(int \<Rightarrow> int) \<Rightarrow> time \<Rightarrow> store \<Rightarrow> bytes \<Rightarrow> store \<times> int" where
  "ttlWith unit now s key =
     (case liveEntry now s key of
        (s, None) \<Rightarrow> (s, - 2)
      | (s, Some e) \<Rightarrow>
          if isZero (expiresAt e) then (s, - 1)
          else let d = timeUntil now (expiresAt e)
               in if d \<le> 0 then (purgeEntryLocked s (shardIndex key) key e, - 2)
                  else (s, unit d))"

definition TTL :: "time \<Rightarrow> store \<Rightarrow> bytes \<Rightarrow> store \<times> int" where
  "TTL = ttlWith durSeconds"

definition TTLMs :: "time \<Rightarrow> store \<Rightarrow> bytes \<Rightarrow> store \<times> int" where
  "TTLMs = ttlWith durMilliseconds"

definition Persist :: "time \<Rightarrow> store \<Rightarrow> bytes \<Rightarrow> store \<times> bool" where
  "Persist now s key =
     (case liveEntry now s key of
        (s, None) \<Rightarrow> (s, False)
      | (s, Some old) \<Rightarrow>
          if isZero (expiresAt old) then (s, False)
          else (replaceEntry s key (Some old) ((cloneEntryForRename old)\<lparr>expiresAt := zeroTime\<rparr>), True))"


section \<open>Scanning\<close>

fun filterType :: "time \<Rightarrow> store \<Rightarrow> bytes \<Rightarrow> bytes list \<Rightarrow> store \<times> bytes list" where
  "filterType now s wantType [] = (s, [])"
| "filterType now s wantType (k # ks) =
     (case Type now s k of (s, t) \<Rightarrow>
        (case filterType now s wantType ks of
           (s, filt) \<Rightarrow> (s, if t = foldLower wantType then k # filt else filt)))"

text \<open>The cursor is unsigned and its conversion to an index wraps; slicing out of range panics.\<close>

definition Scan ::
  "time \<Rightarrow> store \<Rightarrow> 64 word \<Rightarrow> bytes \<Rightarrow> int \<Rightarrow> bytes \<Rightarrow> store \<times> (64 word \<times> bytes list) res" where
  "Scan now s cursor pat cnt wantType =
     (let pat = (if pat = [] then ''*'' else pat);
          cnt = (if cnt \<le> 0 then 10 else cnt);
          found = sort (Keys now s pat)
      in case (if wantType \<noteq> [] then filterType now s wantType found else (s, found)) of (s, found) \<Rightarrow>
           let start = sint cursor
           in if start \<ge> int (length found) then (s, Inr (0, []))
              else let stop0 = wrap64 (start + cnt);
                       stop = (if stop0 > int (length found) then int (length found) else stop0)
                   in if start < 0 \<or> stop < start then (s, Inl PanicSliceBounds)
                      else (s, Inr (if stop < int (length found) then word_of_int stop else 0,
                                    take (nat (stop - start)) (drop (nat start) found))))"

text \<open>Each row is the key, its type and its TTL in seconds; \<open>ttlRows\<close> is the loop.\<close>

fun ttlRows :: "time \<Rightarrow> store \<Rightarrow> bytes list \<Rightarrow> store \<times> (bytes \<times> bytes \<times> int) list" where
  "ttlRows now s [] = (s, [])"
| "ttlRows now s (k # ks) =
     (case Type now s k of (s, t) \<Rightarrow>
        (case TTL now s k of (s, ttl) \<Rightarrow>
           (case ttlRows now s ks of (s, rows) \<Rightarrow> (s, (k, t, ttl) # rows))))"

definition SampleKeysForDebug :: "time \<Rightarrow> store \<Rightarrow> int \<Rightarrow> store \<times> (bytes \<times> bytes \<times> int) list" where
  "SampleKeysForDebug now s mx =
     (let mx = (if mx \<le> 0 then 10 else mx)
      in ttlRows now s (take (nat mx) (sort (Keys now s ''*''))))"


section \<open>Active expiry\<close>

text \<open>The order in which Go iterates over the map of a shard is an argument: \<open>order\<close> maps the keys
  to their order in this iteration.\<close>

definition randomSampleKeys :: "(bytes list \<Rightarrow> bytes list) \<Rightarrow> (bytes, entry) gomap \<Rightarrow> nat \<Rightarrow> bytes list" where
  "randomSampleKeys order mp n =
     (if mp = [] then []
      else if length mp \<le> n then order (map fst mp)
      else take n (order (map fst mp)))"

definition expirySamplePerShard :: nat where
  "expirySamplePerShard = 20"

fun sampleKeys :: "time \<Rightarrow> store \<Rightarrow> nat \<Rightarrow> bytes list \<Rightarrow> store \<times> nat \<times> nat" where
  "sampleKeys now s si [] = (s, 0, 0)"
| "sampleKeys now s si (k # ks) =
     (case mapGet (shm (shards s si)) k of
        None \<Rightarrow> sampleKeys now s si ks
      | Some e \<Rightarrow>
          if isExpired now e
          then (case sampleKeys now (purgeEntryLocked s si k e) si ks of
                  (s, expired, checked) \<Rightarrow> (s, Suc expired, Suc checked))
          else (case sampleKeys now s si ks of
                  (s, expired, checked) \<Rightarrow> (s, expired, Suc checked)))"

definition sampleOnceShard :: "(bytes list \<Rightarrow> bytes list) \<Rightarrow> time \<Rightarrow> store \<Rightarrow> nat \<Rightarrow> store \<times> nat \<times> nat" where
  "sampleOnceShard order now s si =
     (if shm (shards s si) = [] then (s, 0, 0)
      else sampleKeys now s si (randomSampleKeys order (shm (shards s si)) expirySamplePerShard))"

text \<open>A shard is sampled again while more than a quarter of the sample was expired, at most 16
  times.\<close>

fun resample :: "(nat \<Rightarrow> bytes list \<Rightarrow> bytes list) \<Rightarrow> time \<Rightarrow> store \<Rightarrow> nat \<Rightarrow> nat \<Rightarrow> store" where
  "resample orders now s si 0 = s"
| "resample orders now s si (Suc n) =
     (case sampleOnceShard (orders n) now s si of (s, expired, checked) \<Rightarrow>
        if checked = 0 then s
        else if 4 * expired \<le> checked then s
        else resample orders now s si n)"

definition sampleAllShards :: "(nat \<Rightarrow> nat \<Rightarrow> bytes list \<Rightarrow> bytes list) \<Rightarrow> time \<Rightarrow> store \<Rightarrow> store" where
  "sampleAllShards orders now s =
     fold (\<lambda>si s. resample (orders si) now s si 16) [0..<NumShards] s"

text \<open>One tick of \<open>runActiveExpiry\<close>: the counter of ticks since the last pruning of watch entries and
  the store.\<close>

definition expiryTick :: "(nat \<Rightarrow> nat \<Rightarrow> bytes list \<Rightarrow> bytes list) \<Rightarrow> time \<Rightarrow> nat \<times> store \<Rightarrow> nat \<times> store" where
  "expiryTick orders now = (\<lambda>(watchPruneCounter, s).
     let s = sampleAllShards orders now s; c = watchPruneCounter + 1
     in if c \<ge> 300 then (0, PruneWatch s) else (c, s))"

section \<open>Steps\<close>

lemma purge_prim: "getEntry s k = Some e \<Longrightarrow> Purge k \<in> L \<Longrightarrow> prim L s (purgeEntryLocked s (shardIndex k) k e)"
  by (rule prim_purge) (simp_all add: getEntry_fold)

lemma write_prim:
  "old = getEntry s k \<Longrightarrow> valueOk v \<Longrightarrow> Write k \<in> L \<Longrightarrow> prim L s (replaceEntry s k old (newEntry v t))"
  by (simp add: prim_write)

lemma newEntry_fields [simp]: "evalue (newEntry v t) = v" "expiresAt (newEntry v t) = t"
  by (simp_all add: newEntry_def)

lemma getEntry_purge: "getEntry (purgeEntryLocked s (shardIndex k) k e) = (getEntry s)(k := None)"
  by (auto simp: getEntry_def shardFor_def shards_purge fun_eq_iff)

lemma getEntry_None_db: "getEntry s k = None \<longleftrightarrow> db s k = None"
  by (simp add: db_def)

lemma Del_steps: "prims (Purge ` set ks) s (fst (Del now s ks))"
proof (induction now s ks rule: Del.induct)
  case (2 now s key ks)
  let ?L = "Purge ` set (key # ks)"
  show ?case
  proof (cases "getEntry s key")
    case None
    with 2 show ?thesis by (auto intro: prims_mono)
  next
    case (Some e)
    let ?s = "purgeEntryLocked s (shardIndex key) key e"
    have "prim ?L s ?s" using Some by (rule purge_prim) simp
    moreover have "prims ?L ?s (fst (Del now ?s ks))" using "2.IH"(2) [OF Some] by (rule prims_mono) auto
    ultimately show ?thesis
      by (simp add: Some split_beta converse_rtranclp_into_rtranclp)
  qed
qed simp

lemma Del_result:
  "storeInv s \<Longrightarrow> Del now s ks = (s', n) \<Longrightarrow>
   n = card {k \<in> set ks. view now s k \<noteq> None} \<and> db s' = (\<lambda>k. if k \<in> set ks then None else db s k)"
proof (induction now s ks arbitrary: s' n rule: Del.induct)
  case (2 now s key ks)
  show ?case
  proof (cases "getEntry s key")
    case None
    then have "view now s key = None" "db s key = None" by (simp_all add: view_getEntry db_def)
    moreover have "n = card {k \<in> set ks. view now s k \<noteq> None} \<and> db s' = (\<lambda>k. if k \<in> set ks then None else db s k)"
      using "2.IH"(1) [OF None "2.prems"(1)] "2.prems"(2) None by simp
    moreover have "{k \<in> set (key # ks). view now s k \<noteq> None} = {k \<in> set ks. view now s k \<noteq> None}"
      using calculation(1) by auto
    ultimately show ?thesis by (auto simp: fun_eq_iff)
  next
    case (Some e)
    let ?s = "purgeEntryLocked s (shardIndex key) key e"
    obtain m where m: "Del now ?s ks = (s', m)" "n = (if isExpired now e then m else Suc m)"
      using "2.prems"(2) Some by (auto split: prod.splits)
    have inv: "storeInv ?s" by (rule prim_inv [OF purge_prim [OF Some, of UNIV] "2.prems"(1)]) simp
    have IH: "m = card {k \<in> set ks. view now ?s k \<noteq> None}" "db s' = (\<lambda>k. if k \<in> set ks then None else db ?s k)"
      using "2.IH"(2) [OF Some inv m(1)] by simp_all
    have v: "view now ?s = (view now s)(key := None)"
      by (auto simp: view_def db_purge fun_eq_iff)
    have vk: "view now s key \<noteq> None \<longleftrightarrow> \<not> isExpired now e" using Some by (simp add: view_getEntry)
    let ?A = "{k \<in> set ks. view now ?s k \<noteq> None}"
    have "{k \<in> set (key # ks). view now s k \<noteq> None} = (if isExpired now e then ?A else insert key ?A)"
      using vk v by auto
    moreover have "key \<notin> ?A" "finite ?A" using v by simp_all
    ultimately show ?thesis using IH m(2) by (auto simp: db_purge fun_eq_iff)
  qed
qed simp

lemma Exists_steps: "storeInv s \<Longrightarrow> prims (Purge ` set ks) s (fst (Exists now s ks))"
  and Exists_result: "storeInv s \<Longrightarrow>
    snd (Exists now s ks) = length (filter (\<lambda>k. view now s k \<noteq> None) ks) \<and>
    view now (fst (Exists now s ks)) = view now s"
proof (induction ks arbitrary: s)
  case (Cons k ks)
  let ?L = "Purge ` set (k # ks)"
  {
    case 1
    obtain s1 old where l: "liveEntry now s k = (s1, old)" by (cases "liveEntry now s k")
    note lf = liveEntry_facts [OF l 1]
    have "prims ?L s s1" by (rule prims_mono [OF lf(3)]) simp
    moreover have "prims ?L s1 (fst (Exists now s1 ks))" by (rule prims_mono [OF Cons.IH(1) [OF lf(1)]]) auto
    ultimately show ?case by (cases old) (auto simp: l split_beta)
  next
    case 2
    obtain s1 old where l: "liveEntry now s k = (s1, old)" by (cases "liveEntry now s k")
    note lf = liveEntry_facts [OF l 2]
    from Cons.IH(2) [OF lf(1)] show ?case by (cases old) (auto simp: l lf(4,6) split_beta)
  }
qed simp_all

lemma Type_steps: "prims {Purge k} s (fst (Type now s k))"
  using liveEntry_steps [of k s now] by (auto simp: Type_def split: prod.split option.split)

lemma Type_result:
  assumes "storeInv s"
  shows "snd (Type now s k) = (case view now s k of None \<Rightarrow> ''none'' | Some (v, _) \<Rightarrow> typeName v)"
    "view now (fst (Type now s k)) = view now s"
proof -
  obtain s1 old where l: "liveEntry now s k = (s1, old)" by (cases "liveEntry now s k")
  note lf = liveEntry_facts [OF l assms]
  show "snd (Type now s k) = (case view now s k of None \<Rightarrow> ''none'' | Some (v, _) \<Rightarrow> typeName v)"
    "view now (fst (Type now s k)) = view now s"
    using lf(4,6) by (cases old; simp add: Type_def l content_def)+
qed

text \<open>Moving an entry.\<close>

lemma moveEntry_steps:
  assumes "src \<noteq> dst" and e: "getEntry s src = Some e" and "valueOk (evalue e)"
  shows "once {Purge dst, Unlink src} {Write dst} s (moveEntry s src dst e)"
    and "db (moveEntry s src dst e) = (db s)(src := None, dst \<mapsto> content e)"
proof -
  let ?L = "{Purge dst, Unlink src}"
  let ?s1 = "purgeIfPresent s dst"
  let ?s2 = "unlinkEntry ?s1 src e"
  have s1: "prims ?L s ?s1" "getEntry ?s1 = (getEntry s)(dst := None)"
    by (auto simp: purgeIfPresent_def getEntry_purge fun_eq_iff split: option.split intro: purge_prim)
  have d1: "db ?s1 = (db s)(dst := None)"
    using s1(2) by (auto simp: db_def fun_eq_iff)
  have "prim ?L ?s1 ?s2" using assms(1) e s1(2) by (intro prim_unlink) simp_all
  with s1(1) have "prims ?L s ?s2" by simp
  moreover have n: "getEntry ?s2 dst = None"
    by (simp add: getEntry_None_db d1)
  then have "prim {Write dst} ?s2 (moveEntry s src dst e)"
    using prim_write [of "evalue e" dst "{Write dst}" ?s2 "expiresAt e"] assms(3)
    by (simp add: moveEntry_def Let_def cloneEntryForRename_def)
  ultimately show "once ?L {Write dst} s (moveEntry s src dst e)" by (intro once_write)
  show "db (moveEntry s src dst e) = (db s)(src := None, dst \<mapsto> content e)"
    using d1 assms(1) by (auto simp: moveEntry_def Let_def cloneEntryForRename_def content_def fun_eq_iff)
qed


lemma Rename_spec:
  assumes inv: "storeInv s" and r: "Rename now s src dst = (s', err)"
  shows "once {Purge src, Purge dst, Unlink src} {Write dst} s s'"
    and "src \<noteq> dst \<Longrightarrow> view now s src = None \<Longrightarrow> err = Some ErrNoSuchKey \<and> view now s' = view now s"
    and "src \<noteq> dst \<Longrightarrow> view now s src = Some c \<Longrightarrow> err = None \<and> db s' = (db s)(src := None, dst \<mapsto> c)"
proof -
  obtain s1 old where l: "liveEntry now s src = (s1, old)" by (cases "liveEntry now s src")
  note lf = liveEntry_facts [OF l inv]
  have mv: "once {Purge src, Purge dst, Unlink src} {Write dst} s (moveEntry s src dst e)"
      "db (moveEntry s src dst e) = (db s)(src := None, dst \<mapsto> content e)"
    if "old = Some e" "src \<noteq> dst" for e
    using moveEntry_steps [OF that(2), of s e] lf(2,9) that(1) once_mono [of "{Purge dst, Unlink src}"]
    by auto
  have pu: "once {Purge src, Purge dst, Unlink src} {Write dst} s s1" by (rule once_quiet [OF prims_mono [OF lf(3)]]) simp
  show "once {Purge src, Purge dst, Unlink src} {Write dst} s s'"
    using r l mv(1) pu lf(9) by (cases old) (auto simp: Rename_def split: if_splits)
  show "src \<noteq> dst \<Longrightarrow> view now s src = None \<Longrightarrow> err = Some ErrNoSuchKey \<and> view now s' = view now s"
    using r l lf(4,6) by (cases old) (auto simp: Rename_def)
  show "src \<noteq> dst \<Longrightarrow> view now s src = Some c \<Longrightarrow> err = None \<and> db s' = (db s)(src := None, dst \<mapsto> c)"
    using r l lf(6,9) mv(2) by (cases old) (auto simp: Rename_def)
qed

lemma RenameNX_spec:
  assumes inv: "storeInv s" and r: "RenameNX now s src dst = (s', b)"
  shows "once {Purge src, Purge dst, Unlink src} {Write dst} s s'"
    and "src \<noteq> dst \<Longrightarrow> view now s src = None \<or> view now s dst \<noteq> None \<Longrightarrow> \<not> b \<and> view now s' = view now s"
    and "src \<noteq> dst \<Longrightarrow> view now s src = Some c \<Longrightarrow> view now s dst = None \<Longrightarrow>
         b \<and> db s' = (db s)(src := None, dst \<mapsto> c)"
proof -
  obtain s1 old where l: "liveEntry now s src = (s1, old)" by (cases "liveEntry now s src")
  note lf = liveEntry_facts [OF l inv]
  have mv: "once {Purge src, Purge dst, Unlink src} {Write dst} s (moveEntry s src dst e)"
      "db (moveEntry s src dst e) = (db s)(src := None, dst \<mapsto> content e)"
    if "old = Some e" "src \<noteq> dst" for e
    using moveEntry_steps [OF that(2), of s e] lf(2,9) that(1) once_mono [of "{Purge dst, Unlink src}"]
    by auto
  have pu: "once {Purge src, Purge dst, Unlink src} {Write dst} s s1" by (rule once_quiet [OF prims_mono [OF lf(3)]]) simp
  have vd: "view now s dst = (case getEntry s dst of None \<Rightarrow> None | Some e \<Rightarrow> if isExpired now e then None else Some (content e))"
    by (rule view_getEntry)
  show "once {Purge src, Purge dst, Unlink src} {Write dst} s s'"
    using r l mv(1) pu lf(9) by (cases old; cases "getEntry s dst") (auto simp: RenameNX_def split: if_splits)
  show "src \<noteq> dst \<Longrightarrow> view now s src = None \<or> view now s dst \<noteq> None \<Longrightarrow> \<not> b \<and> view now s' = view now s"
    using r l lf(4,6,9) vd by (cases old; cases "getEntry s dst") (auto simp: RenameNX_def split: if_splits)
  show "src \<noteq> dst \<Longrightarrow> view now s src = Some c \<Longrightarrow> view now s dst = None \<Longrightarrow>
         b \<and> db s' = (db s)(src := None, dst \<mapsto> c)"
    using r l lf(6,9) mv(2) vd by (cases old; cases "getEntry s dst") (auto simp: RenameNX_def split: if_splits)
qed

text \<open>Expiry.\<close>

lemma clone_expires [simp]: "(cloneEntryForRename e)\<lparr>expiresAt := t\<rparr> = newEntry (evalue e) t"
  by (simp add: cloneEntryForRename_def newEntry_def)

lemma ExpireAt_spec:
  assumes inv: "storeInv s" and r: "ExpireAt now s key at = (s', b)"
  shows "once {Purge key} {Write key} s s'"
    and "b \<longleftrightarrow> view now s key \<noteq> None"
    and "view now s key = Some (v, t) \<Longrightarrow> db s' = (db s)(key \<mapsto> (v, at))"
    and "view now s key = None \<Longrightarrow> view now s' = view now s"
proof -
  obtain s1 old where l: "liveEntry now s key = (s1, old)" by (cases "liveEntry now s key")
  note lf = liveEntry_facts [OF l inv]
  have "prim {Write key} s1 (replaceEntry s1 key old (newEntry (evalue e) at))" if "old = Some e" for e
    by (rule write_prim [OF lf(2)]) (use lf(9) that in auto)
  then show "once {Purge key} {Write key} s s'"
    using r l lf(3,9) once_write [OF lf(3)] by (cases old) (auto simp: ExpireAt_def intro: once_quiet)
  show "b \<longleftrightarrow> view now s key \<noteq> None" "view now s key = Some (v, t) \<Longrightarrow> db s' = (db s)(key \<mapsto> (v, at))"
    "view now s key = None \<Longrightarrow> view now s' = view now s"
    using r l lf(4,6,9) by (cases old; auto simp: ExpireAt_def content_def)+
qed

lemma Persist_spec:
  assumes inv: "storeInv s" and r: "Persist now s key = (s', b)"
  shows "once {Purge key} {Write key} s s'"
    and "view now s key = Some (v, t) \<Longrightarrow> (b \<longleftrightarrow> \<not> isZero t) \<and> db s' = (db s)(key \<mapsto> (v, zeroTime))"
    and "view now s key = None \<Longrightarrow> \<not> b \<and> view now s' = view now s"
proof -
  obtain s1 old where l: "liveEntry now s key = (s1, old)" by (cases "liveEntry now s key")
  note lf = liveEntry_facts [OF l inv]
  have "prim {Write key} s1 (replaceEntry s1 key old (newEntry (evalue e) zeroTime))" if "old = Some e" for e
    by (rule write_prim [OF lf(2)]) (use lf(9) that in auto)
  then show "once {Purge key} {Write key} s s'"
    using r l lf(3,9) once_write [OF lf(3)] by (cases old) (auto simp: Persist_def split: if_splits intro: once_quiet)
  have db: "db s key = Some (content e)" if "old = Some e" for e
    using lf(9) [OF that] lf(2) [symmetric] that by (simp add: db_def)
  show "view now s key = Some (v, t) \<Longrightarrow> (b \<longleftrightarrow> \<not> isZero t) \<and> db s' = (db s)(key \<mapsto> (v, zeroTime))"
    using r l lf(6,9) db by (cases old) (auto simp: Persist_def content_def isZero_def fun_eq_iff split: if_splits)
  show "view now s key = None \<Longrightarrow> \<not> b \<and> view now s' = view now s"
    using r l lf(4,6) by (cases old) (auto simp: Persist_def)
qed

lemma ttlWith_spec:
  assumes inv: "storeInv s" and r: "ttlWith unit now s key = (s', n)"
  shows "prims {Purge key} s s'"
    and "n = (case view now s key of
                None \<Rightarrow> - 2
              | Some (v, t) \<Rightarrow> if isZero t then - 1 else if t \<le> now then - 2 else unit (timeUntil now t))"
proof -
  obtain s1 old where l: "liveEntry now s key = (s1, old)" by (cases "liveEntry now s key")
  note lf = liveEntry_facts [OF l inv]
  have "prim {Purge key} s (purgeEntryLocked s (shardIndex key) key e)" if "old = Some e" for e
    using lf(2,9) that by (intro purge_prim) simp_all
  then show "prims {Purge key} s s'"
    using r l lf(3,9) by (cases old) (auto simp: ttlWith_def Let_def split: if_splits)
  have "timeUntil now t \<le> 0 \<longleftrightarrow> t \<le> now" for t
    by (auto simp: timeUntil_def maxInt64_def minInt64_def)
  then show "n = (case view now s key of None \<Rightarrow> - 2
      | Some (v, t) \<Rightarrow> if isZero t then - 1 else if t \<le> now then - 2 else unit (timeUntil now t))"
    using r l lf(6) by (cases old) (auto simp: ttlWith_def Let_def content_def split: if_splits)
qed



section \<open>The whole keyspace\<close>

lemma shard_keys:
  assumes "storeInv s"
  shows "(k, e) \<in> set (shm (shards s i)) \<longleftrightarrow> i = shardIndex k \<and> getEntry s k = Some e"
proof -
  have ok: "mapOk (shm (shards s i))" by (rule shardOk_mapOk [OF storeInv_shard [OF assms]])
  then have "(k, e) \<in> set (shm (shards s i)) \<longleftrightarrow> mapGet (shm (shards s i)) k = Some e" by simp
  also have "\<dots> \<longleftrightarrow> i = shardIndex k \<and> getEntry s k = Some e"
    using storeInv_routed [OF assms] by (metis getEntry_fold)
  finally show ?thesis .
qed

lemma filtered_keys:
  assumes "storeInv s"
  shows "distinct (concat (map (\<lambda>i. map fst (filter P (shm (shards s i)))) [0..<NumShards]))"
    and "set (concat (map (\<lambda>i. map fst (filter P (shm (shards s i)))) [0..<NumShards])) =
         {k. \<exists>e. getEntry s k = Some e \<and> P (k, e)}"
proof -
  let ?f = "\<lambda>i. map fst (filter P (shm (shards s i)))"
  have f: "k \<in> set (?f i) \<longleftrightarrow> i = shardIndex k \<and> (\<exists>e. getEntry s k = Some e \<and> P (k, e))" for k i
    using shard_keys [OF assms, of k _ i] by (force simp: image_iff)
  have u: "set (concat (map ?f ns)) = (\<Union>i\<in>set ns. set (?f i))" for ns by simp
  show "set (concat (map ?f [0..<NumShards])) = {k. \<exists>e. getEntry s k = Some e \<and> P (k, e)}"
    unfolding u by (auto simp: f simp del: set_map set_filter)
  have d: "distinct (?f i)" for i
    using shardOk_mapOk [OF storeInv_shard [OF assms]] by (simp add: distinct_map_filter)
  show "distinct (concat (map ?f [0..<NumShards]))"
    by (rule distinct_concat_routed [where idx = shardIndex]) (use d f in \<open>simp_all only: distinct_upt\<close>)
qed

lemma Keys_spec:
  assumes "storeInv s"
  shows "distinct (Keys now s p)" "set (Keys now s p) = {k. view now s k \<noteq> None \<and> matchGlob p k}"
  using filtered_keys [OF assms, of "\<lambda>(k, e). \<not> isExpired now e \<and> matchGlob p k"]
  by (auto simp: Keys_def view_getEntry split: option.splits if_splits)

lemma liveKeys_spec:
  assumes "storeInv s"
  shows "distinct (liveKeys now s)" "set (liveKeys now s) = dom (view now s)"
  using filtered_keys [OF assms, of "\<lambda>(k, e). \<not> isExpired now e"]
  by (auto simp: liveKeys_def view_getEntry split: option.splits if_splits)

lemma DBSize_spec:
  assumes "storeInv s"
  shows "DBSize now s = card (dom (view now s))"
proof -
  have "DBSize now s = length (liveKeys now s)"
    by (simp add: DBSize_def liveKeys_def length_concat comp_def)
  then show ?thesis using liveKeys_spec [OF assms, of now] by (metis distinct_card)
qed

text \<open>Flushing.\<close>

lemma flush_loop:
  assumes "mapOk mp" "\<forall>k e. (k, e) \<in> set mp \<longrightarrow> mapGet (shm (shards s i)) k = Some e" "i < NumShards"
  shows "let s' = fold (\<lambda>(k, e) s. purgeEntryLocked s i k e) mp s
    in prims (range Purge) s s' \<and>
       (\<forall>k. mapGet (shm (shards s' i)) k = (if k \<in> fst ` set mp then None else mapGet (shm (shards s i)) k)) \<and>
       (\<forall>j. j \<noteq> i \<longrightarrow> shards s' j = shards s j)"
  using assms
proof (induction mp arbitrary: s)
  case (Cons p mp)
  obtain k0 e0 where p: "p = (k0, e0)" by (cases p)
  let ?s = "purgeEntryLocked s i k0 e0"
  have ne: "k \<noteq> k0" if "(k, e) \<in> set mp" for k e using Cons.prems(1) p that by force
  have g: "mapGet (shm (shards ?s i)) k = (if k = k0 then None else mapGet (shm (shards s i)) k)" for k
    by (simp add: shards_purge)
  have pre: "\<forall>k e. (k, e) \<in> set mp \<longrightarrow> mapGet (shm (shards ?s i)) k = Some e"
    using Cons.prems(2) ne by (simp add: g p del: map_of_eq_Some_iff)
  have ok: "mapOk mp" using Cons.prems(1) by simp
  have "prim (range Purge) s ?s"
    by (rule prim_purge) (use Cons.prems p in \<open>simp_all del: map_of_eq_Some_iff\<close>)
  with Cons.IH [OF ok pre Cons.prems(3)] show ?case
    by (auto simp: p g Let_def shards_purge intro: converse_rtranclp_into_rtranclp)
qed simp

lemma flushShard_facts:
  assumes "storeInv s" "i < NumShards"
  shows "prims (range Purge) s (flushShard i s)" "shm (shards (flushShard i s) i) = []"
    "j \<noteq> i \<Longrightarrow> shards (flushShard i s) j = shards s j"
proof -
  have ok: "mapOk (shm (shards s i))" by (rule shardOk_mapOk [OF storeInv_shard [OF assms(1)]])
  then have "\<forall>k e. (k, e) \<in> set (shm (shards s i)) \<longrightarrow> mapGet (shm (shards s i)) k = Some e" by simp
  from flush_loop [OF ok this assms(2)]
  have *: "prims (range Purge) s (flushShard i s)"
    "\<And>k. mapGet (shm (shards (flushShard i s) i)) k =
      (if k \<in> fst ` set (shm (shards s i)) then None else mapGet (shm (shards s i)) k)"
    "\<And>j. j \<noteq> i \<Longrightarrow> shards (flushShard i s) j = shards s j"
    by (simp_all add: flushShard_def Let_def)
  show "prims (range Purge) s (flushShard i s)" "j \<noteq> i \<Longrightarrow> shards (flushShard i s) j = shards s j"
    by (fact *(1)) (rule *(3))
  have "mapGet (shm (shards (flushShard i s) i)) k = None" for k
    using *(2) by (auto simp: mapGet_None_iff)
  then show "shm (shards (flushShard i s) i) = []"
    by (metis list.set_cases mapGet_None_iff image_eqI ex_in_conv set_empty)
qed


lemma FlushDB_spec:
  assumes inv: "storeInv s"
  shows "storeInv (FlushDB s)" and "db (FlushDB s) = Map.empty"
    and "0 \<le> memDrift s \<Longrightarrow> memDrift (FlushDB s) = memDrift s" and "watch (FlushDB s) = (\<lambda>_. 0)"
    and "totalMem (FlushDB s) = 0"
    and "policyCache (FlushDB s) = policyCache s" "maxMemCache (FlushDB s) = maxMemCache s"
proof -
  have loop: "prims (range Purge) s (fold flushShard [0..<n] s) \<and>
      (\<forall>i<n. shm (shards (fold flushShard [0..<n] s) i) = [])" if "n \<le> NumShards" for n
    using that
  proof (induction n)
    case (Suc n)
    let ?s = "fold flushShard [0..<n] s"
    have st: "prims (range Purge) s ?s" and e: "\<forall>i<n. shm (shards ?s i) = []" using Suc by simp_all
    have "storeInv ?s" by (rule prims_inv [OF st inv])
    from flushShard_facts [OF this, of n] Suc.prems st e show ?case
      by (auto simp: less_Suc_eq intro: rtranclp_trans)
  qed simp
  let ?s = "fold flushShard [0..<NumShards] s"
  have st: "prims (range Purge) s ?s" and e: "\<And>i. i < NumShards \<Longrightarrow> shm (shards ?s i) = []"
    using loop [of NumShards] by simp_all
  show "storeInv (FlushDB s)" using prims_inv [OF st inv] by (simp add: FlushDB_def)
  show "db (FlushDB s) = Map.empty"
    using e by (auto simp: FlushDB_def db_def getEntry_def shardFor_def fun_eq_iff)
  show t: "totalMem (FlushDB s) = 0"
    using e by (simp add: FlushDB_def totalMem_def shardMem_def)
  show "0 \<le> memDrift s \<Longrightarrow> memDrift (FlushDB s) = memDrift s"
    using prims_drift [OF st inv] by (auto simp: FlushDB_def memDrift_def)
  show "watch (FlushDB s) = (\<lambda>_. 0)" by (simp add: FlushDB_def)
  show "policyCache (FlushDB s) = policyCache s" "maxMemCache (FlushDB s) = maxMemCache s"
    using prims_config [OF st] by (simp_all add: FlushDB_def)
qed

text \<open>Active expiry removes expired entries only: nothing a client can see changes.\<close>

lemma sampleKeys_facts:
  "storeInv s \<Longrightarrow> si < NumShards \<Longrightarrow> sampleKeys now s si ks = (s', ex, ch) \<Longrightarrow>
   prims (range Purge) s s' \<and> view now s' = view now s"
proof (induction now s si ks arbitrary: s' ex ch rule: sampleKeys.induct)
  case (2 now s si k ks)
  show ?case
  proof (cases "mapGet (shm (shards s si)) k")
    case None
    with 2 show ?thesis by simp
  next
    case (Some e)
    show ?thesis
    proof (cases "isExpired now e")
      case True
      let ?s = "purgeEntryLocked s si k e"
      have p: "prim (range Purge) s ?s" by (rule prim_purge [OF Some "2.prems"(2)]) simp
      have g: "getEntry s k = Some e"
        using Some storeInv_routed [OF "2.prems"(1) Some] by (metis getEntry_fold)
      have v: "view now ?s = view now s"
        using g True by (auto simp: view_def db_purge_at [OF "2.prems"(1) Some] db_def live_isExpired fun_eq_iff)
      obtain ex' ch' where "sampleKeys now ?s si ks = (s', ex', ch')"
        using "2.prems"(3) Some True by (auto simp del: map_of_eq_Some_iff split: prod.splits)
      from "2.IH"(2) [OF Some True prim_inv [OF p "2.prems"(1)] "2.prems"(2) this] v p show ?thesis
        by (auto intro: converse_rtranclp_into_rtranclp)
    next
      case False
      obtain ex' ch' where "sampleKeys now s si ks = (s', ex', ch')"
        using "2.prems"(3) Some False by (auto simp del: map_of_eq_Some_iff split: prod.splits)
      from "2.IH"(3) [OF Some False "2.prems"(1,2) this] show ?thesis by simp
    qed
  qed
qed simp

lemma resample_facts:
  "storeInv s \<Longrightarrow> si < NumShards \<Longrightarrow>
   prims (range Purge) s (resample orders now s si n) \<and> view now (resample orders now s si n) = view now s"
proof (induction n arbitrary: s)
  case (Suc n)
  obtain s1 ex ch where r: "sampleOnceShard (orders n) now s si = (s1, ex, ch)"
    by (cases "sampleOnceShard (orders n) now s si")
  have s1: "prims (range Purge) s s1" "view now s1 = view now s"
    using r sampleKeys_facts [OF Suc.prems] by (auto simp: sampleOnceShard_def split: if_splits)
  from Suc.IH [OF prims_inv [OF s1(1) Suc.prems(1)] Suc.prems(2)] s1 show ?case
    by (auto simp: r intro: rtranclp_trans)
qed simp

lemma sampleAllShards_facts:
  assumes "storeInv s"
  shows "prims (range Purge) s (sampleAllShards orders now s)" "view now (sampleAllShards orders now s) = view now s"
proof -
  have "set ns \<subseteq> {..<NumShards} \<Longrightarrow> storeInv s \<Longrightarrow>
    prims (range Purge) s (fold (\<lambda>si s. resample (orders si) now s si 16) ns s) \<and>
    view now (fold (\<lambda>si s. resample (orders si) now s si 16) ns s) = view now s" for ns s
  proof (induction ns arbitrary: s)
    case (Cons i ns)
    have r: "prims (range Purge) s (resample (orders i) now s i 16)" "view now (resample (orders i) now s i 16) = view now s"
      using resample_facts [of s i "orders i" now 16] Cons.prems by simp_all
    from Cons.IH [OF _ prims_inv [OF r(1) Cons.prems(2)]] Cons.prems r show ?case
      by (auto intro: rtranclp_trans)
  qed simp
  from this [of "[0..<NumShards]" s] assms
  show "prims (range Purge) s (sampleAllShards orders now s)" "view now (sampleAllShards orders now s) = view now s"
    by (auto simp: sampleAllShards_def atLeast0LessThan)
qed



section \<open>Scanning the keyspace\<close>

text \<open>What a full scan should list.\<close>

definition scanList :: "time \<Rightarrow> store \<Rightarrow> bytes \<Rightarrow> bytes \<Rightarrow> bytes list" where
  "scanList now s pat wantType =
     filter (\<lambda>k. wantType = [] \<or>
         (case view now s k of None \<Rightarrow> ''none'' | Some (v, _) \<Rightarrow> typeName v) = foldLower wantType)
       (sort (Keys now s (if pat = [] then ''*'' else pat)))"

lemma filterType_facts:
  "storeInv s \<Longrightarrow> filterType now s wantType ks = (s', l) \<Longrightarrow>
   storeInv s' \<and> view now s' = view now s \<and> prims (range Purge) s s' \<and>
   l = filter (\<lambda>k. (case view now s k of None \<Rightarrow> ''none'' | Some (v, _) \<Rightarrow> typeName v) = foldLower wantType) ks"
proof (induction ks arbitrary: s l)
  case (Cons k ks)
  obtain s1 t where t: "Type now s k = (s1, t)" by (cases "Type now s k")
  have s1: "prims {Purge k} s s1" "view now s1 = view now s"
    "t = (case view now s k of None \<Rightarrow> ''none'' | Some (v, _) \<Rightarrow> typeName v)"
    using Type_steps [of k s now] Type_result [OF Cons.prems(1), of now k] t by simp_all
  have inv: "storeInv s1" by (rule prims_inv [OF s1(1) Cons.prems(1)])
  obtain l' where l': "filterType now s1 wantType ks = (s', l')" "l = (if t = foldLower wantType then k # l' else l')"
    using Cons.prems(2) t by (auto split: prod.splits)
  have "prims (range Purge) s s1" by (rule prims_mono [OF s1(1)]) simp
  with Cons.IH [OF inv l'(1)] s1 l'(2) show ?case by (auto intro: rtranclp_trans)
qed simp

lemma Keys_view:
  assumes "storeInv s" "storeInv s'" "view now s' = view now s"
  shows "sort (Keys now s' p) = sort (Keys now s p)"
proof -
  have "set (Keys now s' p) = set (Keys now s p)" using Keys_spec(2) assms by simp
  then have "mset (Keys now s' p) = mset (Keys now s p)"
    using Keys_spec(1) assms(1,2) by (simp add: set_eq_iff_mset_eq_distinct)
  then show ?thesis by (metis properties_for_sort mset_sort sorted_sort)
qed

lemma scanList_view:
  "storeInv s \<Longrightarrow> storeInv s' \<Longrightarrow> view now s' = view now s \<Longrightarrow> scanList now s' pat w = scanList now s pat w"
  using Keys_view [of s s' now] by (simp add: scanList_def)

lemma Scan_spec:
  assumes inv: "storeInv s" and r: "Scan now s cursor pat cnt w = (s', res)"
  defines "L \<equiv> scanList now s pat w" and "n \<equiv> (if cnt \<le> 0 then 10 else cnt)"
  shows "storeInv s'" "view now s' = view now s" "prims (range Purge) s s'"
    "res = (if sint cursor \<ge> int (length L) then Inr (0, [])
            else let stop0 = wrap64 (sint cursor + n); stop = min stop0 (int (length L))
                 in if sint cursor < 0 \<or> stop < sint cursor then Inl PanicSliceBounds
                    else Inr (if stop < int (length L) then word_of_int stop else 0,
                              take (nat (stop - sint cursor)) (drop (nat (sint cursor)) L)))"
proof -
  let ?p = "if pat = [] then ''*'' else pat"
  let ?K = "sort (Keys now s ?p)"
  obtain s1 found where f: "(if w \<noteq> [] then filterType now s w ?K else (s, ?K)) = (s1, found)"
    by (cases "if w \<noteq> [] then filterType now s w ?K else (s, ?K)")
  have facts: "storeInv s1" "view now s1 = view now s" "prims (range Purge) s s1" "found = L"
    using f filterType_facts [OF inv, of now w ?K s1 found] inv
    by (auto simp: L_def scanList_def split: if_splits)
  have sr: "(s', res) = (let start = sint cursor
           in if start \<ge> int (length L) then (s1, Inr (0, []))
              else let stop0 = wrap64 (start + n);
                       stop = (if stop0 > int (length L) then int (length L) else stop0)
                   in if start < 0 \<or> stop < start then (s1, Inl PanicSliceBounds)
                      else (s1, Inr (if stop < int (length L) then word_of_int stop else 0,
                                    take (nat (stop - start)) (drop (nat start) L))))"
    using r f facts(4) by (simp add: Scan_def n_def Let_def cong: if_cong)
  then have "s' = s1" by (simp add: Let_def split: if_splits)
  with facts show "storeInv s'" "view now s' = view now s" "prims (range Purge) s s'" by simp_all
  show "res = (if sint cursor \<ge> int (length L) then Inr (0, [])
            else let stop0 = wrap64 (sint cursor + n); stop = min stop0 (int (length L))
                 in if sint cursor < 0 \<or> stop < sint cursor then Inl PanicSliceBounds
                    else Inr (if stop < int (length L) then word_of_int stop else 0,
                              take (nat (stop - sint cursor)) (drop (nat (sint cursor)) L)))"
    using sr by (auto simp: Let_def min_def split: if_splits)
qed


text \<open>A client that follows the cursor until it is 0.\<close>

fun scanClient :: "nat \<Rightarrow> time \<Rightarrow> store \<Rightarrow> 64 word \<Rightarrow> bytes \<Rightarrow> int \<Rightarrow> bytes \<Rightarrow> bytes list option" where
  "scanClient 0 now s c pat cnt w = None"
| "scanClient (Suc n) now s c pat cnt w =
     (case Scan now s c pat cnt w of
        (s', Inl _) \<Rightarrow> None
      | (s', Inr (c', ks)) \<Rightarrow>
          if c' = 0 then Some ks else map_option (\<lambda>r. ks @ r) (scanClient n now s' c' pat cnt w))"

lemma sint_word_of_int_small: "0 \<le> x \<Longrightarrow> x \<le> maxInt64 \<Longrightarrow> sint (word_of_int x :: 64 word) = x"
  using wrap64_sint [of x] wrap64_id [of x] by (simp add: in_int64_def minInt64_def)

lemma scanClient_from:
  assumes "storeInv s" "0 < cnt" "int (length (scanList now s pat w)) + cnt \<le> maxInt64"
    "pos \<le> length (scanList now s pat w)" "length (scanList now s pat w) - pos < n" "sint c = int pos"
  shows "scanClient n now s c pat cnt w = Some (drop pos (scanList now s pat w))"
  using assms
proof (induction n arbitrary: s pos c)
  case (Suc n)
  let ?L = "scanList now s pat w"
  obtain s' res where r: "Scan now s c pat cnt w = (s', res)" by (cases "Scan now s c pat cnt w")
  note sp = Scan_spec [OF Suc.prems(1) r]
  note pos = Suc.prems(6)
  have wr: "wrap64 (int pos + cnt) = int pos + cnt"
    using Suc.prems(2-4) by (intro wrap64_id) (simp add: in_int64_def minInt64_def)
  have L': "scanList now s' pat w = ?L" by (rule scanList_view [OF Suc.prems(1) sp(1,2)])
  show ?case
  proof (cases "int pos + cnt < int (length ?L)")
    case True
    let ?p = "nat (int pos + cnt)"
    define c' :: "64 word" where "c' = word_of_int (int pos + cnt)"
    have sc': "sint c' = int ?p"
      using Suc.prems(2-4) True sint_word_of_int_small [of "int pos + cnt"] by (simp add: c'_def)
    then have nz: "c' \<noteq> 0" using Suc.prems(2) by auto
    have res: "res = Inr (c', take (nat cnt) (drop pos ?L))"
      using sp(4) True Suc.prems(2) unfolding pos by (simp add: Let_def c'_def wr)
    have "scanClient n now s' c' pat cnt w = Some (drop ?p ?L)"
      using Suc.IH [OF sp(1) Suc.prems(2), of ?p c'] Suc.prems True L' sc' by auto
    moreover have "take (nat cnt) (drop pos ?L) @ drop ?p ?L = drop pos ?L"
    proof -
      have "?p = nat cnt + pos" using Suc.prems(2) by simp
      then have "drop ?p ?L = drop (nat cnt) (drop pos ?L)" by simp
      then show ?thesis by (simp only: append_take_drop_id)
    qed
    ultimately show ?thesis using res nz by (simp add: r)
  next
    case False
    then have "res = Inr (0, drop pos ?L)"
      using sp(4) Suc.prems(2,4) unfolding pos by (auto simp: Let_def wr min_def)
    then show ?thesis by (simp add: r)
  qed
qed simp

lemma scanClient_all:
  assumes "storeInv s" "0 < cnt" "int (length (scanList now s pat w)) + cnt \<le> maxInt64"
  shows "scanClient (Suc (length (scanList now s pat w))) now s 0 pat cnt w = Some (scanList now s pat w)"
  using scanClient_from [OF assms, of 0 "Suc (length (scanList now s pat w))" 0] by simp

end
