(* ===== verification/Store_Hash.thy ===== *)
theory Store_Hash
  imports Store_Strings
begin

text \<open>
  The hash methods of \<^verbatim>\<open>src/internal/store/store_collections.go\<close> and \<^verbatim>\<open>HIncrBy\<close> of
  \<^verbatim>\<open>store_hash_incr.go\<close>.  A hash is an association list with distinct fields.
\<close>

text \<open>How the methods that only read a hash start: the hash of the key, the LRU lists touched, or what
  the method returns when there is none.\<close>

definition readHash ::
  "time \<Rightarrow> store \<Rightarrow> bytes \<Rightarrow> 'a \<Rightarrow> ((bytes, bytes) gomap \<Rightarrow> 'a) \<Rightarrow> store \<times> 'a res" where
  "readHash now s key none f =
     (case liveEntry now s key of
        (s, None) \<Rightarrow> (s, Inr none)
      | (s, Some e) \<Rightarrow>
          (case evalue e of
             VHash h \<Rightarrow> (touchLRU s key e, Inr (f h))
           | _ \<Rightarrow> (s, Inl ErrWrongType)))"

definition HGet :: "time \<Rightarrow> store \<Rightarrow> bytes \<Rightarrow> bytes \<Rightarrow> store \<times> bytes option res" where
  "HGet now s key field =
     readHash now s key None
       (\<lambda>h. case mapGet h field of None \<Rightarrow> None | Some v \<Rightarrow> appendNil v)"

definition HGetAll :: "time \<Rightarrow> store \<Rightarrow> bytes \<Rightarrow> store \<times> (bytes, bytes) gomap option res" where
  "HGetAll now s key = readHash now s key None Some"

definition HExists :: "time \<Rightarrow> store \<Rightarrow> bytes \<Rightarrow> bytes \<Rightarrow> store \<times> bool res" where
  "HExists now s key field = readHash now s key False (\<lambda>h. mapGet h field \<noteq> None)"

definition HLen :: "time \<Rightarrow> store \<Rightarrow> bytes \<Rightarrow> store \<times> int res" where
  "HLen now s key = readHash now s key 0 (\<lambda>h. int (length h))"

text \<open>The loop over the pairs: the new hash and the number of new fields.\<close>

fun hsetLoop :: "(bytes, bytes) gomap \<Rightarrow> (bytes \<times> bytes) list \<Rightarrow> (bytes, bytes) gomap \<times> int" where
  "hsetLoop h [] = (h, 0)"
| "hsetLoop h ((fk, fv) # ps) =
     (case hsetLoop (mapPut fk fv h) ps of
        (h', n) \<Rightarrow> (h', if mapGet h fk = None then n + 1 else n))"

text \<open>The hash, its size and its expiry as the writing methods start from them.\<close>

definition hashOf :: "entry option \<Rightarrow> (bytes, bytes) gomap res" where
  "hashOf old =
     (case old of
        None \<Rightarrow> Inr []
      | Some e \<Rightarrow> (case evalue e of VHash h \<Rightarrow> Inr h | _ \<Rightarrow> Inl ErrWrongType))"

definition expiryOf :: "entry option \<Rightarrow> time" where
  "expiryOf old = (case old of None \<Rightarrow> zeroTime | Some e \<Rightarrow> expiresAt e)"

definition HSet :: "time \<Rightarrow> store \<Rightarrow> bytes \<Rightarrow> (bytes, bytes) gomap \<Rightarrow> store \<times> int res" where
  "HSet now s key pairs =
     (if pairs = [] then (s, Inr 0)
      else case liveEntry now s key of (s, old) \<Rightarrow>
        (case hashOf old of
           Inl err \<Rightarrow> (s, Inl err)
         | Inr oldH \<Rightarrow>
             (case hsetLoop oldH pairs of (h, newFields) \<Rightarrow>
                let ne = newEntry (VHash h) (expiryOf old)
                in case commitEntry s key old ne (estimateMem key ne - entrySize key old) of
                     (s, Some err) \<Rightarrow> (s, Inl err)
                   | (s, None) \<Rightarrow> (s, Inr newFields))))"

fun hdelLoop :: "(bytes, bytes) gomap \<Rightarrow> bytes list \<Rightarrow> (bytes, bytes) gomap \<times> int" where
  "hdelLoop h [] = (h, 0)"
| "hdelLoop h (f # fs) =
     (if mapGet h f \<noteq> None
      then (case hdelLoop (mapDel f h) fs of (h', n) \<Rightarrow> (h', n + 1))
      else hdelLoop h fs)"

definition HDel :: "time \<Rightarrow> store \<Rightarrow> bytes \<Rightarrow> bytes list \<Rightarrow> store \<times> int res" where
  "HDel now s key fs =
     (case liveEntry now s key of
        (s, None) \<Rightarrow> (s, Inr 0)
      | (s, Some e) \<Rightarrow>
          (case evalue e of
             VHash oldH \<Rightarrow>
               (case hdelLoop oldH fs of (h, n) \<Rightarrow>
                  if h = [] then (purgeEntryLocked s (shardIndex key) key e, Inr n)
                  else (replaceEntry s key (Some e) (newEntry (VHash h) (expiresAt e)), Inr n))
           | _ \<Rightarrow> (s, Inl ErrWrongType)))"

definition HSetNX :: "time \<Rightarrow> store \<Rightarrow> bytes \<Rightarrow> bytes \<Rightarrow> bytes \<Rightarrow> store \<times> int res" where
  "HSetNX now s key field val =
     (case liveEntry now s key of
        (s, Some e) \<Rightarrow>
          (case evalue e of
             VHash oldH \<Rightarrow>
               if mapGet oldH field \<noteq> None then (s, Inr 0)
               else let ne = newEntry (VHash (mapPut field val oldH)) (expiresAt e)
                    in (case commitEntry s key (Some e) ne (estimateMem key ne - estimateMem key e) of
                          (s, Some err) \<Rightarrow> (s, Inl err)
                        | (s, None) \<Rightarrow> (s, Inr 1))
           | _ \<Rightarrow> (s, Inl ErrWrongType))
      | (s, None) \<Rightarrow>
          (let ne = newEntry (VHash [(field, val)]) zeroTime
           in case commitEntry s key None ne (estimateMem key ne) of
                (s, Some err) \<Rightarrow> (s, Inl err)
              | (s, None) \<Rightarrow> (s, Inr 1)))"

definition HIncrBy :: "time \<Rightarrow> store \<Rightarrow> bytes \<Rightarrow> bytes \<Rightarrow> int \<Rightarrow> store \<times> int res" where
  "HIncrBy now s key field delta =
     (case liveEntry now s key of (s, old) \<Rightarrow>
        (case hashOf old of
           Inl err \<Rightarrow> (s, Inl err)
         | Inr h \<Rightarrow>
             (case (case mapGet h field of None \<Rightarrow> Inr 0 | Some v \<Rightarrow> intOf v) of
                Inl err \<Rightarrow> (s, Inl err)
              | Inr cur \<Rightarrow>
                  (case addInt64 cur delta of (nxt, okAdd) \<Rightarrow>
                     if \<not> okAdd then (s, Inl ErrIncrOverflow)
                     else let ne = newEntry (VHash (mapPut field (formatInt nxt) h)) (expiryOf old)
                          in case commitEntry s key old ne (estimateMem key ne - entrySize key old) of
                               (s, Some err) \<Rightarrow> (s, Inl err)
                             | (s, None) \<Rightarrow> (s, Inr nxt)))))"

text \<open>Floating-point numbers are 64-bit words (zero is the word 0); parsing, adding and printing them is a
  parameter.\<close>

record float_ops =
  floatParse :: "bytes \<Rightarrow> 64 word option"
  floatAdd :: "64 word \<Rightarrow> 64 word \<Rightarrow> 64 word"
  floatFormat :: "64 word \<Rightarrow> bytes"

definition floatOf :: "float_ops \<Rightarrow> bytes \<Rightarrow> 64 word res" where
  "floatOf fo b =
     (let t = trimSpace b
      in if t = [] then Inr 0
         else case floatParse fo t of None \<Rightarrow> Inl (ErrNotFloat t) | Some f \<Rightarrow> Inr f)"

definition HIncrByFloat ::
  "float_ops \<Rightarrow> time \<Rightarrow> store \<Rightarrow> bytes \<Rightarrow> bytes \<Rightarrow> 64 word \<Rightarrow> store \<times> 64 word res" where
  "HIncrByFloat fo now s key field delta =
     (case liveEntry now s key of (s, old) \<Rightarrow>
        (case hashOf old of
           Inl err \<Rightarrow> (s, Inl err)
         | Inr h \<Rightarrow>
             (case (case mapGet h field of None \<Rightarrow> Inr 0 | Some v \<Rightarrow> floatOf fo v) of
                Inl err \<Rightarrow> (s, Inl err)
              | Inr cur \<Rightarrow>
                  (let nxt = floatAdd fo cur delta;
                       ne = newEntry (VHash (mapPut field (floatFormat fo nxt) h)) (expiryOf old)
                   in case commitEntry s key old ne (estimateMem key ne - entrySize key old) of
                        (s, Some err) \<Rightarrow> (s, Inl err)
                      | (s, None) \<Rightarrow> (s, Inr nxt)))))"

section \<open>Reading\<close>

text \<open>A touched entry is the same entry for every client.\<close>

lemma touch_facts:
  assumes "storeInv s" and "getEntry s k = Some e"
  shows "storeInv (touchLRU s k e)" "prims L s (touchLRU s k e)" "db (touchLRU s k e) = db s"
    "view now (touchLRU s k e) = view now s"
  using storeInv_touch [OF assms] prim_touch [OF assms(2), of L] db_touch [OF assms(2)]
    view_cong [OF db_touch [OF assms(2)], of now] by auto

definition viewHash :: "(dvalue \<times> time) option \<Rightarrow> (bytes, bytes) gomap res" where
  "viewHash c =
     (case c of
        None \<Rightarrow> Inr []
      | Some (v, _) \<Rightarrow> (case v of VHash h \<Rightarrow> Inr h | _ \<Rightarrow> Inl ErrWrongType))"

lemma hashOf_view: "hashOf old = viewHash (map_option content old)"
  by (simp add: hashOf_def viewHash_def content_def split: option.split)

lemma expiryOf_view: "expiryOf old = viewTTL (map_option content old)"
  by (simp add: expiryOf_def viewTTL_def content_def split: option.split)

lemma viewHash_ok:
  assumes "storeInv s" and "viewHash (view now s k) = Inr h"
  shows "mapOk h"
  using assms(2) storeInv_valueOk [OF assms(1), of k]
  by (auto simp: viewHash_def view_getEntry content_def split: option.splits if_splits dvalue.splits)

lemma readHash_spec:
  assumes "storeInv s" and r: "readHash now s key none f = (s', r)"
  shows "prims {Purge key} s s'" "view now s' = view now s"
    "r = (case view now s key of None \<Rightarrow> Inr none | Some _ \<Rightarrow> map_sum id f (viewHash (view now s key)))"
proof -
  obtain s1 old where l: "liveEntry now s key = (s1, old)" by (cases "liveEntry now s key")
  note lf = liveEntry_facts [OF l assms(1)]
  have t: "prims {Purge key} s (touchLRU s key e)" "view now (touchLRU s key e) = view now s" if "old = Some e" for e
    using touch_facts [OF assms(1), of key e] lf(2,9) that by auto
  show "prims {Purge key} s s'" "view now s' = view now s"
    "r = (case view now s key of None \<Rightarrow> Inr none | Some _ \<Rightarrow> map_sum id f (viewHash (view now s key)))"
    using r l lf(3,4,6,9) t
    by (cases old; auto simp: readHash_def viewHash_def content_def split: dvalue.splits)+
qed


section \<open>Writing\<close>

lemma hsetLoop_spec:
  "mapOk h \<Longrightarrow> hsetLoop h ps = (h', n) \<Longrightarrow>
   mapOk h' \<and> mapGet h' = mapGet h ++ map_of (rev ps) \<and> n = int (card (fst ` set ps - fst ` set h))"
proof (induction h ps arbitrary: h' n rule: hsetLoop.induct)
  case (2 h fk fv ps)
  obtain h1 n1 where r: "hsetLoop (mapPut fk fv h) ps = (h1, n1)" by (cases "hsetLoop (mapPut fk fv h) ps")
  have IH: "mapOk h1" "mapGet h1 = mapGet (mapPut fk fv h) ++ map_of (rev ps)"
    "n1 = int (card (fst ` set ps - fst ` set (mapPut fk fv h)))"
    using "2.IH" [OF _ r] "2.prems"(1) by (simp_all add: fun_upd_def)
  have "mapGet h1 = mapGet h ++ map_of (rev ((fk, fv) # ps))"
    by (auto simp: IH(2) map_add_def fun_eq_iff split: option.split)
  moreover have "fst ` set ((fk, fv) # ps) - fst ` set h =
      (if fk \<in> fst ` set h then {} else {fk}) \<union> (fst ` set ps - fst ` set (mapPut fk fv h))"
    by auto
  then have "card (fst ` set ((fk, fv) # ps) - fst ` set h) =
      (if fk \<in> fst ` set h then 0 else 1) + card (fst ` set ps - fst ` set (mapPut fk fv h))"
    by auto
  moreover have "h' = h1" "n = (if mapGet h fk = None then n1 + 1 else n1)"
    using "2.prems"(2) r by simp_all
  ultimately show ?case using IH by (simp add: mapGet_None_iff)
qed simp

text \<open>The common tail of the methods that write a value computed from the visible one.\<close>

lemma commit_value:
  assumes "storeInv s" and "liveEntry now s key = (s1, old)" and "valueOk v"
    and "(case commitEntry s1 key old (newEntry v t) d of (s, Some err) \<Rightarrow> (s, Inl err) | (s, None) \<Rightarrow> (s, Inr n)) = (s', r)"
  shows "\<exists>err. wroteOrOOM key (v, t) s s' err \<and> r = outcome err n"
proof -
  obtain s2 err where c: "commitEntry s1 key old (newEntry v t) d = (s2, err)"
    by (cases "commitEntry s1 key old (newEntry v t) d")
  from commit_wrote [OF assms(1-3) c] assms(4) c show ?thesis by (cases err) auto
qed

lemma HSet_spec:
  assumes inv: "storeInv s" and ne: "pairs \<noteq> []" and r: "HSet now s key pairs = (s', r)"
  shows "case viewHash (view now s key) of
           Inl e \<Rightarrow> s' = s \<and> r = Inl e
         | Inr h \<Rightarrow> \<exists>h' err. mapOk h' \<and> mapGet h' = mapGet h ++ map_of (rev pairs) \<and>
             wroteOrOOM key (VHash h', viewTTL (view now s key)) s s' err \<and>
             r = outcome err (int (card (fst ` set pairs - fst ` set h)))"
proof -
  obtain s1 old where l: "liveEntry now s key = (s1, old)" by (cases "liveEntry now s key")
  note lf = liveEntry_facts [OF l inv]
  show ?thesis
  proof (cases "viewHash (view now s key)")
    case (Inl e)
    then obtain eo where "old = Some eo" using lf(6) by (cases old) (auto simp: viewHash_def)
    with Inl r l ne lf(6,9) show ?thesis by (auto simp: HSet_def hashOf_view)
  next
    case (Inr h)
    obtain h' n where hl: "hsetLoop h pairs = (h', n)" by (cases "hsetLoop h pairs")
    note hs = hsetLoop_spec [OF viewHash_ok [OF inv Inr] hl]
    let ?ne = "newEntry (VHash h') (viewTTL (view now s key))"
    have "(case commitEntry s1 key old ?ne (estimateMem key ?ne - entrySize key old) of
        (s, Some err) \<Rightarrow> (s, Inl err) | (s, None) \<Rightarrow> (s, Inr n)) = (s', r)"
      using r l ne Inr hl by (simp add: HSet_def hashOf_view expiryOf_view lf(6) Let_def)
    from commit_value [OF inv l _ this] hs Inr show ?thesis by auto
  qed
qed


lemma hdelLoop_spec:
  "mapOk h \<Longrightarrow> hdelLoop h fs = (h', n) \<Longrightarrow>
   mapOk h' \<and> (\<forall>f. mapGet h' f = (if f \<in> set fs then None else mapGet h f)) \<and>
   n = int (card (set fs \<inter> fst ` set h))"
proof (induction h fs arbitrary: h' n rule: hdelLoop.induct)
  case (2 h f fs)
  show ?case
  proof (cases "mapGet h f")
    case None
    then have "f \<notin> fst ` set h" by (simp add: mapGet_None_iff)
    then have "set (f # fs) \<inter> fst ` set h = set fs \<inter> fst ` set h" by auto
    with 2 None show ?thesis by auto
  next
    case (Some v)
    obtain n1 where n1: "hdelLoop (mapDel f h) fs = (h', n1)" "n = n1 + 1"
      using "2.prems"(2) Some by (auto simp del: map_of_eq_Some_iff split: prod.splits)
    have IH: "mapOk h'" "\<forall>g. mapGet h' g = (if g \<in> set fs then None else mapGet (mapDel f h) g)"
      "n1 = int (card (set fs \<inter> (fst ` set h - {f})))"
      using "2.IH"(1) [OF _ _ n1(1)] Some "2.prems"(1) by simp_all
    have f: "f \<in> fst ` set h" using Some by (metis mapGet_None_iff option.distinct(1))
    then have "set (f # fs) \<inter> fst ` set h = insert f (set fs \<inter> (fst ` set h - {f}))" by auto
    then have "card (set (f # fs) \<inter> fst ` set h) = Suc (card (set fs \<inter> (fst ` set h - {f})))" by simp
    with IH n1(2) show ?thesis by auto
  qed
qed simp

text \<open>A method that writes or removes what it read, without the memory guard.\<close>

lemma replace_live:
  assumes "storeInv s" and l: "liveEntry now s key = (s1, Some e)"
  shows "valueOk v \<Longrightarrow> once {Purge key} {Write key} s (replaceEntry s1 key (Some e) (newEntry v t))"
    "once {Purge key} {Write key} s (purgeEntryLocked s1 (shardIndex key) key e)"
    "db (replaceEntry s1 key (Some e) (newEntry v t)) = (db s)(key \<mapsto> (v, t))"
    "db (purgeEntryLocked s1 (shardIndex key) key e) = (db s)(key := None)"
proof -
  note lf = liveEntry_facts [OF l assms(1)]
  have s1: "s1 = s" using lf(9) [OF refl] by simp
  then have g: "getEntry s key = Some e" using lf(2) by simp
  have "valueOk v \<Longrightarrow> prim {Write key} s (replaceEntry s key (Some e) (newEntry v t))"
    using prim_write [of v key "{Write key}" s t] g by simp
  then show "valueOk v \<Longrightarrow> once {Purge key} {Write key} s (replaceEntry s1 key (Some e) (newEntry v t))"
    using s1 once_write [OF rtranclp.rtrancl_refl] by auto
  have "prim {Purge key} s (purgeEntryLocked s (shardIndex key) key e)"
    using g by (intro prim_purge) (simp_all add: getEntry_fold)
  then show "once {Purge key} {Write key} s (purgeEntryLocked s1 (shardIndex key) key e)" using s1 by (auto intro: once_quiet)
  show "db (replaceEntry s1 key (Some e) (newEntry v t)) = (db s)(key \<mapsto> (v, t))"
    "db (purgeEntryLocked s1 (shardIndex key) key e) = (db s)(key := None)"
    using s1 by (simp_all add: db_purge)
qed

lemma HDel_spec:
  assumes inv: "storeInv s" and r: "HDel now s key fs = (s', r)"
  shows "once {Purge key} {Write key} s s' \<and> (case view now s key of
           None \<Rightarrow> r = Inr 0 \<and> view now s' = view now s
         | Some (v, t) \<Rightarrow>
             (case v of
                VHash h \<Rightarrow> \<exists>h'. mapOk h' \<and> (\<forall>f. mapGet h' f = (if f \<in> set fs then None else mapGet h f)) \<and>
                  db s' = (db s)(key := if h' = [] then None else Some (VHash h', t)) \<and>
                  r = Inr (int (card (set fs \<inter> fst ` set h)))
              | _ \<Rightarrow> s' = s \<and> r = Inl ErrWrongType))"
proof -
  obtain s1 old where l: "liveEntry now s key = (s1, old)" by (cases "liveEntry now s key")
  note lf = liveEntry_facts [OF l inv]
  show ?thesis
  proof (cases old)
    case None
    with r l lf(3,4,6) show ?thesis by (auto simp: HDel_def intro: once_quiet)
  next
    case (Some e)
    show ?thesis
    proof (cases "evalue e")
      case (VHash h)
      have ok: "mapOk h" using lf(9) [OF Some] VHash by simp
      obtain h' n where d: "hdelLoop h fs = (h', n)" by (cases "hdelLoop h fs")
      note hs = hdelLoop_spec [OF ok d]
      note rl = replace_live [OF inv l [unfolded Some]]
      have "s' = (if h' = [] then purgeEntryLocked s1 (shardIndex key) key e
                  else replaceEntry s1 key (Some e) (newEntry (VHash h') (expiresAt e)))" "r = Inr n"
        using r l Some VHash d by (auto simp: HDel_def split: if_splits)
      with rl hs have st: "once {Purge key} {Write key} s s'"
        "db s' = (db s)(key := if h' = [] then None else Some (VHash h', expiresAt e))" by auto
      have v: "view now s key = Some (VHash h, expiresAt e)" using lf(6) Some VHash by (simp add: content_def)
      show ?thesis
        unfolding v option.case prod.case dvalue.case
        using st hs \<open>r = Inr n\<close> by blast
    qed (use r l Some lf(6,9) in \<open>auto simp: HDel_def content_def\<close>)
  qed
qed


lemma HSetNX_spec:
  assumes inv: "storeInv s" and r: "HSetNX now s key field val = (s', r)"
  shows "case viewHash (view now s key) of
           Inl e \<Rightarrow> s' = s \<and> r = Inl e
         | Inr h \<Rightarrow>
             if mapGet h field \<noteq> None then s' = s \<and> r = Inr 0
             else \<exists>err. wroteOrOOM key (VHash (mapPut field val h), viewTTL (view now s key)) s s' err \<and>
                        r = outcome err 1"
proof -
  obtain s1 old where l: "liveEntry now s key = (s1, old)" by (cases "liveEntry now s key")
  note lf = liveEntry_facts [OF l inv]
  show ?thesis
  proof (cases "viewHash (view now s key)")
    case (Inl e)
    then obtain eo where "old = Some eo" "\<forall>h. evalue eo \<noteq> VHash h" "e = ErrWrongType"
      using lf(6) by (cases old) (auto simp: viewHash_def content_def split: dvalue.splits)
    with Inl r l lf(9) show ?thesis by (auto simp: HSetNX_def split: dvalue.splits)
  next
    case (Inr h)
    show ?thesis
    proof (cases "mapGet h field")
      case (Some v)
      then obtain eo where "old = Some eo" "evalue eo = VHash h"
        using lf(6) Inr by (cases old) (auto simp: viewHash_def content_def split: dvalue.splits)
      with r l lf(9) Inr Some show ?thesis by (auto simp: HSetNX_def simp del: map_of_eq_Some_iff)
    next
      case None
      let ?ne = "newEntry (VHash (mapPut field val h)) (viewTTL (view now s key))"
      have "(case commitEntry s1 key old ?ne (estimateMem key ?ne - entrySize key old) of
          (s, Some err) \<Rightarrow> (s, Inl err) | (s, None) \<Rightarrow> (s, Inr 1)) = (s', r)"
        using r l lf(6) Inr None
        by (cases old) (auto simp: HSetNX_def viewHash_def viewTTL_def content_def entrySize_def Let_def
            split: dvalue.splits)
      from commit_value [OF inv l _ this] None Inr viewHash_ok [OF inv Inr] show ?thesis by simp
    qed
  qed
qed

lemma HIncrBy_spec:
  assumes inv: "storeInv s" and d: "in_int64 delta" and r: "HIncrBy now s key field delta = (s', r)"
  shows "case viewHash (view now s key) of
           Inl e \<Rightarrow> r = Inl e \<and> s' = s
         | Inr h \<Rightarrow>
             (case (case mapGet h field of None \<Rightarrow> Inr 0 | Some v \<Rightarrow> intOf v) of
                Inl e \<Rightarrow> r = Inl e \<and> view now s' = view now s
              | Inr cur \<Rightarrow>
                  if in_int64 (cur + delta)
                  then \<exists>err. wroteOrOOM key (VHash (mapPut field (formatInt (cur + delta)) h), viewTTL (view now s key)) s s' err \<and>
                             r = outcome err (cur + delta)
                  else r = Inl ErrIncrOverflow \<and> view now s' = view now s)"
    and "once (quietLabels key) {Write key} s s'"
proof -
  obtain s1 old where l: "liveEntry now s key = (s1, old)" by (cases "liveEntry now s key")
  note lf = liveEntry_facts [OF l inv]
  have st1: "once (quietLabels key) {Write key} s s1" by (rule once_quiet [OF prims_mono [OF lf(3)]]) simp
  have "(case viewHash (view now s key) of
           Inl e \<Rightarrow> r = Inl e \<and> s' = s
         | Inr h \<Rightarrow>
             (case (case mapGet h field of None \<Rightarrow> Inr 0 | Some v \<Rightarrow> intOf v) of
                Inl e \<Rightarrow> r = Inl e \<and> view now s' = view now s
              | Inr cur \<Rightarrow>
                  if in_int64 (cur + delta)
                  then \<exists>err. wroteOrOOM key (VHash (mapPut field (formatInt (cur + delta)) h), viewTTL (view now s key)) s s' err \<and>
                             r = outcome err (cur + delta)
                  else r = Inl ErrIncrOverflow \<and> view now s' = view now s)) \<and> once (quietLabels key) {Write key} s s'"
  proof (cases "viewHash (view now s key)")
    case (Inl e)
    then obtain eo where "old = Some eo" using lf(6) by (cases old) (auto simp: viewHash_def)
    with Inl r l lf(6,9) show ?thesis by (auto simp: HIncrBy_def hashOf_view)
  next
    case (Inr h)
    define cu :: "int res" where "cu = (case mapGet h field of None \<Rightarrow> Inr 0 | Some v \<Rightarrow> intOf v)"
    show ?thesis
    proof (cases cu)
      case (Inl e)
      have "HIncrBy now s key field delta = (s1, Inl e)"
        using l Inr Inl lf(6) by (simp add: HIncrBy_def hashOf_view cu_def)
      with r lf(4) st1 show ?thesis unfolding Inr sum.case cu_def [symmetric] Inl by simp
    next
      case cur: (Inr c)
      have "in_int64 c"
        using cur intOf_range by (auto simp: cu_def in_int64_def [of 0] maxInt64_def minInt64_def split: option.splits)
      then have ad: "addInt64 c delta = (if in_int64 (c + delta) then (c + delta, True) else (0, False))"
        using d by (rule addInt64_correct)
      let ?v = "VHash (mapPut field (formatInt (c + delta)) h)"
      let ?ne = "newEntry ?v (viewTTL (view now s key))"
      have ex: "HIncrBy now s key field delta = (if \<not> in_int64 (c + delta) then (s1, Inl ErrIncrOverflow)
          else case commitEntry s1 key old ?ne (estimateMem key ?ne - entrySize key old) of
            (s, Some err) \<Rightarrow> (s, Inl err) | (s, None) \<Rightarrow> (s, Inr (c + delta)))"
        using l Inr cur ad unfolding cu_def
        by (simp add: HIncrBy_def hashOf_view expiryOf_view lf(6) Let_def)
      have v: "valueOk ?v" using viewHash_ok [OF inv Inr] by simp
      show ?thesis
      proof (cases "in_int64 (c + delta)")
        case True
        with r ex have "(case commitEntry s1 key old ?ne (estimateMem key ?ne - entrySize key old) of
            (s, Some err) \<Rightarrow> (s, Inl err) | (s, None) \<Rightarrow> (s, Inr (c + delta))) = (s', r)" by simp
        from commit_value [OF inv l v this] True show ?thesis
          unfolding Inr sum.case cu_def [symmetric] cur by (auto dest: wroteOrOOM_once)
      next
        case False
        with r ex lf(4) st1 show ?thesis unfolding Inr sum.case cu_def [symmetric] cur by auto
      qed
    qed
  qed
  then show "case viewHash (view now s key) of
           Inl e \<Rightarrow> r = Inl e \<and> s' = s
         | Inr h \<Rightarrow>
             (case (case mapGet h field of None \<Rightarrow> Inr 0 | Some v \<Rightarrow> intOf v) of
                Inl e \<Rightarrow> r = Inl e \<and> view now s' = view now s
              | Inr cur \<Rightarrow>
                  if in_int64 (cur + delta)
                  then \<exists>err. wroteOrOOM key (VHash (mapPut field (formatInt (cur + delta)) h), viewTTL (view now s key)) s s' err \<and>
                             r = outcome err (cur + delta)
                  else r = Inl ErrIncrOverflow \<and> view now s' = view now s)"
    and "once (quietLabels key) {Write key} s s'" by (rule conjunct1, rule conjunct2)
qed

lemma HIncrByFloat_spec:
  assumes inv: "storeInv s" and r: "HIncrByFloat fo now s key field delta = (s', r)"
  shows "once (quietLabels key) {Write key} s s' \<and>
    (case viewHash (view now s key) of
       Inl e \<Rightarrow> r = Inl e \<and> s' = s
     | Inr h \<Rightarrow>
         (case (case mapGet h field of None \<Rightarrow> Inr 0 | Some v \<Rightarrow> floatOf fo v) of
            Inl e \<Rightarrow> r = Inl e \<and> view now s' = view now s
          | Inr cur \<Rightarrow>
              \<exists>err. wroteOrOOM key (VHash (mapPut field (floatFormat fo (floatAdd fo cur delta)) h), viewTTL (view now s key)) s s' err \<and>
                    r = outcome err (floatAdd fo cur delta)))"
proof -
  obtain s1 old where l: "liveEntry now s key = (s1, old)" by (cases "liveEntry now s key")
  note lf = liveEntry_facts [OF l inv]
  have st1: "once (quietLabels key) {Write key} s s1" by (rule once_quiet [OF prims_mono [OF lf(3)]]) simp
  show ?thesis
  proof (cases "viewHash (view now s key)")
    case (Inl e)
    then obtain eo where "old = Some eo" using lf(6) by (cases old) (auto simp: viewHash_def)
    with Inl r l lf(6,9) show ?thesis by (auto simp: HIncrByFloat_def hashOf_view)
  next
    case (Inr h)
    define cu :: "64 word res" where "cu = (case mapGet h field of None \<Rightarrow> Inr 0 | Some v \<Rightarrow> floatOf fo v)"
    show ?thesis
    proof (cases cu)
      case (Inl e)
      have "HIncrByFloat fo now s key field delta = (s1, Inl e)"
        using l Inr Inl lf(6) by (simp add: HIncrByFloat_def hashOf_view cu_def)
      with r lf(4) st1 show ?thesis unfolding Inr sum.case cu_def [symmetric] Inl by simp
    next
      case cur: (Inr c)
      let ?v = "VHash (mapPut field (floatFormat fo (floatAdd fo c delta)) h)"
      let ?ne = "newEntry ?v (viewTTL (view now s key))"
      have cm: "(case commitEntry s1 key old ?ne (estimateMem key ?ne - entrySize key old) of
            (s, Some err) \<Rightarrow> (s, Inl err) | (s, None) \<Rightarrow> (s, Inr (floatAdd fo c delta))) = (s', r)"
        using l Inr cur r unfolding cu_def
        by (simp add: HIncrByFloat_def hashOf_view expiryOf_view lf(6) Let_def)
      have "valueOk ?v" using viewHash_ok [OF inv Inr] by simp
      from commit_value [OF inv l this cm] show ?thesis
        unfolding Inr sum.case cu_def [symmetric] cur by (auto dest: wroteOrOOM_once)
    qed
  qed
qed

end
