(* ===== verification/Store_Set.thy ===== *)
theory Store_Set
  imports Store_Hash
begin

text \<open>
  The set methods of \<^verbatim>\<open>src/internal/store/store_collections.go\<close>.  A set is a list of distinct
  members, in the order Go iterates over the map.
\<close>

definition readSet ::
  "time \<Rightarrow> store \<Rightarrow> bytes \<Rightarrow> 'a \<Rightarrow> (bytes list \<Rightarrow> 'a) \<Rightarrow> store \<times> 'a res" where
  "readSet now s key none f =
     (case liveEntry now s key of
        (s, None) \<Rightarrow> (s, Inr none)
      | (s, Some e) \<Rightarrow>
          (case evalue e of
             VSet st \<Rightarrow> (touchLRU s key e, Inr (f st))
           | _ \<Rightarrow> (s, Inl ErrWrongType)))"

definition SMembers :: "time \<Rightarrow> store \<Rightarrow> bytes \<Rightarrow> store \<times> bytes list option res" where
  "SMembers now s key = readSet now s key None Some"

definition SIsMember :: "time \<Rightarrow> store \<Rightarrow> bytes \<Rightarrow> bytes \<Rightarrow> store \<times> bool res" where
  "SIsMember now s key member = readSet now s key False (\<lambda>st. member \<in> set st)"

definition SCard :: "time \<Rightarrow> store \<Rightarrow> bytes \<Rightarrow> store \<times> int res" where
  "SCard now s key = readSet now s key 0 (\<lambda>st. int (length st))"

definition setOf :: "entry option \<Rightarrow> bytes list res" where
  "setOf old =
     (case old of
        None \<Rightarrow> Inr []
      | Some e \<Rightarrow> (case evalue e of VSet st \<Rightarrow> Inr st | _ \<Rightarrow> Inl ErrWrongType))"

fun saddLoop :: "bytes list \<Rightarrow> bytes list \<Rightarrow> bytes list \<times> int" where
  "saddLoop st [] = (st, 0)"
| "saddLoop st (k # ks) =
     (if k \<in> set st then saddLoop st ks
      else case saddLoop (st @ [k]) ks of (st', n) \<Rightarrow> (st', n + 1))"

definition SAdd :: "time \<Rightarrow> store \<Rightarrow> bytes \<Rightarrow> bytes list \<Rightarrow> store \<times> int res" where
  "SAdd now s key members =
     (if members = [] then (s, Inr 0)
      else case liveEntry now s key of (s, old) \<Rightarrow>
        (case setOf old of
           Inl err \<Rightarrow> (s, Inl err)
         | Inr oldSt \<Rightarrow>
             (case saddLoop oldSt members of (st, added) \<Rightarrow>
                let ne = newEntry (VSet st) (expiryOf old)
                in case commitEntry s key old ne (estimateMem key ne - entrySize key old) of
                     (s, Some err) \<Rightarrow> (s, Inl err)
                   | (s, None) \<Rightarrow> (s, Inr added))))"

fun sremLoop :: "bytes list \<Rightarrow> bytes list \<Rightarrow> bytes list \<times> int" where
  "sremLoop st [] = (st, 0)"
| "sremLoop st (k # ks) =
     (if k \<in> set st
      then (case sremLoop (remove1 k st) ks of (st', n) \<Rightarrow> (st', n + 1))
      else sremLoop st ks)"

definition SRem :: "time \<Rightarrow> store \<Rightarrow> bytes \<Rightarrow> bytes list \<Rightarrow> store \<times> int res" where
  "SRem now s key members =
     (case liveEntry now s key of
        (s, None) \<Rightarrow> (s, Inr 0)
      | (s, Some e) \<Rightarrow>
          (case evalue e of
             VSet oldSt \<Rightarrow>
               (case sremLoop oldSt members of (st, n) \<Rightarrow>
                  if st = [] then (purgeEntryLocked s (shardIndex key) key e, Inr n)
                  else (replaceEntry s key (Some e) (newEntry (VSet st) (expiresAt e)), Inr n))
           | _ \<Rightarrow> (s, Inl ErrWrongType)))"

text \<open>The set that replaces whatever the key holds; it may be empty.\<close>

definition ReplaceSet :: "time \<Rightarrow> store \<Rightarrow> bytes \<Rightarrow> bytes list \<Rightarrow> store \<times> store_error option" where
  "ReplaceSet now s key members =
     (case liveEntry now s key of (s, old) \<Rightarrow>
        let ne = newEntry (VSet (fst (saddLoop [] members))) (expiryOf old)
        in commitEntry s key old ne (estimateMem key ne - entrySize key old))"

section \<open>Reading\<close>

definition viewSet :: "(dvalue \<times> time) option \<Rightarrow> bytes list res" where
  "viewSet c =
     (case c of
        None \<Rightarrow> Inr []
      | Some (v, _) \<Rightarrow> (case v of VSet st \<Rightarrow> Inr st | _ \<Rightarrow> Inl ErrWrongType))"

lemma setOf_view: "setOf old = viewSet (map_option content old)"
  by (simp add: setOf_def viewSet_def content_def split: option.split)

lemma viewSet_ok:
  assumes "storeInv s" and "viewSet (view now s k) = Inr st"
  shows "distinct st"
  using assms(2) storeInv_valueOk [OF assms(1), of k]
  by (auto simp: viewSet_def view_getEntry content_def split: option.splits if_splits dvalue.splits)

lemma readSet_spec:
  assumes "storeInv s" and r: "readSet now s key none f = (s', r)"
  shows "prims {Purge key} s s'" "view now s' = view now s"
    "r = (case view now s key of None \<Rightarrow> Inr none | Some _ \<Rightarrow> map_sum id f (viewSet (view now s key)))"
proof -
  obtain s1 old where l: "liveEntry now s key = (s1, old)" by (cases "liveEntry now s key")
  note lf = liveEntry_facts [OF l assms(1)]
  have t: "prims {Purge key} s (touchLRU s key e)" "view now (touchLRU s key e) = view now s" if "old = Some e" for e
    using touch_facts [OF assms(1), of key e] lf(2,9) that by auto
  show "prims {Purge key} s s'" "view now s' = view now s"
    "r = (case view now s key of None \<Rightarrow> Inr none | Some _ \<Rightarrow> map_sum id f (viewSet (view now s key)))"
    using r l lf(3,4,6,9) t
    by (cases old; auto simp: readSet_def viewSet_def content_def split: dvalue.splits)+
qed


section \<open>Writing\<close>

lemma saddLoop_spec:
  "distinct st \<Longrightarrow> saddLoop st ks = (st', n) \<Longrightarrow>
   distinct st' \<and> set st' = set st \<union> set ks \<and> n = int (card (set ks - set st))"
proof (induction st ks arbitrary: st' n rule: saddLoop.induct)
  case (2 st k ks)
  show ?case
  proof (cases "k \<in> set st")
    case True
    with "2.IH"(1) "2.prems" show ?thesis by (auto simp: insert_Diff_if)
  next
    case False
    obtain st1 n1 where r: "saddLoop (st @ [k]) ks = (st1, n1)" by (cases "saddLoop (st @ [k]) ks")
    have IH: "distinct st1" "set st1 = set st \<union> set (k # ks)" "n1 = int (card (set ks - set (st @ [k])))"
      using "2.IH"(2) [OF False _ r] "2.prems"(1) False by auto
    have "set (k # ks) - set st = insert k (set ks - set (st @ [k]))" using False by auto
    then have "card (set (k # ks) - set st) = Suc (card (set ks - set (st @ [k])))" by simp
    with IH "2.prems"(2) False r show ?thesis by simp
  qed
qed simp

lemma SAdd_spec:
  assumes inv: "storeInv s" and ne: "members \<noteq> []" and r: "SAdd now s key members = (s', r)"
  shows "case viewSet (view now s key) of
           Inl e \<Rightarrow> s' = s \<and> r = Inl e
         | Inr st \<Rightarrow> \<exists>st' err. distinct st' \<and> set st' = set st \<union> set members \<and>
             wroteOrOOM key (VSet st', viewTTL (view now s key)) s s' err \<and>
             r = outcome err (int (card (set members - set st)))"
proof -
  obtain s1 old where l: "liveEntry now s key = (s1, old)" by (cases "liveEntry now s key")
  note lf = liveEntry_facts [OF l inv]
  show ?thesis
  proof (cases "viewSet (view now s key)")
    case (Inl e)
    then obtain eo where "old = Some eo" using lf(6) by (cases old) (auto simp: viewSet_def)
    with Inl r l ne lf(6,9) show ?thesis by (auto simp: SAdd_def setOf_view)
  next
    case (Inr st)
    obtain st' n where sl: "saddLoop st members = (st', n)" by (cases "saddLoop st members")
    note ss = saddLoop_spec [OF viewSet_ok [OF inv Inr] sl]
    let ?ne = "newEntry (VSet st') (viewTTL (view now s key))"
    have "(case commitEntry s1 key old ?ne (estimateMem key ?ne - entrySize key old) of
        (s, Some err) \<Rightarrow> (s, Inl err) | (s, None) \<Rightarrow> (s, Inr n)) = (s', r)"
      using r l ne Inr sl by (simp add: SAdd_def setOf_view expiryOf_view lf(6) Let_def)
    from commit_value [OF inv l _ this] ss Inr show ?thesis by auto
  qed
qed

lemma sremLoop_spec:
  "distinct st \<Longrightarrow> sremLoop st ks = (st', n) \<Longrightarrow>
   distinct st' \<and> set st' = set st - set ks \<and> n = int (card (set ks \<inter> set st))"
proof (induction st ks arbitrary: st' n rule: sremLoop.induct)
  case (2 st k ks)
  show ?case
  proof (cases "k \<in> set st")
    case False
    with "2.IH"(2) "2.prems" show ?thesis by auto
  next
    case True
    obtain st1 n1 where r: "sremLoop (remove1 k st) ks = (st1, n1)" by (cases "sremLoop (remove1 k st) ks")
    have IH: "distinct st1" "set st1 = set st - set (k # ks)" "n1 = int (card (set ks \<inter> (set st - {k})))"
      using "2.IH"(1) [OF True _ r] "2.prems"(1) by auto
    have "set (k # ks) \<inter> set st = insert k (set ks \<inter> (set st - {k}))" using True by auto
    then have "card (set (k # ks) \<inter> set st) = Suc (card (set ks \<inter> (set st - {k})))" by simp
    with IH "2.prems"(2) True r show ?thesis by simp
  qed
qed simp

lemma SRem_spec:
  assumes inv: "storeInv s" and r: "SRem now s key ms = (s', r)"
  shows "once {Purge key} {Write key} s s' \<and> (case view now s key of
           None \<Rightarrow> r = Inr 0 \<and> view now s' = view now s
         | Some (v, t) \<Rightarrow>
             (case v of
                VSet st \<Rightarrow> \<exists>st'. distinct st' \<and> set st' = set st - set ms \<and>
                  db s' = (db s)(key := if st' = [] then None else Some (VSet st', t)) \<and>
                  r = Inr (int (card (set ms \<inter> set st)))
              | _ \<Rightarrow> s' = s \<and> r = Inl ErrWrongType))"
proof -
  obtain s1 old where l: "liveEntry now s key = (s1, old)" by (cases "liveEntry now s key")
  note lf = liveEntry_facts [OF l inv]
  show ?thesis
  proof (cases old)
    case None
    with r l lf(3,4,6) show ?thesis by (auto simp: SRem_def intro: once_quiet)
  next
    case (Some e)
    show ?thesis
    proof (cases "evalue e")
      case (VSet st)
      have ok: "distinct st" using lf(9) [OF Some] VSet by simp
      obtain st' n where d: "sremLoop st ms = (st', n)" by (cases "sremLoop st ms")
      note hs = sremLoop_spec [OF ok d]
      note rl = replace_live [OF inv l [unfolded Some]]
      have "s' = (if st' = [] then purgeEntryLocked s1 (shardIndex key) key e
                  else replaceEntry s1 key (Some e) (newEntry (VSet st') (expiresAt e)))" "r = Inr n"
        using r l Some VSet d by (auto simp: SRem_def split: if_splits)
      with rl hs have st: "once {Purge key} {Write key} s s'"
        "db s' = (db s)(key := if st' = [] then None else Some (VSet st', expiresAt e))" by auto
      have v: "view now s key = Some (VSet st, expiresAt e)" using lf(6) Some VSet by (simp add: content_def)
      show ?thesis
        unfolding v option.case prod.case dvalue.case
        using st hs \<open>r = Inr n\<close> by blast
    qed (use r l Some lf(6,9) in \<open>auto simp: SRem_def content_def\<close>)
  qed
qed

lemma ReplaceSet_spec:
  assumes inv: "storeInv s" and r: "ReplaceSet now s key members = (s', err)"
  shows "\<exists>st'. distinct st' \<and> set st' = set members \<and>
    wroteOrOOM key (VSet st', viewTTL (view now s key)) s s' err"
proof -
  obtain s1 old where l: "liveEntry now s key = (s1, old)" by (cases "liveEntry now s key")
  obtain st' n where sl: "saddLoop [] members = (st', n)" by (cases "saddLoop [] members")
  note ss = saddLoop_spec [OF distinct.simps(1) [THEN iffD2, OF TrueI] sl]
  let ?ne = "newEntry (VSet st') (viewTTL (view now s key))"
  have "commitEntry s1 key old ?ne (estimateMem key ?ne - entrySize key old) = (s', err)"
    using r l sl liveEntry_facts(6) [OF l inv] by (simp add: ReplaceSet_def expiryOf_view Let_def)
  from commit_wrote [OF inv l _ this] ss show ?thesis by auto
qed

end
