(* ===== verification/Store_List.thy ===== *)
theory Store_List
  imports Store_Hash
begin

text \<open>
  The list methods of \<^verbatim>\<open>src/internal/store/store_collections.go\<close> and \<^verbatim>\<open>store_list_extra.go\<close>.
  \<open>LPop\<close>, \<open>RPop\<close>, \<open>LRem\<close> and \<open>LSet\<close> change the list an entry points to in place; the other writing
  methods build a new list.
\<close>

definition normalizeListIndex :: "int \<Rightarrow> nat \<Rightarrow> int" where
  "normalizeListIndex idx n =
     (let idx = (if idx < 0 then int n + idx else idx)
      in if idx < 0 then 0 else if idx \<ge> int n then int n - 1 else idx)"

definition listOf :: "entry option \<Rightarrow> bytes list res" where
  "listOf old =
     (case old of
        None \<Rightarrow> Inr []
      | Some e \<Rightarrow> (case evalue e of VList l \<Rightarrow> Inr l | _ \<Rightarrow> Inl ErrWrongType))"

definition listLenLocked :: "time \<Rightarrow> store \<Rightarrow> bytes \<Rightarrow> store \<times> int res" where
  "listLenLocked now s key =
     (case liveEntry now s key of
        (s, None) \<Rightarrow> (s, Inr 0)
      | (s, Some e) \<Rightarrow>
          (case evalue e of VList l \<Rightarrow> (s, Inr (int (length l))) | _ \<Rightarrow> (s, Inl ErrWrongType)))"

definition LLen :: "time \<Rightarrow> store \<Rightarrow> bytes \<Rightarrow> store \<times> int res" where
  "LLen now s key = listLenLocked now s key"

text \<open>\<^verbatim>\<open>PushFront\<close> or \<^verbatim>\<open>PushBack\<close> of each value in turn\<close>

definition pushValues :: "bool \<Rightarrow> bytes list \<Rightarrow> bytes list \<Rightarrow> bytes list" where
  "pushValues left vals l = fold (\<lambda>v l. if left then v # l else l @ [v]) vals l"

definition listPush :: "time \<Rightarrow> store \<Rightarrow> bytes \<Rightarrow> bytes list \<Rightarrow> bool \<Rightarrow> store \<times> int res" where
  "listPush now s key vals left =
     (if vals = [] then listLenLocked now s key
      else case liveEntry now s key of (s, old) \<Rightarrow>
        (case listOf old of
           Inl err \<Rightarrow> (s, Inl err)
         | Inr oldL \<Rightarrow>
             (let nl = pushValues left vals oldL;
                  ne = newEntry (VList nl) (expiryOf old)
              in case commitEntry s key old ne (estimateMem key ne - entrySize key old) of
                   (s, Some err) \<Rightarrow> (s, Inl err)
                 | (s, None) \<Rightarrow> (s, Inr (int (length nl))))))"

definition LPush :: "time \<Rightarrow> store \<Rightarrow> bytes \<Rightarrow> bytes list \<Rightarrow> store \<times> int res" where
  "LPush now s key vals = listPush now s key vals True"

definition RPush :: "time \<Rightarrow> store \<Rightarrow> bytes \<Rightarrow> bytes list \<Rightarrow> store \<times> int res" where
  "RPush now s key vals = listPush now s key vals False"

definition listPushX :: "time \<Rightarrow> store \<Rightarrow> bytes \<Rightarrow> bytes list \<Rightarrow> bool \<Rightarrow> store \<times> int res" where
  "listPushX now s key vals left =
     (if vals = [] then listLenLocked now s key
      else case liveEntry now s key of
             (s, None) \<Rightarrow> (s, Inr 0)
           | (s, Some e) \<Rightarrow>
               (case evalue e of
                  VList oldL \<Rightarrow>
                    (let nl = pushValues left vals oldL;
                         ne = newEntry (VList nl) (expiresAt e)
                     in case commitEntry s key (Some e) ne (estimateMem key ne - estimateMem key e) of
                          (s, Some err) \<Rightarrow> (s, Inl err)
                        | (s, None) \<Rightarrow> (s, Inr (int (length nl))))
                | _ \<Rightarrow> (s, Inl ErrWrongType)))"

definition LPushX :: "time \<Rightarrow> store \<Rightarrow> bytes \<Rightarrow> bytes list \<Rightarrow> store \<times> int res" where
  "LPushX now s key vals = listPushX now s key vals True"

definition RPushX :: "time \<Rightarrow> store \<Rightarrow> bytes \<Rightarrow> bytes list \<Rightarrow> store \<times> int res" where
  "RPushX now s key vals = listPushX now s key vals False"

text \<open>\<^verbatim>\<open>make([][]byte, 0, count)\<close> panics when the capacity, at 24 bytes per slice header, exceeds the
  address space of 48 bits.\<close>

definition maxSliceCap :: int where
  "maxSliceCap = 281474976710656 div 24"

text \<open>The entry after \<open>touchLRU\<close>, which may have set its list element.\<close>

definition touchedEntry :: "store \<Rightarrow> bytes \<Rightarrow> entry \<Rightarrow> entry" where
  "touchedEntry s key e = the (getEntry (touchLRU s key e) key)"

text \<open>The two pops differ in the end they take from; \<open>popFrom\<close> gives the elements taken and those
  left.\<close>

definition listPop ::
  "(nat \<Rightarrow> bytes list \<Rightarrow> bytes list \<times> bytes list) \<Rightarrow> time \<Rightarrow> store \<Rightarrow> bytes \<Rightarrow> int \<Rightarrow> store \<times> bytes list option res" where
  "listPop popFrom now s key cnt =
     (let cnt = (if cnt \<le> 0 then 1 else cnt)
      in case liveEntry now s key of
           (s, None) \<Rightarrow> (s, Inr None)
         | (s, Some e) \<Rightarrow>
             (case evalue e of
                VList l \<Rightarrow>
                  (let s1 = touchLRU s key e
                   in if l = [] then (s1, Inr (Some []))
                      else if cnt > maxSliceCap then (s1, Inl PanicMakeSlice)
                      else case popFrom (nat cnt) l of (out, rest) \<Rightarrow>
                        (commitList s1 key (touchedEntry s key e) rest, Inr (Some out)))
              | _ \<Rightarrow> (s, Inl ErrWrongType)))"

definition popFront :: "nat \<Rightarrow> bytes list \<Rightarrow> bytes list \<times> bytes list" where
  "popFront n l = (take n l, drop n l)"

definition popBack :: "nat \<Rightarrow> bytes list \<Rightarrow> bytes list \<times> bytes list" where
  "popBack n l = (take n (rev l), rev (drop n (rev l)))"

definition LPop :: "time \<Rightarrow> store \<Rightarrow> bytes \<Rightarrow> int \<Rightarrow> store \<times> bytes list option res" where
  "LPop = listPop popFront"

definition RPop :: "time \<Rightarrow> store \<Rightarrow> bytes \<Rightarrow> int \<Rightarrow> store \<times> bytes list option res" where
  "RPop = listPop popBack"

definition readList ::
  "time \<Rightarrow> store \<Rightarrow> bytes \<Rightarrow> 'a \<Rightarrow> (bytes list \<Rightarrow> 'a) \<Rightarrow> store \<times> 'a res" where
  "readList now s key none f =
     (case liveEntry now s key of
        (s, None) \<Rightarrow> (s, Inr none)
      | (s, Some e) \<Rightarrow>
          (case evalue e of
             VList l \<Rightarrow> (touchLRU s key e, Inr (f l))
           | _ \<Rightarrow> (s, Inl ErrWrongType)))"

text \<open>The loop of \<open>LRange\<close> from index \<open>i\<close> on.\<close>

fun rangeLoop :: "int \<Rightarrow> int \<Rightarrow> int \<Rightarrow> bytes list \<Rightarrow> bytes list" where
  "rangeLoop st en i [] = []"
| "rangeLoop st en i (b # l) =
     (if i > en then []
      else if i \<ge> st then b # rangeLoop st en (i + 1) l
      else rangeLoop st en (i + 1) l)"

definition lrange :: "int \<Rightarrow> int \<Rightarrow> bytes list \<Rightarrow> bytes list" where
  "lrange start stop l =
     (let n = length l
      in if n = 0 then []
         else if start \<ge> 0 \<and> start \<ge> int n then []
         else let st0 = normalizeListIndex start n; en0 = normalizeListIndex stop n;
                  st = (if st0 < 0 then 0 else st0); en = (if en0 \<ge> int n then int n - 1 else en0)
              in if st > en then [] else rangeLoop st en 0 l)"

definition LRange :: "time \<Rightarrow> store \<Rightarrow> bytes \<Rightarrow> int \<Rightarrow> int \<Rightarrow> store \<times> bytes list option res" where
  "LRange now s key start stop = readList now s key None (\<lambda>l. Some (lrange start stop l))"

text \<open>\<open>listElemAt\<close> walks from the front.\<close>

definition listElemAt :: "bytes list \<Rightarrow> int \<Rightarrow> bytes option" where
  "listElemAt l idx = (if idx < 0 \<or> idx \<ge> int (length l) then None else Some (l ! nat idx))"

definition lindex :: "int \<Rightarrow> bytes list \<Rightarrow> bytes option" where
  "lindex index l =
     (let n = length l
      in if n = 0 then None
         else if index \<ge> 0 \<and> index \<ge> int n then None
         else let idx = normalizeListIndex index n
              in if idx < 0 \<or> idx \<ge> int n then None
                 else case listElemAt l idx of None \<Rightarrow> None | Some b \<Rightarrow> appendNil b)"

definition LIndex :: "time \<Rightarrow> store \<Rightarrow> bytes \<Rightarrow> int \<Rightarrow> store \<times> bytes option res" where
  "LIndex now s key index = readList now s key None (lindex index)"

definition LSet :: "time \<Rightarrow> store \<Rightarrow> bytes \<Rightarrow> int \<Rightarrow> bytes \<Rightarrow> store \<times> store_error option" where
  "LSet now s key index val =
     (case liveEntry now s key of
        (s, None) \<Rightarrow> (s, Some ErrKeyNotFound)
      | (s, Some e) \<Rightarrow>
          (case evalue e of
             VList l \<Rightarrow>
               (let n = length l
                in if index \<ge> 0 \<and> index \<ge> int n then (s, Some ErrListIndex)
                   else let idx = normalizeListIndex index n
                        in if idx < 0 \<or> idx \<ge> int n then (s, Some ErrListIndex)
                           else case listElemAt l idx of
                                  None \<Rightarrow> (s, Some ErrListIndex)
                                | Some _ \<Rightarrow>
                                    let l' = l[nat idx := val];
                                        s = mutateList s key e l'
                                    in (replaceEntry s key (Some (e\<lparr>evalue := VList l'\<rparr>))
                                          (newEntry (VList l') (expiresAt e)), None))
           | _ \<Rightarrow> (s, Some ErrWrongType)))"

text \<open>The elements left and the number removed: the loop stops once \<open>limit\<close> are removed.\<close>

fun lremLoop :: "int \<Rightarrow> bytes \<Rightarrow> int \<Rightarrow> bytes list \<Rightarrow> bytes list \<times> int" where
  "lremLoop limit v removed [] = ([], removed)"
| "lremLoop limit v removed (x # l) =
     (if \<not> removed < limit then (x # l, removed)
      else if x = v then lremLoop limit v (removed + 1) l
      else case lremLoop limit v removed l of (l', n) \<Rightarrow> (x # l', n))"

definition lremList :: "int \<Rightarrow> bytes \<Rightarrow> bytes list \<Rightarrow> bytes list \<times> int" where
  "lremList cnt v l =
     (if cnt = 0 then (filter (\<lambda>x. x \<noteq> v) l, int (length (filter (\<lambda>x. x = v) l)))
      else if cnt > 0 then lremLoop cnt v 0 l
      else case lremLoop (wrap64 (- cnt)) v 0 (rev l) of (l', n) \<Rightarrow> (rev l', n))"

definition LRem :: "time \<Rightarrow> store \<Rightarrow> bytes \<Rightarrow> int \<Rightarrow> bytes \<Rightarrow> store \<times> int res" where
  "LRem now s key cnt v =
     (case liveEntry now s key of
        (s, None) \<Rightarrow> (s, Inr 0)
      | (s, Some e) \<Rightarrow>
          (case evalue e of
             VList l \<Rightarrow>
               (let s1 = touchLRU s key e
                in if l = [] then (s1, Inr 0)
                   else case lremList cnt v l of (l', removed) \<Rightarrow>
                     (commitList s1 key (touchedEntry s key e) l', Inr removed))
           | _ \<Rightarrow> (s, Inl ErrWrongType)))"

text \<open>The loop of \<open>LTrim\<close> keeps the positions from \<open>st\<close> to \<open>en\<close>.\<close>

fun trimLoop :: "int \<Rightarrow> int \<Rightarrow> int \<Rightarrow> bytes list \<Rightarrow> bytes list" where
  "trimLoop st en i [] = []"
| "trimLoop st en i (b # l) =
     (if i \<ge> st \<and> i \<le> en then b # trimLoop st en (i + 1) l else trimLoop st en (i + 1) l)"

definition LTrim :: "time \<Rightarrow> store \<Rightarrow> bytes \<Rightarrow> int \<Rightarrow> int \<Rightarrow> store \<times> store_error option" where
  "LTrim now s key start stop =
     (case liveEntry now s key of
        (s, None) \<Rightarrow> (s, None)
      | (s, Some e) \<Rightarrow>
          (case evalue e of
             VList l \<Rightarrow>
               (let n = length l; s1 = touchLRU s key e; e1 = touchedEntry s key e
                in if n = 0 then (s1, None)
                   else let st0 = normalizeListIndex start n; en0 = normalizeListIndex stop n;
                            st = (if st0 < 0 then 0 else st0);
                            en = (if en0 \<ge> int n then int n - 1 else en0)
                        in if st > en then (purgeEntryLocked s1 (shardIndex key) key e1, None)
                           else let nl = trimLoop st en 0 l
                                in if nl = [] then (purgeEntryLocked s1 (shardIndex key) key e1, None)
                                   else (replaceEntry s1 key (Some e1) (newEntry (VList nl) (expiresAt e)), None))
           | _ \<Rightarrow> (s, Some ErrWrongType)))"

fun pivotIndex :: "bytes \<Rightarrow> nat \<Rightarrow> bytes list \<Rightarrow> nat option" where
  "pivotIndex pivot idx [] = None"
| "pivotIndex pivot idx (b # l) = (if b = pivot then Some idx else pivotIndex pivot (Suc idx) l)"

fun insertLoop :: "bool \<Rightarrow> nat \<Rightarrow> bytes \<Rightarrow> nat \<Rightarrow> bytes list \<Rightarrow> bytes list" where
  "insertLoop before pivotIdx ins idx [] = []"
| "insertLoop before pivotIdx ins idx (b # l) =
     (if before \<and> idx = pivotIdx then [ins] else []) @ [b] @
     (if \<not> before \<and> idx = pivotIdx then [ins] else []) @
     insertLoop before pivotIdx ins (Suc idx) l"

definition LInsert :: "time \<Rightarrow> store \<Rightarrow> bytes \<Rightarrow> bool \<Rightarrow> bytes \<Rightarrow> bytes \<Rightarrow> store \<times> int res" where
  "LInsert now s key before pivot ins =
     (case liveEntry now s key of
        (s, None) \<Rightarrow> (s, Inr 0)
      | (s, Some e) \<Rightarrow>
          (case evalue e of
             VList oldL \<Rightarrow>
               (let s1 = touchLRU s key e; e1 = touchedEntry s key e
                in case pivotIndex pivot 0 oldL of
                     None \<Rightarrow> (s1, Inr (- 1))
                   | Some pivotIdx \<Rightarrow>
                       (let nl = insertLoop before pivotIdx ins 0 oldL;
                            ne = newEntry (VList nl) (expiresAt e)
                        in case commitEntry s1 key (Some e1) ne (estimateMem key ne - estimateMem key e1) of
                             (s, Some err) \<Rightarrow> (s, Inl err)
                           | (s, None) \<Rightarrow> (s, Inr (int (length nl)))))
           | _ \<Rightarrow> (s, Inl ErrWrongType)))"

section \<open>Reading\<close>

definition viewList :: "(dvalue \<times> time) option \<Rightarrow> bytes list res" where
  "viewList c =
     (case c of
        None \<Rightarrow> Inr []
      | Some (v, _) \<Rightarrow> (case v of VList l \<Rightarrow> Inr l | _ \<Rightarrow> Inl ErrWrongType))"

lemma listOf_view: "listOf old = viewList (map_option content old)"
  by (simp add: listOf_def viewList_def content_def split: option.split)

lemma readList_spec:
  assumes "storeInv s" and r: "readList now s key none f = (s', r)"
  shows "prims {Purge key} s s'" "view now s' = view now s"
    "r = (case view now s key of None \<Rightarrow> Inr none | Some _ \<Rightarrow> map_sum id f (viewList (view now s key)))"
proof -
  obtain s1 old where l: "liveEntry now s key = (s1, old)" by (cases "liveEntry now s key")
  note lf = liveEntry_facts [OF l assms(1)]
  have t: "prims {Purge key} s (touchLRU s key e)" "view now (touchLRU s key e) = view now s" if "old = Some e" for e
    using touch_facts [OF assms(1), of key e] lf(2,9) that by auto
  show "prims {Purge key} s s'" "view now s' = view now s"
    "r = (case view now s key of None \<Rightarrow> Inr none | Some _ \<Rightarrow> map_sum id f (viewList (view now s key)))"
    using r l lf(3,4,6,9) t
    by (cases old; auto simp: readList_def viewList_def content_def split: dvalue.splits)+
qed

lemma listLenLocked_spec:
  assumes "storeInv s" and r: "listLenLocked now s key = (s', r)"
  shows "prims {Purge key} s s'" "view now s' = view now s"
    "r = map_sum id (\<lambda>l. int (length l)) (viewList (view now s key))"
proof -
  obtain s1 old where l: "liveEntry now s key = (s1, old)" by (cases "liveEntry now s key")
  note lf = liveEntry_facts [OF l assms(1)]
  show "prims {Purge key} s s'" "view now s' = view now s"
    "r = map_sum id (\<lambda>l. int (length l)) (viewList (view now s key))"
    using r l lf(3,4,6,9)
    by (cases old; auto simp: listLenLocked_def viewList_def content_def split: dvalue.splits)+
qed

text \<open>The position a normalised index stands for: negative indexes count from the end, and both ends
  clamp.\<close>

lemma normalizeListIndex_range:
  "n > 0 \<Longrightarrow> 0 \<le> normalizeListIndex i n \<and> normalizeListIndex i n < int n"
  by (auto simp: normalizeListIndex_def Let_def)

lemma normalizeListIndex_inside:
  "0 \<le> i \<Longrightarrow> i < int n \<Longrightarrow> normalizeListIndex i n = i"
  "- int n \<le> i \<Longrightarrow> i < 0 \<Longrightarrow> normalizeListIndex i n = int n + i"
  by (auto simp: normalizeListIndex_def Let_def)

lemma rangeLoop_spec:
  "0 \<le> i \<Longrightarrow> rangeLoop st en i l = drop (nat (st - i)) (take (nat (en + 1 - i)) l)"
proof (induction st en i l rule: rangeLoop.induct)
  case (2 st en i b l)
  show ?case
  proof (cases "i > en")
    case False
    then have "nat (en + 1 - i) = Suc (nat (en + 1 - (i + 1)))" by simp
    moreover have "i < st \<Longrightarrow> nat (st - i) = Suc (nat (st - (i + 1)))" by simp
    ultimately show ?thesis using 2 False by (cases "i < st") auto
  qed simp
qed simp

text \<open>A slice of a list by two inclusive indexes.\<close>

definition slice :: "int \<Rightarrow> int \<Rightarrow> 'a list \<Rightarrow> 'a list" where
  "slice st en l = drop (nat st) (take (nat (en + 1)) l)"

lemma lrange_spec:
  "lrange start stop l =
     (if start \<ge> int (length l) then []
      else slice (normalizeListIndex start (length l)) (normalizeListIndex stop (length l)) l)"
proof (cases "l = []")
  case False
  with normalizeListIndex_range [of "length l" start] normalizeListIndex_range [of "length l" stop]
  show ?thesis by (auto simp: lrange_def Let_def slice_def rangeLoop_spec)
qed (simp add: lrange_def slice_def)

lemma trimLoop_spec: "0 \<le> i \<Longrightarrow> trimLoop st en i l = drop (nat (st - i)) (take (nat (en + 1 - i)) l)"
proof (induction st en i l rule: trimLoop.induct)
  case (2 st en i b l)
  show ?case
  proof (cases "i > en")
    case False
    then have "nat (en + 1 - i) = Suc (nat (en + 1 - (i + 1)))" by simp
    moreover have "i < st \<Longrightarrow> nat (st - i) = Suc (nat (st - (i + 1)))" by simp
    ultimately show ?thesis using 2 False by (cases "i < st") auto
  qed (use 2 in auto)
qed simp

lemma lindex_spec:
  "lindex i l = (if l = [] \<or> i \<ge> int (length l) then None
                 else appendNil (l ! nat (normalizeListIndex i (length l))))"
proof (cases "l = []")
  case False
  with normalizeListIndex_range [of "length l" i] show ?thesis
    by (auto simp: lindex_def listElemAt_def Let_def)
next
  case True
  then show ?thesis by (auto simp: lindex_def)
qed


section \<open>Writing\<close>

lemma pushValues_spec: "pushValues left vals l = (if left then rev vals @ l else l @ vals)"
  by (induction vals arbitrary: l) (auto simp: pushValues_def)

lemma listPush_spec:
  assumes inv: "storeInv s" and ne: "vals \<noteq> []" and r: "listPush now s key vals left = (s', r)"
  shows "case viewList (view now s key) of
           Inl e \<Rightarrow> s' = s \<and> r = Inl e
         | Inr l \<Rightarrow> \<exists>err. wroteOrOOM key (VList (if left then rev vals @ l else l @ vals), viewTTL (view now s key)) s s' err \<and>
             r = outcome err (int (length l + length vals))"
proof -
  obtain s1 old where l: "liveEntry now s key = (s1, old)" by (cases "liveEntry now s key")
  note lf = liveEntry_facts [OF l inv]
  show ?thesis
  proof (cases "viewList (view now s key)")
    case (Inl e)
    then obtain eo where "old = Some eo" using lf(6) by (cases old) (auto simp: viewList_def)
    with Inl r l ne lf(6,9) show ?thesis by (auto simp: listPush_def listOf_view)
  next
    case (Inr xs)
    define nl where "nl = pushValues left vals xs"
    have len: "length nl = length xs + length vals" by (simp add: nl_def pushValues_spec)
    let ?ne = "newEntry (VList nl) (viewTTL (view now s key))"
    have "(case commitEntry s1 key old ?ne (estimateMem key ?ne - entrySize key old) of
        (s, Some err) \<Rightarrow> (s, Inl err) | (s, None) \<Rightarrow> (s, Inr (int (length nl)))) = (s', r)"
      using r l ne Inr unfolding nl_def by (simp add: listPush_def listOf_view expiryOf_view lf(6) Let_def)
    from commit_value [OF inv l _ this] Inr len show ?thesis
      by (simp add: nl_def pushValues_spec add.commute)
  qed
qed

lemma listPushX_spec:
  assumes inv: "storeInv s" and ne: "vals \<noteq> []" and r: "listPushX now s key vals left = (s', r)"
  shows "if view now s key = None then r = Inr 0 \<and> prims {Purge key} s s' \<and> view now s' = view now s
         else listPush now s key vals left = (s', r)"
proof -
  obtain s1 old where l: "liveEntry now s key = (s1, old)" by (cases "liveEntry now s key")
  note lf = liveEntry_facts [OF l inv]
  show ?thesis
    using r l ne lf(3,4,6)
    by (cases old)
      (auto simp: listPushX_def listPush_def listOf_def expiryOf_def entrySize_def Let_def split: dvalue.splits)
qed

text \<open>A list is changed after the entry has been touched.\<close>

lemma touched_facts:
  assumes inv: "storeInv s" and l: "liveEntry now s key = (s1, Some e)"
  defines "s2 \<equiv> touchLRU s1 key e" and "e1 \<equiv> touchedEntry s1 key e"
  shows "storeInv s2" "prims L s s2" "db s2 = db s" "view now s2 = view now s" "getEntry s2 key = Some e1"
    "evalue e1 = evalue e" "expiresAt e1 = expiresAt e" "liveEntry now s2 key = (s2, Some e1)"
    "maxMemBytes s2 = maxMemBytes s"
proof -
  note lf = liveEntry_facts [OF l inv]
  have s: "s1 = s" "\<not> isExpired now e" and g: "getEntry s1 key = Some e"
    using lf(9) [OF refl] lf(2) by simp_all
  note tf = touch_facts [OF lf(1) g]
  show "storeInv s2" "prims L s s2" "db s2 = db s" "view now s2 = view now s"
    using tf s by (simp_all add: s2_def)
  have "map_option content (getEntry s2 key) = Some (content e)"
    using tf(3) g by (auto simp: s2_def db_def fun_eq_iff)
  then obtain e2 where e2: "getEntry s2 key = Some e2" "content e2 = content e" by auto
  then have "e2 = e1" by (simp add: s2_def e1_def touchedEntry_def)
  with e2 show "getEntry s2 key = Some e1" and c: "evalue e1 = evalue e" "expiresAt e1 = expiresAt e"
    by (simp_all add: content_def)
  then show "liveEntry now s2 key = (s2, Some e1)" using s(2) by (simp add: liveEntry_def isExpired_def)
  show "maxMemBytes s2 = maxMemBytes s" using s by (simp add: s2_def maxMemBytes_def)
qed

lemma shrink_steps:
  assumes inv: "storeInv s" and l: "liveEntry now s key = (s1, Some e)" and "evalue e = VList xs"
    and "length xs' \<le> length xs"
  shows "once {Purge key} {Shrink key} s (commitList (touchLRU s1 key e) key (touchedEntry s1 key e) xs')"
    "db (commitList (touchLRU s1 key e) key (touchedEntry s1 key e) xs') =
       (db s)(key := if xs' = [] then None else Some (VList xs', expiresAt e))"
    "0 \<le> memDrift s \<Longrightarrow> memDrift (commitList (touchLRU s1 key e) key (touchedEntry s1 key e) xs') =
       memDrift s + 32 * int (length xs - length xs')"
proof -
  note tf = touched_facts [OF inv l]
  have "prim {Shrink key} (touchLRU s1 key e) (commitList (touchLRU s1 key e) key (touchedEntry s1 key e) xs')"
    using tf(5,6) assms(3,4) by (intro prim_shrink) auto
  with tf(2) show "once {Purge key} {Shrink key} s (commitList (touchLRU s1 key e) key (touchedEntry s1 key e) xs')"
    by (rule once_write)
  show "db (commitList (touchLRU s1 key e) key (touchedEntry s1 key e) xs') =
       (db s)(key := if xs' = [] then None else Some (VList xs', expiresAt e))"
    using tf(3,7) by (simp add: db_commit)
  show "memDrift (commitList (touchLRU s1 key e) key (touchedEntry s1 key e) xs') =
       memDrift s + 32 * int (length xs - length xs')" if d: "0 \<le> memDrift s"
  proof -
    have "memDrift (touchLRU s1 key e) = memDrift s" using prims_drift [OF tf(2) [of "{}"] inv d] by simp
    with memDrift_commit [OF tf(1,5) _ _ assms(4)] tf(6) assms(3) d show ?thesis by simp
  qed
qed

text \<open>The outcome of an operation that shortens the list of \<open>key\<close> to what \<open>f\<close> leaves of it and
  answers what \<open>f\<close> computes: an empty list is deleted, and the counter keeps 32 bytes for each
  element that went.\<close>

definition shortened ::
  "time \<Rightarrow> bytes \<Rightarrow> 'a \<Rightarrow> (bytes list \<Rightarrow> bytes list \<times> 'a) \<Rightarrow> store \<Rightarrow> store \<Rightarrow> 'a res \<Rightarrow> bool" where
  "shortened now key none f s s' r \<longleftrightarrow> once {Purge key} {Shrink key} s s' \<and>
     (case view now s key of
        None \<Rightarrow> r = Inr none \<and> view now s' = view now s
      | Some (VList l, t) \<Rightarrow>
          r = Inr (snd (f l)) \<and>
          (l \<noteq> [] \<longrightarrow> db s' = (db s)(key := if fst (f l) = [] then None else Some (VList (fst (f l)), t)) \<and>
            (0 \<le> memDrift s \<longrightarrow> memDrift s' = memDrift s + 32 * int (length l - length (fst (f l)))))
      | Some _ \<Rightarrow> s' = s \<and> r = Inl ErrWrongType)"

lemma popFront_length: "length (snd (popFront n l)) \<le> length l"
  by (simp add: popFront_def)

lemma popBack_length: "length (snd (popBack n l)) \<le> length l"
  by (simp add: popBack_def)

lemma listPop_spec:
  assumes inv: "storeInv s" and pf: "\<And>n l. length (snd (popFrom n l)) \<le> length l" "\<And>n. fst (popFrom n []) = []"
    and c: "cnt \<le> maxSliceCap" and r: "listPop popFrom now s key cnt = (s', r)"
  shows "shortened now key None (\<lambda>l. (snd (popFrom (nat (max 1 cnt)) l), Some (fst (popFrom (nat (max 1 cnt)) l)))) s s' r"
proof -
  obtain s1 old where l: "liveEntry now s key = (s1, old)" by (cases "liveEntry now s key")
  note lf = liveEntry_facts [OF l inv]
  have n: "(if cnt \<le> 0 then 1 else cnt) = max 1 cnt" "\<not> maxSliceCap < max 1 cnt"
    using c by (auto simp: maxSliceCap_def)
  show ?thesis
  proof (cases old)
    case None
    with r l lf(3,4,6) show ?thesis by (auto simp: listPop_def shortened_def intro: once_quiet)
  next
    case (Some e)
    note l = l [unfolded Some]
    show ?thesis
    proof (cases "evalue e")
      case (VList xs)
      have v: "view now s key = Some (VList xs, expiresAt e)" using lf(6) Some VList by (simp add: content_def)
      let ?p = "popFrom (nat (max 1 cnt)) xs"
      note sh = shrink_steps [OF inv l VList pf(1) [of "nat (max 1 cnt)" xs]]
      have "(s', r) = (if xs = [] then (touchLRU s1 key e, Inr (Some []))
          else (commitList (touchLRU s1 key e) key (touchedEntry s1 key e) (snd ?p), Inr (Some (fst ?p))))"
        using r l VList n by (auto simp: listPop_def Let_def split: prod.splits)
      with sh pf(2) touched_facts(2) [OF inv l] v show ?thesis
        by (auto simp: shortened_def split: if_splits intro: once_quiet)
    qed (use r l Some lf(6,9) in \<open>auto simp: listPop_def shortened_def content_def\<close>)
  qed
qed

lemma lremLoop_length: "length (fst (lremLoop limit v k l)) \<le> length l"
  by (induction limit v k l rule: lremLoop.induct) (auto split: prod.splits)

lemma lremList_length: "length (fst (lremList cnt v l)) \<le> length l"
proof -
  have "length (fst (lremLoop n v 0 (rev l))) \<le> length l" for n
    using lremLoop_length [of n v 0 "rev l"] by simp
  then show ?thesis
    using lremLoop_length [of cnt v 0 l] length_filter_le [of "\<lambda>x. x \<noteq> v" l]
    by (auto simp: lremList_def split: prod.split) (metis fst_conv)
qed

lemma LRem_spec:
  assumes inv: "storeInv s" and r: "LRem now s key cnt v = (s', r)"
  shows "shortened now key 0 (lremList cnt v) s s' r"
proof -
  obtain s1 old where l: "liveEntry now s key = (s1, old)" by (cases "liveEntry now s key")
  note lf = liveEntry_facts [OF l inv]
  show ?thesis
  proof (cases old)
    case None
    with r l lf(3,4,6) show ?thesis by (auto simp: LRem_def shortened_def intro: once_quiet)
  next
    case (Some e)
    note l = l [unfolded Some]
    show ?thesis
    proof (cases "evalue e")
      case (VList xs)
      have w: "view now s key = Some (VList xs, expiresAt e)" using lf(6) Some VList by (simp add: content_def)
      note sh = shrink_steps [OF inv l VList lremList_length [of cnt v xs]]
      have "(s', r) = (if xs = [] then (touchLRU s1 key e, Inr 0)
          else (commitList (touchLRU s1 key e) key (touchedEntry s1 key e) (fst (lremList cnt v xs)), Inr (snd (lremList cnt v xs))))"
        using r l VList by (auto simp: LRem_def Let_def split: prod.splits)
      moreover have "snd (lremList cnt v []) = 0" by (simp add: lremList_def)
      ultimately show ?thesis using sh touched_facts(2) [OF inv l] w
        by (auto simp: shortened_def split: if_splits intro: once_quiet)
    qed (use r l Some lf(6,9) in \<open>auto simp: LRem_def shortened_def content_def\<close>)
  qed
qed

text \<open>\<open>LRem\<close> removes the first \<open>cnt\<close> occurrences, the last ones when \<open>cnt\<close> is negative.\<close>

lemma remove1_pow_Cons:
  "(remove1 v ^^ n) (x # l) = (if x = v \<and> n > 0 then (remove1 v ^^ (n - 1)) l else x # (remove1 v ^^ n) l)"
proof (cases "x = v")
  case True
  then show ?thesis by (cases n) (simp_all add: funpow_swap1 del: funpow.simps(2) add: funpow_Suc_right)
next
  case False
  then show ?thesis by (induction n) auto
qed

lemma lremLoop_spec:
  "lremLoop limit v k l =
     (let n = min (nat (limit - k)) (count_list l v) in ((remove1 v ^^ n) l, k + int n))"
proof (induction limit v k l rule: lremLoop.induct)
  case (2 limit v k x l)
  show ?case
  proof (cases "k < limit")
    case True
    then have "nat (limit - k) = Suc (nat (limit - (k + 1)))" by simp
    with 2 True show ?thesis
      by (auto simp: Let_def remove1_pow_Cons split: prod.split)
  qed simp
qed simp

lemma remove1_pow_all: "(remove1 v ^^ count_list l v) l = filter (\<lambda>x. x \<noteq> v) l"
  by (induction l) (auto simp: remove1_pow_Cons simp del: funpow.simps(2))

lemma lremList_spec:
  assumes "in_int64 cnt" "cnt \<noteq> minInt64"
  shows "lremList cnt v l =
     (let n = (if cnt = 0 then count_list l v else min (nat \<bar>cnt\<bar>) (count_list l v))
      in (if cnt < 0 then rev ((remove1 v ^^ n) (rev l)) else (remove1 v ^^ n) l, int n))"
proof -
  have "cnt < 0 \<Longrightarrow> wrap64 (- cnt) = - cnt"
    using assms by (intro wrap64_id) (auto simp: in_int64_def minInt64_def maxInt64_def)
  moreover have "length (filter (\<lambda>x. x = v) l) = count_list l v" by (induction l) auto
  ultimately show ?thesis
    by (auto simp: lremList_def lremLoop_spec remove1_pow_all Let_def min_def)
qed

lemma LSet_spec:
  assumes inv: "storeInv s" and r: "LSet now s key i val = (s', err)"
  shows "case view now s key of
           None \<Rightarrow> err = Some ErrKeyNotFound \<and> prims {Purge key} s s' \<and> view now s' = view now s
         | Some (VList l, t) \<Rightarrow>
             if l = [] \<or> i \<ge> int (length l) then s' = s \<and> err = Some ErrListIndex
             else err = None \<and> prim {Shrink key} s s' \<and>
               db s' = (db s)(key \<mapsto> (VList (l[nat (normalizeListIndex i (length l)) := val]), t)) \<and>
               (0 \<le> memDrift s \<longrightarrow> memDrift s' = memDrift s)
         | Some _ \<Rightarrow> s' = s \<and> err = Some ErrWrongType"
proof -
  obtain s1 old where l: "liveEntry now s key = (s1, old)" by (cases "liveEntry now s key")
  note lf = liveEntry_facts [OF l inv]
  show ?thesis
  proof (cases old)
    case None
    with r l lf(3,4,6) show ?thesis by (auto simp: LSet_def)
  next
    case (Some e)
    note l = l [unfolded Some]
    have s1: "s1 = s" and g: "getEntry s key = Some e" using lf(9) [OF Some] lf(2) Some by auto
    show ?thesis
    proof (cases "evalue e")
      case (VList xs)
      have v: "view now s key = Some (VList xs, expiresAt e)" using lf(6) Some VList by (simp add: content_def)
      define xs' where "xs' = xs[nat (normalizeListIndex i (length xs)) := val]"
      have len: "length xs' = length xs" by (simp add: xs'_def)
      have p: "prim {Shrink key} s (commitList s key e xs')"
        using g VList len by (intro prim_shrink) auto
      have "(s', err) = (if xs = [] \<or> i \<ge> int (length xs) then (s, Some ErrListIndex)
              else (commitList s key e xs', None))"
        using r l VList s1 normalizeListIndex_range [of "length xs" i]
        by (cases "xs = []") (auto simp: LSet_def Let_def listElemAt_def commitList_def xs'_def split: if_splits)
      moreover have "memDrift (commitList s key e xs') = memDrift s" if "0 \<le> memDrift s"
        using memDrift_commit [OF inv g VList that, of xs'] len by simp
      moreover have "xs \<noteq> [] \<Longrightarrow> xs' \<noteq> []" using len by auto
      ultimately show ?thesis
        using v p by (auto simp: db_commit xs'_def [symmetric] split: if_splits)
    qed (use r l Some lf(6,9) in \<open>auto simp: LSet_def content_def\<close>)
  qed
qed

lemma LTrim_spec:
  assumes inv: "storeInv s" and r: "LTrim now s key start stop = (s', err)"
  shows "once {Purge key} {Write key} s s' \<and> (case view now s key of
           None \<Rightarrow> err = None \<and> view now s' = view now s
         | Some (VList l, t) \<Rightarrow> err = None \<and>
             (l \<noteq> [] \<longrightarrow> db s' = (db s)(key :=
               (let l' = slice (normalizeListIndex start (length l)) (normalizeListIndex stop (length l)) l
                in if l' = [] then None else Some (VList l', t))))
         | Some _ \<Rightarrow> s' = s \<and> err = Some ErrWrongType)"
proof -
  obtain s1 old where l: "liveEntry now s key = (s1, old)" by (cases "liveEntry now s key")
  note lf = liveEntry_facts [OF l inv]
  show ?thesis
  proof (cases old)
    case None
    with r l lf(3,4,6) show ?thesis by (auto simp: LTrim_def intro: once_quiet)
  next
    case (Some e)
    note l = l [unfolded Some]
    show ?thesis
    proof (cases "evalue e")
      case (VList xs)
      have v: "view now s key = Some (VList xs, expiresAt e)" using lf(6) Some VList by (simp add: content_def)
      note tf = touched_facts [OF inv l] 
      note rl = replace_live [OF tf(1) tf(8)]
      define xs' where "xs' = slice (normalizeListIndex start (length xs)) (normalizeListIndex stop (length xs)) xs"
      have ex: "(s', err) = (if xs = [] then (touchLRU s1 key e, None)
          else if xs' = [] then (purgeEntryLocked (touchLRU s1 key e) (shardIndex key) key (touchedEntry s1 key e), None)
          else (replaceEntry (touchLRU s1 key e) key (Some (touchedEntry s1 key e)) (newEntry (VList xs') (expiresAt e)), None))"
        using r l VList normalizeListIndex_range [of "length xs" start] normalizeListIndex_range [of "length xs" stop]
        by (auto simp: LTrim_def Let_def trimLoop_spec xs'_def slice_def split: if_splits)
      show ?thesis
        using ex v rl tf(2) [of "{Purge key}"] tf(3) once_before [OF tf(2), where W = "{Write key}"]
        by (auto simp: xs'_def [symmetric] split: if_splits intro: once_quiet)
    qed (use r l Some lf(6,9) in \<open>auto simp: LTrim_def content_def\<close>)
  qed
qed


lemma pivotIndex_Some:
  "pivotIndex p k l = Some i \<Longrightarrow> k \<le> i \<and> i - k < length l \<and> l ! (i - k) = p \<and> p \<notin> set (take (i - k) l)"
proof (induction p k l rule: pivotIndex.induct)
  case (2 p k b l)
  show ?case
  proof (cases "b = p")
    case False
    with 2 have IH: "Suc k \<le> i \<and> i - Suc k < length l \<and> l ! (i - Suc k) = p \<and> p \<notin> set (take (i - Suc k) l)" by simp
    then have "i - k = Suc (i - Suc k)" by arith
    with IH False show ?thesis by auto
  qed (use 2 in auto)
qed simp

lemma pivotIndex_None: "pivotIndex p k l = None \<longleftrightarrow> p \<notin> set l"
  by (induction p k l rule: pivotIndex.induct) auto

lemma insertLoop_after: "i < k \<Longrightarrow> insertLoop before i ins k l = l"
  by (induction before i ins k l rule: insertLoop.induct) auto

lemma insertLoop_spec:
  "k \<le> i \<Longrightarrow> i - k < length l \<Longrightarrow> insertLoop before i ins k l =
     (let n = i - k + (if before then 0 else 1) in take n l @ ins # drop n l)"
proof (induction before i ins k l rule: insertLoop.induct)
  case (2 before i ins k b l)
  show ?case
  proof (cases "i = k")
    case True
    then show ?thesis by (simp add: insertLoop_after Let_def)
  next
    case False
    with "2.prems" have "i - k = Suc (i - Suc k)" "Suc k \<le> i" by simp_all
    with "2.IH" "2.prems" False show ?thesis by (simp add: Let_def)
  qed
qed simp

lemma wroteOrOOM_from:
  assumes "prims (quietLabels key) s s1" "db s1 = db s" "maxMemBytes s1 = maxMemBytes s" "wroteOrOOM key c s1 s2 err"
  shows "wroteOrOOM key c s s2 err"
  using assms by (auto simp: wroteOrOOM_def intro: rtranclp_trans)

lemma LInsert_spec:
  assumes inv: "storeInv s" and r: "LInsert now s key before pivot ins = (s', r)"
  shows "case view now s key of
           None \<Rightarrow> r = Inr 0 \<and> prims {Purge key} s s' \<and> view now s' = view now s
         | Some (VList l, t) \<Rightarrow>
             if pivot \<notin> set l then r = Inr (- 1) \<and> prims {} s s' \<and> view now s' = view now s
             else \<exists>l1 l2 err. l = l1 @ pivot # l2 \<and> pivot \<notin> set l1 \<and>
               wroteOrOOM key (VList (if before then l1 @ ins # pivot # l2 else l1 @ pivot # ins # l2), t) s s' err \<and>
               r = outcome err (int (length l) + 1)
         | Some _ \<Rightarrow> s' = s \<and> r = Inl ErrWrongType"
proof -
  obtain s1 old where l: "liveEntry now s key = (s1, old)" by (cases "liveEntry now s key")
  note lf = liveEntry_facts [OF l inv]
  show ?thesis
  proof (cases old)
    case None
    with r l lf(3,4,6) show ?thesis by (auto simp: LInsert_def)
  next
    case (Some e)
    note l = l [unfolded Some]
    show ?thesis
    proof (cases "evalue e")
      case (VList xs)
      have v: "view now s key = Some (VList xs, expiresAt e)" using lf(6) Some VList by (simp add: content_def)
      note tf = touched_facts [OF inv l]
      let ?s2 = "touchLRU s1 key e" and ?e1 = "touchedEntry s1 key e"
      show ?thesis
      proof (cases "pivotIndex pivot 0 xs")
        case None
        with r l VList tf(2,4) v pivotIndex_None [of pivot 0 xs] show ?thesis by (auto simp: LInsert_def Let_def)
      next
        case pi: (Some i)
        have p: "i < length xs" "xs ! i = pivot" "pivot \<notin> set (take i xs)" using pivotIndex_Some [OF pi] by auto
        then have sp: "xs = take i xs @ pivot # drop (Suc i) xs" by (metis id_take_nth_drop)
        define nl where "nl = (if before then take i xs @ ins # pivot # drop (Suc i) xs
          else take i xs @ pivot # ins # drop (Suc i) xs)"
        have "drop i xs = pivot # drop (Suc i) xs" using p Cons_nth_drop_Suc [of i xs] by simp
        then have il: "insertLoop before i ins 0 xs = nl"
          using p by (simp add: nl_def insertLoop_spec Let_def take_Suc_conv_app_nth)
        have len: "length nl = length xs + 1" using p by (simp add: nl_def)
        have "(case commitEntry ?s2 key (Some ?e1) (newEntry (VList nl) (expiresAt e))
            (estimateMem key (newEntry (VList nl) (expiresAt e)) - estimateMem key ?e1) of
            (s, Some err) \<Rightarrow> (s, Inl err) | (s, None) \<Rightarrow> (s, Inr (int (length nl)))) = (s', r)"
          using r l VList pi il by (simp add: LInsert_def Let_def)
        from commit_value [OF tf(1,8) _ this] obtain err where
          "wroteOrOOM key (VList nl, expiresAt e) ?s2 s' err" "r = outcome err (int (length nl))" by auto
        then have "wroteOrOOM key (VList nl, expiresAt e) s s' err" "r = outcome err (int (length xs) + 1)"
          using wroteOrOOM_from [OF tf(2,3,9)] len by (simp_all add: add.commute)
        moreover have "pivot \<in> set xs" using p nth_mem by blast
        ultimately show ?thesis
          unfolding v option.case prod.case dvalue.case nl_def using sp p(3) by fastforce
      qed
    qed (use r l Some lf(6,9) in \<open>auto simp: LInsert_def content_def\<close>)
  qed
qed

end
