(* ===== verification/Config.thy ===== *)
theory Config
  imports Go_Net "HOL-Library.Multiset"
begin

text \<open>
  The configuration (\<^verbatim>\<open>src/internal/config\<close>): the record of settings, its defaults, its
  validation, the memory limit, the lists of peers, and what a reload may change.  The file
  system and the decoders of the TOML and YAML packages are parameters.
\<close>


section \<open>Settings\<close>

record Config =
  ClientBind :: bytes
  ClientPort :: int
  PeerBind :: bytes
  PeerPort :: int
  Peers :: "bytes list"
  NodeID :: bytes
  AdvertiseAddr :: bytes
  BootstrapPeer :: bytes
  SharedSecret :: bytes
  ClusterID :: bytes
  MaxMemory :: bytes
  MaxMemoryPolicy :: bytes
  AuthPassword :: bytes
  ClientIdleTimeout :: int
  LogLevel :: bytes
  LogOutput :: bytes
  LogFormat :: bytes
  MetricsBind :: bytes
  MetricsPort :: int
  BootstrapQueueDepth :: int
  PeerQueueDepth :: int
  HeartbeatInterval :: int
  HeartbeatTimeout :: int
  MgmtSocket :: bytes
  MgmtTCPBind :: bytes
  MgmtTCPPort :: int
  GossipPeers :: bool
  AutoDiscoverPeers :: "bool option"
  DiscoveryInterval :: int
  HetznerAPIToken :: bytes
  HetznerLabelSelector :: bytes
  HetznerNetworkID :: int
  HetznerAPIURL :: bytes
  AnnounceLeave :: "bool option"
  ResyncOnGap :: "bool option"
  ResyncMinInterval :: int
  PeerForgetAfter :: int
  PeerStateFile :: bytes
  ReplShutdownSpillPath :: bytes
  ClientTLSCertFile :: bytes
  ClientTLSKeyFile :: bytes
  ClientTLSMinVersion :: bytes
  PeerTLSCertFile :: bytes
  PeerTLSKeyFile :: bytes
  PeerTLSCAFile :: bytes
  PeerTLSMinVersion :: bytes

text \<open>The zero value \<^verbatim>\<open>Config{}\<close>.\<close>

definition zeroConfig :: Config where
  "zeroConfig =
     \<lparr>ClientBind = [], ClientPort = 0, PeerBind = [], PeerPort = 0, Peers = [], NodeID = [],
      AdvertiseAddr = [], BootstrapPeer = [], SharedSecret = [], ClusterID = [], MaxMemory = [],
      MaxMemoryPolicy = [], AuthPassword = [], ClientIdleTimeout = 0, LogLevel = [], LogOutput = [],
      LogFormat = [], MetricsBind = [], MetricsPort = 0, BootstrapQueueDepth = 0, PeerQueueDepth = 0,
      HeartbeatInterval = 0, HeartbeatTimeout = 0, MgmtSocket = [], MgmtTCPBind = [], MgmtTCPPort = 0,
      GossipPeers = False, AutoDiscoverPeers = None, DiscoveryInterval = 0, HetznerAPIToken = [],
      HetznerLabelSelector = [], HetznerNetworkID = 0, HetznerAPIURL = [], AnnounceLeave = None,
      ResyncOnGap = None, ResyncMinInterval = 0, PeerForgetAfter = 0, PeerStateFile = [],
      ReplShutdownSpillPath = [], ClientTLSCertFile = [], ClientTLSKeyFile = [], ClientTLSMinVersion = [],
      PeerTLSCertFile = [], PeerTLSKeyFile = [], PeerTLSCAFile = [], PeerTLSMinVersion = []\<rparr>"

record fsys =
  readFile :: "bytes \<Rightarrow> bytes option"
  statPath :: "bytes \<Rightarrow> bool option option"
  createTemp :: "bytes \<Rightarrow> bool"

text \<open>\<open>statPath\<close> is \<open>None\<close> when the path does not exist, \<open>Some None\<close> on another error, and otherwise says
  whether the path is a directory; \<open>createTemp\<close> says whether a file can be created in a directory.\<close>

definition DefaultClientBind :: bytes where "DefaultClientBind = ''0.0.0.0''"
definition DefaultClientPort :: int where "DefaultClientPort = 6379"
definition DefaultPeerBind :: bytes where "DefaultPeerBind = ''0.0.0.0''"
definition DefaultPeerPort :: int where "DefaultPeerPort = 7379"
definition DefaultBootstrapQueueDepth :: int where "DefaultBootstrapQueueDepth = 100000"
definition DefaultPeerQueueDepth :: int where "DefaultPeerQueueDepth = 50000"
definition DefaultHeartbeatInterval :: int where "DefaultHeartbeatInterval = 5"
definition DefaultDiscoveryInterval :: int where "DefaultDiscoveryInterval = 60"
definition DefaultPeerForgetAfter :: int where "DefaultPeerForgetAfter = 3600"
definition DefaultResyncMinInterval :: int where "DefaultResyncMinInterval = 300"
definition DefaultHeartbeatTimeout :: int where "DefaultHeartbeatTimeout = 15"
definition DefaultMgmtSocket :: bytes where "DefaultMgmtSocket = ''/var/run/supercache.sock''"
definition DefaultConfigPath :: bytes where "DefaultConfigPath = ''/etc/supercache/supercache.toml''"
definition DefaultConfigPathAlt :: bytes where "DefaultConfigPathAlt = ''/etc/supercache/supercache.conf''"
definition DefaultMgmtTCPBind :: bytes where "DefaultMgmtTCPBind = ''127.0.0.1''"
definition DefaultClientIdleTimeout :: int where "DefaultClientIdleTimeout = 3600"

lemmas default_defs =
  DefaultClientBind_def DefaultClientPort_def DefaultPeerBind_def DefaultPeerPort_def
  DefaultBootstrapQueueDepth_def DefaultPeerQueueDepth_def DefaultHeartbeatInterval_def
  DefaultDiscoveryInterval_def DefaultPeerForgetAfter_def DefaultResyncMinInterval_def
  DefaultHeartbeatTimeout_def DefaultMgmtSocket_def DefaultMgmtTCPBind_def DefaultClientIdleTimeout_def

text \<open>A setting left at its zero value takes the default.\<close>

definition dflt :: "'a \<Rightarrow> 'a \<Rightarrow> 'a \<Rightarrow> 'a" where
  "dflt zero d x = (if x = zero then d else x)"

definition ApplyDefaults :: "Config \<Rightarrow> Config" where
  "ApplyDefaults cfg = cfg
     \<lparr>ClientBind := dflt [] DefaultClientBind (ClientBind cfg),
      ClientPort := dflt 0 DefaultClientPort (ClientPort cfg),
      PeerBind := dflt [] DefaultPeerBind (PeerBind cfg),
      PeerPort := dflt 0 DefaultPeerPort (PeerPort cfg),
      BootstrapQueueDepth := dflt 0 DefaultBootstrapQueueDepth (BootstrapQueueDepth cfg),
      PeerQueueDepth := dflt 0 DefaultPeerQueueDepth (PeerQueueDepth cfg),
      HeartbeatInterval := dflt 0 DefaultHeartbeatInterval (HeartbeatInterval cfg),
      HeartbeatTimeout := dflt 0 DefaultHeartbeatTimeout (HeartbeatTimeout cfg),
      DiscoveryInterval := dflt 0 DefaultDiscoveryInterval (DiscoveryInterval cfg),
      PeerForgetAfter := dflt 0 DefaultPeerForgetAfter (PeerForgetAfter cfg),
      ResyncMinInterval := dflt 0 DefaultResyncMinInterval (ResyncMinInterval cfg),
      MgmtSocket := dflt [] DefaultMgmtSocket (MgmtSocket cfg),
      MgmtTCPBind := (if MgmtTCPPort cfg > 0 \<and> trimSpace (MgmtTCPBind cfg) = [] then DefaultMgmtTCPBind
                      else MgmtTCPBind cfg),
      MaxMemory := dflt [] ''0'' (MaxMemory cfg),
      ClientIdleTimeout := dflt 0 DefaultClientIdleTimeout (ClientIdleTimeout cfg),
      MaxMemoryPolicy := dflt [] ''noeviction'' (MaxMemoryPolicy cfg),
      LogLevel := dflt [] ''info'' (LogLevel cfg),
      LogOutput := dflt [] ''stdout'' (LogOutput cfg)\<rparr>"


section \<open>The memory limit\<close>

datatype mem_error = MemFormat | MemNumber num_error | MemSuffix | MemOverflow

text \<open>The multiplier of a size suffix.\<close>

definition memMul :: "bytes \<Rightarrow> nat option" where
  "memMul suffix =
     (if suffix = [] \<or> suffix = ''b'' then Some 1
      else if suffix = ''k'' \<or> suffix = ''kb'' then Some 1024
      else if suffix = ''m'' \<or> suffix = ''mb'' then Some (1024 * 1024)
      else if suffix = ''g'' \<or> suffix = ''gb'' then Some (1024 * 1024 * 1024)
      else None)"

definition parseMemoryBytes :: "bytes \<Rightarrow> mem_error + 64 word" where
  "parseMemoryBytes s =
     (let s = trimSpace (lowerName s)
      in if s = ''0'' \<or> s = [] then Inr 0
         else let numStr = rev (dropWhile (\<lambda>c. \<not> is_digit c) (rev s));
                  suffix = trimSpace (drop (length numStr) s)
              in if numStr = [] then Inl MemFormat
                 else case parseUint numStr of
                        Inl e \<Rightarrow> Inl (MemNumber e)
                      | Inr n \<Rightarrow>
                          (case memMul suffix of
                             None \<Rightarrow> Inl MemSuffix
                           | Some mul \<Rightarrow>
                               if n > maxUint64 div mul then Inl MemOverflow
                               else Inr (of_nat n * of_nat mul)))"

definition validateMaxMemoryString :: "bytes \<Rightarrow> mem_error option" where
  "validateMaxMemoryString s =
     (let s = trimSpace (lowerName s)
      in if s = ''0'' \<or> s = [] then None
         else case parseMemoryBytes s of Inl e \<Rightarrow> Some e | Inr _ \<Rightarrow> None)"

definition MaxMemoryBytes :: "Config \<Rightarrow> mem_error + 64 word" where
  "MaxMemoryBytes c = parseMemoryBytes (MaxMemory c)"

definition NormalizeMaxMemoryPolicy :: "Config \<Rightarrow> bytes" where
  "NormalizeMaxMemoryPolicy c = lowerName (trimSpace (MaxMemoryPolicy c))"

definition NormalizeLogLevel :: "Config \<Rightarrow> bytes" where
  "NormalizeLogLevel c = lowerName (trimSpace (LogLevel c))"


section \<open>Validation\<close>

datatype peer_addr_error = HostPort addr_error | EmptyHost | PortSyntax num_error | PortRange

definition ValidatePeerAddr :: "bytes \<Rightarrow> peer_addr_error option" where
  "ValidatePeerAddr s =
     (case SplitHostPort (trimSpace s) of
        Inl e \<Rightarrow> Some (HostPort e)
      | Inr (host, portStr) \<Rightarrow>
          if host = [] then Some EmptyHost
          else case parseInt portStr of
                 Inl e \<Rightarrow> Some (PortSyntax e)
               | Inr port \<Rightarrow> if port < 1 \<or> port > 65535 then Some PortRange else None)"

datatype log_error = NoParentDir | StatParent | ParentNotDir | ParentNotWritable

datatype config_error =
    ClusterIDTooLong
  | ClusterIDChars
  | SharedSecretShort
  | ClientPortRange
  | PeerPortRange
  | PortsEqual
  | PolicyInvalid
  | LogLevelInvalid
  | HeartbeatIntervalLow
  | HeartbeatTimeoutLow
  | PeersInvalid nat peer_addr_error
  | BootstrapPeerInvalid peer_addr_error
  | AdvertiseAddrInvalid peer_addr_error
  | NodeIDTooLong
  | NodeIDChars
  | MaxMemoryInvalid mem_error
  | LogOutputInvalid log_error
  | LogFormatInvalid
  | MetricsPortRange
  | MetricsPortClash
  | MgmtPortRange
  | MgmtPortClash
  | MgmtMetricsClash
  | MgmtBindNotLoopback
  | MgmtBindWithoutPort
  | ClientTLSPair
  | ClientTLSCertUnreadable
  | ClientTLSKeyUnreadable
  | ClientTLSVersion
  | PeerTLSPair
  | PeerTLSCertUnreadable
  | PeerTLSKeyUnreadable
  | PeerTLSCARequired
  | PeerTLSCAUnreadable
  | PeerTLSCAUnused
  | PeerTLSVersion

text \<open>A chain of checks with early returns: the first error, if any.\<close>

definition check :: "bool \<Rightarrow> 'e \<Rightarrow> 'e option" where
  "check b e = (if b then Some e else None)"

fun firstErr :: "'e option list \<Rightarrow> 'e option" where
  "firstErr [] = None"
| "firstErr (None # es) = firstErr es"
| "firstErr (Some e # es) = Some e"

definition allowedMaxMemoryPolicies :: "bytes list" where
  "allowedMaxMemoryPolicies =
     [''noeviction'', ''allkeys-lru'', ''volatile-lru'', ''allkeys-random'', ''volatile-random'', ''volatile-ttl'']"

definition allowedLogLevels :: "bytes list" where
  "allowedLogLevels = [''debug'', ''info'', ''warn'', ''error'']"

definition MaxNodeIDLen :: nat where "MaxNodeIDLen = 128"
definition MaxClusterIDLen :: nat where "MaxClusterIDLen = 128"

definition validateClusterID :: "bytes \<Rightarrow> config_error option" where
  "validateClusterID s =
     (let s = trimSpace s
      in if s = [] then None
         else if length s > MaxClusterIDLen then Some ClusterIDTooLong
         else if \<exists>c\<in>set s. byteOf c < 0x21 \<or> byteOf c > 0x7e then Some ClusterIDChars
         else None)"

definition validateNodeID :: "bytes \<Rightarrow> config_error option" where
  "validateNodeID s =
     (let s = trimSpace s
      in if s = [] then None
         else if length s > MaxNodeIDLen then Some NodeIDTooLong
         else if \<exists>c\<in>set s. byteOf c < 0x20 \<or> byteOf c = 0x7f then Some NodeIDChars
         else None)"

definition parseTLSMinVersionString :: "bytes \<Rightarrow> bytes option" where
  "parseTLSMinVersionString s =
     (let s = trimSpace (lowerName s) in if s = [] \<or> s = ''1.2'' \<or> s = ''1.3'' then Some s else None)"

definition validateReadableFile :: "fsys \<Rightarrow> bytes \<Rightarrow> bool" where
  "validateReadableFile fs path \<longleftrightarrow> statPath fs path = Some (Some False)"

definition validateMgmtTCPBind :: "bytes \<Rightarrow> bool" where
  "validateMgmtTCPBind bind =
     (let b = trimSpace bind
      in b = [] \<or> foldLower b = ''localhost'' \<or> (case ParseIP b of Some ip \<Rightarrow> IsLoopback ip | None \<Rightarrow> False))"

definition validateLogOutputPath :: "fsys \<Rightarrow> bytes \<Rightarrow> log_error option" where
  "validateLogOutputPath fs logOutput =
     (let lo = trimSpace (lowerName logOutput)
      in if lo = ''stdout'' \<or> lo = ''stderr'' then None
         else let dir = filepathDir logOutput
              in case statPath fs dir of
                   None \<Rightarrow> Some NoParentDir
                 | Some None \<Rightarrow> Some StatParent
                 | Some (Some False) \<Rightarrow> Some ParentNotDir
                 | Some (Some True) \<Rightarrow> if createTemp fs dir then None else Some ParentNotWritable)"

text \<open>The first invalid address of a list, with its index.\<close>

fun validatePeers :: "nat \<Rightarrow> bytes list \<Rightarrow> config_error option" where
  "validatePeers i [] = None"
| "validatePeers i (p # ps) =
     (case ValidatePeerAddr p of Some e \<Rightarrow> Some (PeersInvalid i e) | None \<Rightarrow> validatePeers (Suc i) ps)"

definition badPort :: "int \<Rightarrow> bool" where
  "badPort p \<longleftrightarrow> p < 1 \<or> p > 65535"

definition Validate :: "fsys \<Rightarrow> Config \<Rightarrow> config_error option" where
  "Validate fs c =
     (let lf = lowerName (trimSpace (LogFormat c));
          cc = trimSpace (ClientTLSCertFile c); ck = trimSpace (ClientTLSKeyFile c);
          cv = trimSpace (ClientTLSMinVersion c);
          pc = trimSpace (PeerTLSCertFile c); pk = trimSpace (PeerTLSKeyFile c);
          ca = trimSpace (PeerTLSCAFile c); pv = trimSpace (PeerTLSMinVersion c)
      in firstErr
     [validateClusterID (ClusterID c),
      check (length (trimSpace (SharedSecret c)) < 32) SharedSecretShort,
      check (badPort (ClientPort c)) ClientPortRange,
      check (badPort (PeerPort c)) PeerPortRange,
      check (ClientPort c = PeerPort c) PortsEqual,
      check (lowerName (trimSpace (MaxMemoryPolicy c)) \<notin> set allowedMaxMemoryPolicies) PolicyInvalid,
      check (lowerName (trimSpace (LogLevel c)) \<notin> set allowedLogLevels) LogLevelInvalid,
      check (HeartbeatInterval c < 1) HeartbeatIntervalLow,
      check (HeartbeatTimeout c \<le> HeartbeatInterval c) HeartbeatTimeoutLow,
      validatePeers 0 (Peers c),
      (if trimSpace (BootstrapPeer c) \<noteq> [] then map_option BootstrapPeerInvalid (ValidatePeerAddr (BootstrapPeer c)) else None),
      (if trimSpace (AdvertiseAddr c) \<noteq> [] then map_option AdvertiseAddrInvalid (ValidatePeerAddr (AdvertiseAddr c)) else None),
      validateNodeID (NodeID c),
      map_option MaxMemoryInvalid (validateMaxMemoryString (MaxMemory c)),
      map_option LogOutputInvalid (validateLogOutputPath fs (LogOutput c)),
      check (LogFormat c \<noteq> [] \<and> lf \<noteq> ''text'' \<and> lf \<noteq> ''json'' \<and> lf \<noteq> ''logfmt'') LogFormatInvalid,
      (if MetricsPort c \<noteq> 0 then firstErr
         [check (badPort (MetricsPort c)) MetricsPortRange,
          check (MetricsPort c = ClientPort c \<or> MetricsPort c = PeerPort c) MetricsPortClash]
       else None),
      (if MgmtTCPPort c \<noteq> 0 then firstErr
         [check (badPort (MgmtTCPPort c)) MgmtPortRange,
          check (MgmtTCPPort c = ClientPort c \<or> MgmtTCPPort c = PeerPort c) MgmtPortClash,
          check (MetricsPort c \<noteq> 0 \<and> MgmtTCPPort c = MetricsPort c) MgmtMetricsClash,
          check (\<not> validateMgmtTCPBind (MgmtTCPBind c)) MgmtBindNotLoopback]
       else check (trimSpace (MgmtTCPBind c) \<noteq> []) MgmtBindWithoutPort),
      check ((cc \<noteq> []) \<noteq> (ck \<noteq> [])) ClientTLSPair,
      check (cc \<noteq> [] \<and> \<not> validateReadableFile fs cc) ClientTLSCertUnreadable,
      check (cc \<noteq> [] \<and> \<not> validateReadableFile fs ck) ClientTLSKeyUnreadable,
      check (cv \<noteq> [] \<and> parseTLSMinVersionString cv = None) ClientTLSVersion,
      check ((pc \<noteq> []) \<noteq> (pk \<noteq> [])) PeerTLSPair,
      (if pc \<noteq> [] then firstErr
         [check (\<not> validateReadableFile fs pc) PeerTLSCertUnreadable,
          check (\<not> validateReadableFile fs pk) PeerTLSKeyUnreadable,
          check (ca = []) PeerTLSCARequired,
          check (\<not> validateReadableFile fs ca) PeerTLSCAUnreadable]
       else check (ca \<noteq> []) PeerTLSCAUnused),
      check (pv \<noteq> [] \<and> parseTLSMinVersionString pv = None) PeerTLSVersion])"

definition ClientTLSEnabled :: "Config option \<Rightarrow> bool" where
  "ClientTLSEnabled c =
     (case c of None \<Rightarrow> False
      | Some c \<Rightarrow> trimSpace (ClientTLSCertFile c) \<noteq> [] \<and> trimSpace (ClientTLSKeyFile c) \<noteq> [])"

definition PeerTLSEnabled :: "Config option \<Rightarrow> bool" where
  "PeerTLSEnabled c =
     (case c of None \<Rightarrow> False
      | Some c \<Rightarrow> trimSpace (PeerTLSCertFile c) \<noteq> [] \<and> trimSpace (PeerTLSKeyFile c) \<noteq> [])"

definition ResyncOnGapEnabled :: "Config \<Rightarrow> bool" where
  "ResyncOnGapEnabled c = (case ResyncOnGap c of None \<Rightarrow> True | Some b \<Rightarrow> b)"

definition AnnounceLeaveEnabled :: "Config \<Rightarrow> bool" where
  "AnnounceLeaveEnabled c = (case AnnounceLeave c of None \<Rightarrow> True | Some b \<Rightarrow> b)"

definition AutoDiscoverPeersEnabled :: "Config \<Rightarrow> bool" where
  "AutoDiscoverPeersEnabled c = (case AutoDiscoverPeers c of None \<Rightarrow> True | Some b \<Rightarrow> b)"

definition LogOutputIsFile :: "Config \<Rightarrow> bool" where
  "LogOutputIsFile c =
     (let lo = trimSpace (lowerName (LogOutput c)) in lo \<noteq> ''stdout'' \<and> lo \<noteq> ''stderr'')"


section \<open>Peer lists\<close>

definition NormalizePeerAddr :: "bytes \<Rightarrow> bytes" where
  "NormalizePeerAddr addr =
     (let addr = trimSpace addr
      in case SplitHostPort addr of
           Inl _ \<Rightarrow> addr
         | Inr (host, port) \<Rightarrow>
             JoinHostPort
               (case ParseIP host of
                  Some ip \<Rightarrow> (case To4 ip of Some v4 \<Rightarrow> ip4String v4 | None \<Rightarrow> ip6String ip)
                | None \<Rightarrow> lowerName host) port)"

definition peersEqual :: "bytes list \<Rightarrow> bytes list \<Rightarrow> bool" where
  "peersEqual a b \<longleftrightarrow> length a = length b \<and> (\<forall>i<length a. a ! i = b ! i)"

definition countPeers :: "bytes list \<Rightarrow> (bytes, nat) gomap" where
  "countPeers ps =
     fold (\<lambda>p m. mapPut p (Suc (case mapGet m p of None \<Rightarrow> 0 | Some n \<Rightarrow> n)) m) ps []"

fun takePeers :: "(bytes, nat) gomap \<Rightarrow> bytes list \<Rightarrow> bool" where
  "takePeers m [] = True"
| "takePeers m (p # ps) =
     (case mapGet m p of
        None \<Rightarrow> False
      | Some 0 \<Rightarrow> False
      | Some (Suc n) \<Rightarrow> takePeers (mapPut p n m) ps)"

definition peersMultisetSubset :: "bytes list \<Rightarrow> bytes list \<Rightarrow> bool" where
  "peersMultisetSubset old new = (if length old > length new then False else takePeers (countPeers new) old)"

text \<open>Both lists of \<open>MergePeerLists\<close> and the candidates of \<open>BootstrapCandidates\<close> go through the same
  step: trim, skip what is empty or was seen, append.\<close>

definition addPeer :: "bytes \<Rightarrow> bytes list \<Rightarrow> bytes list" where
  "addPeer p out = (let p = trimSpace p in if p = [] \<or> p \<in> set out then out else out @ [p])"

definition MergePeerLists :: "bytes list \<Rightarrow> bytes list \<Rightarrow> bytes list" where
  "MergePeerLists base extra = fold addPeer extra (fold addPeer base [])"

definition BootstrapCandidates :: "Config \<Rightarrow> bytes list" where
  "BootstrapCandidates c = fold addPeer (Peers c) (addPeer (BootstrapPeer c) [])"


section \<open>Loading and reloading\<close>

datatype load_error = ReadConfig | ParseYAML | ParseTOML | InvalidConfig config_error | HotReload "bytes list"

definition Load ::
  "fsys \<Rightarrow> (bytes \<Rightarrow> Config option) \<Rightarrow> (bytes \<Rightarrow> Config option) \<Rightarrow> bytes \<Rightarrow> load_error + Config" where
  "Load fs yamlUnmarshal tomlUnmarshal path =
     (case readFile fs path of
        None \<Rightarrow> Inl ReadConfig
      | Some data \<Rightarrow>
          (let ext = lowerName (filepathExt path);
               parsed = (if ext = ''.yaml'' \<or> ext = ''.yml''
                         then (case yamlUnmarshal data of None \<Rightarrow> Inl ParseYAML | Some c \<Rightarrow> Inr c)
                         else (case tomlUnmarshal data of None \<Rightarrow> Inl ParseTOML | Some c \<Rightarrow> Inr c))
           in case parsed of
                Inl e \<Rightarrow> Inl e
              | Inr cfg \<Rightarrow>
                  (let cfg = ApplyDefaults cfg
                   in case Validate fs cfg of Some e \<Rightarrow> Inl (InvalidConfig e) | None \<Rightarrow> Inr cfg)))"

text \<open>The comparisons of \<open>diffConfigs\<close> in order: whether the setting differs, whether it may change
  while the server runs, and its name.\<close>

definition diffRows :: "Config \<Rightarrow> Config \<Rightarrow> (bool \<times> bool \<times> bytes) list" where
  "diffRows a b =
     [
      (ClientBind a \<noteq> ClientBind b, False, ''client_bind''),
      (ClientPort a \<noteq> ClientPort b, False, ''client_port''),
      (PeerBind a \<noteq> PeerBind b, False, ''peer_bind''),
      (PeerPort a \<noteq> PeerPort b, False, ''peer_port''),
      (SharedSecret a \<noteq> SharedSecret b, False, ''shared_secret''),
      (trimSpace (ClusterID a) \<noteq> trimSpace (ClusterID b), False, ''cluster_id''),
      (MgmtSocket a \<noteq> MgmtSocket b, False, ''mgmt_socket''),
      (DiscoveryInterval a \<noteq> DiscoveryInterval b, False, ''discovery_interval''),
      (HetznerAPIToken a \<noteq> HetznerAPIToken b, False, ''hetzner_api_token''),
      (trimSpace (HetznerLabelSelector a) \<noteq> trimSpace (HetznerLabelSelector b), False, ''hetzner_label_selector''),
      (HetznerNetworkID a \<noteq> HetznerNetworkID b, False, ''hetzner_network_id''),
      (trimSpace (HetznerAPIURL a) \<noteq> trimSpace (HetznerAPIURL b), False, ''hetzner_api_url''),
      (PeerForgetAfter a \<noteq> PeerForgetAfter b, False, ''peer_forget_after''),
      (AnnounceLeaveEnabled a \<noteq> AnnounceLeaveEnabled b, True, ''announce_leave''),
      (ResyncOnGapEnabled a \<noteq> ResyncOnGapEnabled b, True, ''resync_on_gap''),
      (ResyncMinInterval a \<noteq> ResyncMinInterval b, True, ''resync_min_interval''),
      (trimSpace (MgmtTCPBind a) \<noteq> trimSpace (MgmtTCPBind b), False, ''mgmt_tcp_bind''),
      (MgmtTCPPort a \<noteq> MgmtTCPPort b, False, ''mgmt_tcp_port''),
      (\<not> peersEqual (Peers a) (Peers b), peersMultisetSubset (Peers a) (Peers b), ''peers''),
      (trimSpace (BootstrapPeer a) \<noteq> trimSpace (BootstrapPeer b), False, ''bootstrap_peer''),
      (trimSpace (NodeID a) \<noteq> trimSpace (NodeID b), False, ''node_id''),
      (trimSpace (AdvertiseAddr a) \<noteq> trimSpace (AdvertiseAddr b), False, ''advertise_addr''),
      (BootstrapQueueDepth a \<noteq> BootstrapQueueDepth b, False, ''bootstrap_queue_depth''),
      (LogLevel a \<noteq> LogLevel b, True, ''log_level''),
      (LogOutput a \<noteq> LogOutput b, True, ''log_output''),
      (lowerName (trimSpace (LogFormat a)) \<noteq> lowerName (trimSpace (LogFormat b)), True, ''log_format''),
      (trimSpace (MetricsBind a) \<noteq> trimSpace (MetricsBind b), False, ''metrics_bind''),
      (MetricsPort a \<noteq> MetricsPort b, False, ''metrics_port''),
      (trimSpace (ClientTLSCertFile a) \<noteq> trimSpace (ClientTLSCertFile b), False, ''client_tls_cert_file''),
      (trimSpace (ClientTLSKeyFile a) \<noteq> trimSpace (ClientTLSKeyFile b), False, ''client_tls_key_file''),
      (trimSpace (ClientTLSMinVersion a) \<noteq> trimSpace (ClientTLSMinVersion b), False, ''client_tls_min_version''),
      (trimSpace (PeerTLSCertFile a) \<noteq> trimSpace (PeerTLSCertFile b), False, ''peer_tls_cert_file''),
      (trimSpace (PeerTLSKeyFile a) \<noteq> trimSpace (PeerTLSKeyFile b), False, ''peer_tls_key_file''),
      (trimSpace (PeerTLSCAFile a) \<noteq> trimSpace (PeerTLSCAFile b), False, ''peer_tls_ca_file''),
      (trimSpace (PeerTLSMinVersion a) \<noteq> trimSpace (PeerTLSMinVersion b), False, ''peer_tls_min_version''),
      (MaxMemory a \<noteq> MaxMemory b, True, ''max_memory''),
      (MaxMemoryPolicy a \<noteq> MaxMemoryPolicy b, True, ''max_memory_policy''),
      (AuthPassword a \<noteq> AuthPassword b, True, ''auth_password''),
      (ClientIdleTimeout a \<noteq> ClientIdleTimeout b, True, ''client_idle_timeout''),
      (HeartbeatInterval a \<noteq> HeartbeatInterval b, True, ''heartbeat_interval''),
      (HeartbeatTimeout a \<noteq> HeartbeatTimeout b, True, ''heartbeat_timeout''),
      (PeerQueueDepth a \<noteq> PeerQueueDepth b, True, ''peer_queue_depth''),
      (GossipPeers a \<noteq> GossipPeers b, False, ''gossip_peers''),
      (AutoDiscoverPeersEnabled a \<noteq> AutoDiscoverPeersEnabled b, True, ''auto_discover_peers''),
      (trimSpace (PeerStateFile a) \<noteq> trimSpace (PeerStateFile b), False, ''peer_state_file''),
      (trimSpace (ReplShutdownSpillPath a) \<noteq> trimSpace (ReplShutdownSpillPath b), False, ''repl_shutdown_spill_path'')]"

definition diffConfigs :: "Config \<Rightarrow> Config \<Rightarrow> bytes list \<times> bytes list" where
  "diffConfigs a b =
     (map (snd \<circ> snd) (filter (\<lambda>(d, h, _). d \<and> h) (diffRows a b)),
      map (snd \<circ> snd) (filter (\<lambda>(d, h, _). d \<and> \<not> h) (diffRows a b)))"

definition Reload ::
  "fsys \<Rightarrow> (bytes \<Rightarrow> Config option) \<Rightarrow> (bytes \<Rightarrow> Config option) \<Rightarrow> Config option \<Rightarrow> bytes \<Rightarrow>
   load_error + Config \<times> bytes list" where
  "Reload fs yamlUnmarshal tomlUnmarshal current path =
     (case Load fs yamlUnmarshal tomlUnmarshal path of
        Inl e \<Rightarrow> Inl e
      | Inr newCfg \<Rightarrow>
          (case current of
             None \<Rightarrow> Inr (newCfg, [])
           | Some cur \<Rightarrow>
               (case diffConfigs cur newCfg of (changed, blocked) \<Rightarrow>
                  if blocked \<noteq> [] then Inl (HotReload blocked) else Inr (newCfg, changed))))"

definition FirstExistingDefaultConfigPath :: "fsys \<Rightarrow> bytes" where
  "FirstExistingDefaultConfigPath fs =
     (case find (validateReadableFile fs) [DefaultConfigPath, DefaultConfigPathAlt] of None \<Rightarrow> [] | Some p \<Rightarrow> p)"

definition ResolveConfigPathForLoad :: "fsys \<Rightarrow> bytes \<Rightarrow> bytes" where
  "ResolveConfigPathForLoad fs explicit =
     (if trimSpace explicit \<noteq> [] then explicit
      else let p = FirstExistingDefaultConfigPath fs in if p \<noteq> [] then p else DefaultConfigPath)"

section \<open>Defaults and validation\<close>

lemma dflt_idem [simp]: "dflt z d (dflt z d x) = dflt z d x"
  by (simp add: dflt_def)

lemma ApplyDefaults_idem: "ApplyDefaults (ApplyDefaults c) = ApplyDefaults c"
proof -
  have "trimSpace DefaultMgmtTCPBind \<noteq> []"
    using trimSpace_graph [of DefaultMgmtTCPBind] by (simp add: DefaultMgmtTCPBind_def is_graph_def)
  then show ?thesis by (simp add: ApplyDefaults_def)
qed

lemma firstErr_None: "firstErr es = None \<longleftrightarrow> (\<forall>e\<in>set es. e = None)"
  by (induction es rule: firstErr.induct) auto

lemma check_None [simp]: "check b e = None \<longleftrightarrow> \<not> b"
  by (simp add: check_def)

lemma validatePeers_None: "validatePeers i ps = None \<longleftrightarrow> (\<forall>p\<in>set ps. ValidatePeerAddr p = None)"
  by (induction i ps rule: validatePeers.induct) (auto split: option.split)

lemma ValidatePeerAddr_None:
  "ValidatePeerAddr s = None \<longleftrightarrow>
     (\<exists>host portStr port. SplitHostPort (trimSpace s) = Inr (host, portStr) \<and> host \<noteq> [] \<and>
        parseInt portStr = Inr port \<and> 1 \<le> port \<and> port \<le> 65535)"
  by (auto simp: ValidatePeerAddr_def not_less split: sum.split)

text \<open>The limit of a validated configuration parses.\<close>

lemma parseMemoryBytes_norm: "parseMemoryBytes (trimSpace (lowerName s)) = parseMemoryBytes s"
  by (simp add: parseMemoryBytes_def)

lemma parseMemoryBytes_zero: "trimSpace (lowerName s) \<in> {''0'', []} \<Longrightarrow> parseMemoryBytes s = Inr 0"
  by (auto simp: parseMemoryBytes_def)

lemma validateMaxMemoryString_None:
  "validateMaxMemoryString s = None \<longleftrightarrow> (\<exists>w. parseMemoryBytes s = Inr w)"
  using parseMemoryBytes_zero [of s]
  by (auto simp: validateMaxMemoryString_def parseMemoryBytes_norm Let_def split: sum.splits)

lemma Validate_ok:
  assumes "Validate fs c = None"
  shows "32 \<le> length (trimSpace (SharedSecret c))"
    "1 \<le> ClientPort c" "ClientPort c \<le> 65535" "1 \<le> PeerPort c" "PeerPort c \<le> 65535" "ClientPort c \<noteq> PeerPort c"
    "NormalizeMaxMemoryPolicy c \<in> set allowedMaxMemoryPolicies"
    "NormalizeLogLevel c \<in> set allowedLogLevels"
    "1 \<le> HeartbeatInterval c" "HeartbeatInterval c < HeartbeatTimeout c"
    "p \<in> set (Peers c) \<Longrightarrow> ValidatePeerAddr p = None"
    "\<exists>w. MaxMemoryBytes c = Inr w"
    "MetricsPort c \<noteq> 0 \<Longrightarrow> MetricsPort c \<notin> {ClientPort c, PeerPort c}"
    "MgmtTCPPort c \<noteq> 0 \<Longrightarrow> MgmtTCPPort c \<notin> {ClientPort c, PeerPort c, MetricsPort c} \<and> validateMgmtTCPBind (MgmtTCPBind c)"
    "PeerTLSEnabled (Some c) \<Longrightarrow> trimSpace (PeerTLSCAFile c) \<noteq> []"
  using assms unfolding Validate_def Let_def firstErr_None
  by (simp_all add: badPort_def NormalizeMaxMemoryPolicy_def NormalizeLogLevel_def validatePeers_None firstErr_None
      PeerTLSEnabled_def MaxMemoryBytes_def validateMaxMemoryString_None split: if_splits)


section \<open>The memory limit\<close>

lemma memMul_facts:
  assumes "memMul suffix = Some mul"
  shows "mul \<in> {1, 1024, 1024 * 1024, 1024 * 1024 * 1024}" "\<forall>c\<in>set suffix. is_graph c \<and> \<not> is_digit c \<and> toLowerChar c = c"
    "trimSpace suffix = suffix"
proof -
  show "mul \<in> {1, 1024, 1024 * 1024, 1024 * 1024 * 1024}" using assms by (auto simp: memMul_def split: if_splits)
  show g: "\<forall>c\<in>set suffix. is_graph c \<and> \<not> is_digit c \<and> toLowerChar c = c"
  proof -
    have "suffix \<in> {[], ''b'', ''k'', ''kb'', ''m'', ''mb'', ''g'', ''gb''}"
      using assms by (auto simp: memMul_def split: if_splits)
    then show ?thesis
      by (elim insertE emptyE; hypsubst) (simp_all add: is_graph_def is_digit_def toLowerChar_def)
  qed
  show "trimSpace suffix = suffix"
  proof (cases "suffix = []")
    case False
    with g show ?thesis by (intro trimSpace_graph) auto
  qed simp
qed

text \<open>A number with a size suffix, in any case and with space around it, is its product; the product of an
  accepted limit never wraps.\<close>

lemma parseMemoryBytes_value:
  assumes s: "trimSpace (lowerName s) = formatUint n @ suffix" and m: "memMul suffix = Some mul"
    and n: "n * mul \<le> maxUint64"
  shows "parseMemoryBytes s = Inr (of_nat (n * mul))"
proof -
  note mf = memMul_facts [OF m]
  have mul: "mul > 0" using mf(1) by auto
  have "n \<le> n * mul" using mul by simp
  with n have nm: "n \<le> maxUint64" by linarith
  have "n \<le> maxUint64 div mul" using n mul by (simp add: less_eq_div_iff_mult_less_eq)
  moreover have "dropWhile (\<lambda>c. \<not> is_digit c) (rev suffix @ rev (formatUint n)) = rev (formatUint n)"
  proof -
    obtain c cs where c: "rev (formatUint n) = c # cs" by (cases "rev (formatUint n)") auto
    then have "is_digit c" using formatUint_digits [of c n] by (metis list.set_intros(1) set_rev)
    moreover have "dropWhile (\<lambda>c. \<not> is_digit c) (rev suffix @ c # cs) = dropWhile (\<lambda>c. \<not> is_digit c) (c # cs)"
      using mf(2) by (intro dropWhile_append2) auto
    ultimately show ?thesis using c by simp
  qed
  moreover have "parseMemoryBytes s = Inr 0" if "formatUint n @ suffix = ''0''"
    using s that by (intro parseMemoryBytes_zero) simp
  moreover have "n = 0" if "formatUint n @ suffix = ''0''"
  proof -
    have "formatUint n = ''0''" using that by (cases "formatUint n") auto
    then show ?thesis using parseUint_formatUint [OF nm] by (simp add: parseUint_def digit_val_def is_digit_def)
  qed
  ultimately show ?thesis
    using s m mf(3) nm by (auto simp: parseMemoryBytes_def Let_def not_less)
qed

lemma parseMemoryBytes_sound:
  assumes "parseMemoryBytes s = Inr w" and "trimSpace (lowerName s) \<notin> {''0'', []}"
  shows "\<exists>num n suffix mul. trimSpace (lowerName s) = num @ suffix \<and> parseUint num = Inr n \<and>
    memMul (trimSpace suffix) = Some mul \<and> unat w = n * mul"
proof -
  define t where "t = trimSpace (lowerName s)"
  define num where "num = rev (dropWhile (\<lambda>c. \<not> is_digit c) (rev t))"
  have "num = take (length num) t"
    unfolding num_def by (metis dropWhile_eq_drop length_rev rev_drop rev_rev_ident length_drop)
  then have t: "t = num @ drop (length num) t" by (metis append_take_drop_id)
  obtain n mul where n: "parseUint num = Inr n" "memMul (trimSpace (drop (length num) t)) = Some mul"
    "n \<le> maxUint64 div mul" "w = of_nat n * of_nat mul"
    using assms unfolding parseMemoryBytes_def t_def [symmetric] Let_def num_def [symmetric]
    by (auto simp: not_less split: if_splits sum.splits option.splits)
  have "n * mul \<le> maxUint64"
    using n(3) by (metis div_times_less_eq_dividend le_trans mult_le_mono1)
  then have "n * mul < 2 ^ 64" by (simp add: maxUint64_def)
  then have "unat (of_nat (n * mul) :: 64 word) = n * mul" by (simp add: unat_of_nat del: of_nat_mult)
  then have "unat w = n * mul" using n(4) by simp
  with n t show ?thesis unfolding t_def by blast
qed


section \<open>Peer lists\<close>

lemma peersEqual_iff: "peersEqual a b \<longleftrightarrow> a = b"
  by (auto simp: peersEqual_def list_eq_iff_nth_eq)

definition peerCount :: "(bytes, nat) gomap \<Rightarrow> bytes \<Rightarrow> nat" where
  "peerCount m p = (case mapGet m p of None \<Rightarrow> 0 | Some n \<Rightarrow> n)"

lemma countPeers_count: "peerCount (countPeers ps) p = count (mset ps) p"
proof -
  have "peerCount (fold (\<lambda>p m. mapPut p (Suc (case mapGet m p of None \<Rightarrow> 0 | Some n \<Rightarrow> n)) m) ps m) p =
      peerCount m p + count (mset ps) p" for m
    by (induction ps arbitrary: m) (auto simp: peerCount_def)
  from this [of "[]"] show ?thesis by (simp add: countPeers_def peerCount_def)
qed

lemma takePeers_iff: "takePeers m ps \<longleftrightarrow> (\<forall>p. count (mset ps) p \<le> peerCount m p)"
proof (induction m ps rule: takePeers.induct)
  case (2 m p ps)
  show ?case
  proof (cases "peerCount m p")
    case 0
    then have "\<not> takePeers m (p # ps)" by (auto simp: peerCount_def split: option.splits)
    moreover have "\<not> count (mset (p # ps)) p \<le> peerCount m p" using 0 by simp
    ultimately show ?thesis by blast
  next
    case (Suc n)
    then have m: "mapGet m p = Some (Suc n)" by (auto simp: peerCount_def split: option.splits)
    then have "takePeers m (p # ps) \<longleftrightarrow> (\<forall>q. count (mset ps) q \<le> peerCount (mapPut p n m) q)"
      using "2.IH" [OF m refl] by simp
    moreover have "count (mset ps) q \<le> peerCount (mapPut p n m) q \<longleftrightarrow> count (mset (p # ps)) q \<le> peerCount m q" for q
      using m by (cases "q = p") (simp_all add: peerCount_def)
    ultimately show ?thesis by blast
  qed
qed simp

lemma peersMultisetSubset_iff: "peersMultisetSubset old new \<longleftrightarrow> mset old \<subseteq># mset new"
proof -
  have "mset old \<subseteq># mset new \<Longrightarrow> length old \<le> length new" using size_mset_mono by fastforce
  moreover have "takePeers (countPeers new) old \<longleftrightarrow> mset old \<subseteq># mset new"
    by (simp add: takePeers_iff countPeers_count subseteq_mset_def)
  ultimately show ?thesis by (auto simp: peersMultisetSubset_def)
qed

lemma addPeer_fold:
  "distinct out \<Longrightarrow> [] \<notin> set out \<Longrightarrow>
   distinct (fold addPeer ps out) \<and> (\<exists>more. fold addPeer ps out = out @ more) \<and>
   set (fold addPeer ps out) = set out \<union> (trimSpace ` set ps - {[]})"
proof (induction ps arbitrary: out)
  case (Cons p ps)
  have a: "distinct (addPeer p out)" "[] \<notin> set (addPeer p out)" "\<exists>more. addPeer p out = out @ more"
    "set (addPeer p out) = set out \<union> ({trimSpace p} - {[]})"
    using Cons.prems by (auto simp: addPeer_def Let_def)
  have "distinct (fold addPeer ps (addPeer p out))" "\<exists>more. fold addPeer ps (addPeer p out) = addPeer p out @ more"
    "set (fold addPeer ps (addPeer p out)) = set (addPeer p out) \<union> (trimSpace ` set ps - {[]})"
    using Cons.IH [OF a(1,2)] by simp_all
  moreover have "\<exists>more. fold addPeer ps (addPeer p out) = out @ more"
    using a(3) calculation(2) by (metis append_assoc)
  ultimately show ?case using a(4) by (simp add: insert_Diff_if Un_assoc)
qed auto


section \<open>Reloading\<close>

definition hotNames :: "bytes list" where
  "hotNames =
     [''announce_leave'', ''resync_on_gap'', ''resync_min_interval'', ''peers'', ''log_level'', ''log_output'', ''log_format'',
      ''max_memory'', ''max_memory_policy'', ''auth_password'', ''client_idle_timeout'', ''heartbeat_interval'',
      ''heartbeat_timeout'', ''peer_queue_depth'', ''auto_discover_peers'']"

lemma diff_blocked_Nil: "snd (diffConfigs a b) = [] \<longleftrightarrow> (\<forall>(d, h, n)\<in>set (diffRows a b). d \<longrightarrow> h)"
  by (auto simp: diffConfigs_def filter_empty_conv)

lemma diff_hot: "set (fst (diffConfigs a b)) = {n. \<exists>d h. (d, h, n) \<in> set (diffRows a b) \<and> d \<and> h}"
  by (auto simp: diffConfigs_def image_iff) force+

text \<open>What a reload accepts: a valid configuration that agrees with the running one on the settings that
  cannot change, whose peer list only grew.\<close>

lemma diff_unblocked:
  assumes "snd (diffConfigs a b) = []"
  shows "ClientBind a = ClientBind b" "ClientPort a = ClientPort b" "PeerBind a = PeerBind b" "PeerPort a = PeerPort b"
    "SharedSecret a = SharedSecret b" "trimSpace (ClusterID a) = trimSpace (ClusterID b)"
    "trimSpace (NodeID a) = trimSpace (NodeID b)" "trimSpace (AdvertiseAddr a) = trimSpace (AdvertiseAddr b)"
    "mset (Peers a) \<subseteq># mset (Peers b)"
  using assms unfolding diff_blocked_Nil diffRows_def
  by (simp_all add: peersEqual_iff peersMultisetSubset_iff) (cases "Peers a = Peers b"; simp)

lemma diff_hot_names: "set (fst (diffConfigs a b)) \<subseteq> set hotNames"
  unfolding diff_hot diffRows_def hotNames_def by auto

lemma diff_same: "diffConfigs a a = ([], [])"
  by (simp add: diffConfigs_def diffRows_def peersEqual_iff)

lemma Reload_ok:
  assumes "Reload fs y t (Some cur) path = Inr (new, changed)"
  shows "Validate fs new = None" "snd (diffConfigs cur new) = []" "changed = fst (diffConfigs cur new)"
  using assms
  by (auto simp: Reload_def Load_def Let_def split: sum.splits option.splits prod.splits if_splits)

end
