(* ===== verification/Store_Snapshot.thy ===== *)
theory Store_Snapshot
  imports Store_Keys Store_Set Store_List Config
begin

text \<open>
  Creation and configuration of the store (\<^verbatim>\<open>src/internal/store/store.go\<close>) and the snapshots a
  joining node is filled from (end of \<^verbatim>\<open>store_collections.go\<close>).
\<close>


section \<open>Creation and configuration\<close>

definition refreshConfigCache :: "Config option \<Rightarrow> store \<Rightarrow> store" where
  "refreshConfigCache cfg s =
     (case cfg of
        None \<Rightarrow> s\<lparr>policyCache := ''noeviction'', maxMemCache := 0\<rparr>
      | Some c \<Rightarrow>
          (let s = s\<lparr>policyCache := NormalizeMaxMemoryPolicy c\<rparr>
           in case MaxMemoryBytes c of
                Inl _ \<Rightarrow> s\<lparr>maxMemCache := 0\<rparr>
              | Inr n \<Rightarrow> s\<lparr>maxMemCache := n\<rparr>))"

definition ReplaceConfig :: "Config option \<Rightarrow> store \<Rightarrow> store" where
  "ReplaceConfig cfg s = (case cfg of None \<Rightarrow> s | Some c \<Rightarrow> refreshConfigCache (Some c) s)"

text \<open>\<open>rnd\<close> is what the random generator of the process will draw.\<close>

definition NewStore :: "(nat \<Rightarrow> nat) \<Rightarrow> Config option \<Rightarrow> store option" where
  "NewStore rnd cfg =
     (case cfg of
        None \<Rightarrow> None
      | Some c \<Rightarrow>
          Some (refreshConfigCache (Some c)
            \<lparr>shards = (\<lambda>_. emptyShard), mem = 0, policyCache = [], maxMemCache = 0, readLRUTick = 0,
             evictCursor = 0, watch = (\<lambda>_. 0), rand = rnd\<rparr>))"


section \<open>Snapshots\<close>

record SnapshotEntry =
  snapKey :: bytes
  snapType :: bytes
  snapValue :: bytes
  snapFields :: "(bytes, bytes) gomap"
  snapMembers :: "bytes list"
  snapElements :: "bytes list"
  snapTTLMs :: int

definition buildSnapshotEntry :: "time \<Rightarrow> bytes \<Rightarrow> entry \<Rightarrow> SnapshotEntry" where
  "buildSnapshotEntry now key e =
     (let ttl = (if isZero (expiresAt e) then 0
                 else let ms = durMilliseconds (timeUntil now (expiresAt e)) in if ms < 0 then 0 else ms);
          ent = \<lparr>snapKey = key, snapType = [], snapValue = [], snapFields = [], snapMembers = [],
                 snapElements = [], snapTTLMs = ttl\<rparr>
      in case evalue e of
           VString b \<Rightarrow> ent\<lparr>snapType := ''string'', snapValue := b\<rparr>
         | VHash h \<Rightarrow> ent\<lparr>snapType := ''hash'', snapFields := fold (\<lambda>(fk, fv) m. mapPut fk fv m) h []\<rparr>
         | VList l \<Rightarrow> ent\<lparr>snapType := ''list'', snapElements := l\<rparr>
         | VSet st \<Rightarrow> ent\<lparr>snapType := ''set'', snapMembers := st\<rparr>)"

text \<open>The batch of one shard; the shards are read one after the other, each under its own lock, so each
  has its own state of the store and its own clock reading.\<close>

definition snapshotShard :: "time \<Rightarrow> store \<Rightarrow> nat \<Rightarrow> SnapshotEntry list" where
  "snapshotShard now s si =
     map (\<lambda>(k, e). buildSnapshotEntry now k e) (filter (\<lambda>(k, e). \<not> isExpired now e) (shm (shards s si)))"

definition SnapshotCtx :: "(nat \<Rightarrow> time \<times> store) \<Rightarrow> SnapshotEntry list" where
  "SnapshotCtx at = concat (map (\<lambda>si. case at si of (now, s) \<Rightarrow> snapshotShard now s si) [0..<NumShards])"

definition Snapshot :: "time \<Rightarrow> store \<Rightarrow> SnapshotEntry list" where
  "Snapshot now s = SnapshotCtx (\<lambda>_. (now, s))"

text \<open>The value of a snapshot row.\<close>

definition snapshotValue :: "SnapshotEntry \<Rightarrow> dvalue option" where
  "snapshotValue ent =
     (if snapType ent = ''string'' then Some (VString (snapValue ent))
      else if snapType ent = ''hash'' then Some (VHash (fold (\<lambda>(k, v) m. mapPut k v m) (snapFields ent) []))
      else if snapType ent = ''list'' then Some (VList (snapElements ent))
      else if snapType ent = ''set'' then Some (VSet (fst (saddLoop [] (snapMembers ent))))
      else None)"

definition applySnapshotEntry :: "time \<Rightarrow> store \<Rightarrow> SnapshotEntry \<Rightarrow> store \<times> store_error option" where
  "applySnapshotEntry now s ent =
     (let key = snapKey ent;
          exp = (if snapTTLMs ent > 0 then timeAdd now (durMul (snapTTLMs ent) durMillisecond) else zeroTime)
      in case snapshotValue ent of
           None \<Rightarrow> (s, Some (ErrSnapshotType (snapType ent)))
         | Some v \<Rightarrow>
             (case ensureMemoryWithRetry s key (estimateMem key (newEntry v exp)) of
                (s, _, Some err) \<Rightarrow> (s, Some err)
              | (s, _, None) \<Rightarrow> (replaceEntry s key (getEntry s key) (newEntry v exp), None)))"

definition ApplySnapshotEntry :: "time \<Rightarrow> store \<Rightarrow> SnapshotEntry \<Rightarrow> store \<times> store_error option" where
  "ApplySnapshotEntry now s ent = applySnapshotEntry now s ent"

fun applySnapshotLoop :: "time \<Rightarrow> store \<Rightarrow> SnapshotEntry list \<Rightarrow> store \<times> store_error option" where
  "applySnapshotLoop now s [] = (s, None)"
| "applySnapshotLoop now s (ent # ents) =
     (case applySnapshotEntry now s ent of
        (s, Some err) \<Rightarrow> (s, Some err)
      | (s, None) \<Rightarrow> applySnapshotLoop now s ents)"

definition ApplySnapshot :: "time \<Rightarrow> store \<Rightarrow> SnapshotEntry list \<Rightarrow> store \<times> store_error option" where
  "ApplySnapshot now s entries = applySnapshotLoop now (FlushDB s) entries"

section \<open>What configuring keeps\<close>

lemma refreshConfigCache_facts [simp]:
  "storeInv (refreshConfigCache cfg s) = storeInv s" "db (refreshConfigCache cfg s) = db s"
  "watch (refreshConfigCache cfg s) = watch s" "memDrift (refreshConfigCache cfg s) = memDrift s"
  by (simp_all add: refreshConfigCache_def storeInv_def db_def getEntry_def shardFor_def memDrift_def totalMem_def
      Let_def fun_eq_iff split: option.split sum.split)

lemma ReplaceConfig_facts [simp]:
  "storeInv (ReplaceConfig cfg s) = storeInv s" "db (ReplaceConfig cfg s) = db s"
  "watch (ReplaceConfig cfg s) = watch s" "memDrift (ReplaceConfig cfg s) = memDrift s"
  by (simp_all add: ReplaceConfig_def split: option.split)

lemma emptyShard_ok: "shardOk i emptyShard"
  by (simp add: shardOk_def emptyShard_def lruOk_def)

lemma NewStore_facts:
  assumes "NewStore rnd cfg = Some s"
  shows "storeInv s" "db s = Map.empty" "memExact s" "watch s = (\<lambda>_. 0)"
proof -
  obtain c where c: "cfg = Some c" using assms by (cases cfg) (auto simp: NewStore_def)
  let ?s = "\<lparr>shards = (\<lambda>_. emptyShard), mem = 0, policyCache = [], maxMemCache = 0, readLRUTick = 0,
             evictCursor = 0, watch = (\<lambda>_. 0), rand = rnd\<rparr>"
  have s: "s = refreshConfigCache (Some c) ?s" using assms c by (simp add: NewStore_def)
  have "totalMem ?s = 0" by (simp add: totalMem_def shardMem_def emptyShard_def)
  moreover have "db ?s = Map.empty" by (simp add: db_def getEntry_def shardFor_def emptyShard_def fun_eq_iff)
  moreover have "storeInv ?s" by (simp add: storeInv_def emptyShard_ok)
  ultimately show "storeInv s" "db s = Map.empty" "memExact s" "watch s = (\<lambda>_. 0)"
    unfolding s memExact_drift refreshConfigCache_facts by (simp_all add: memDrift_def)
qed

text \<open>The limits a store enforces are those of a validated configuration.\<close>

lemma refreshConfigCache_valid:
  assumes "Validate fs c = None"
  shows "policy (refreshConfigCache (Some c) s) \<in> set allowedMaxMemoryPolicies"
    "MaxMemoryBytes c = Inr (maxMemBytes (refreshConfigCache (Some c) s))"
proof -
  have "NormalizeMaxMemoryPolicy c \<noteq> []" using Validate_ok(7) [OF assms] by (auto simp: allowedMaxMemoryPolicies_def)
  then show "policy (refreshConfigCache (Some c) s) \<in> set allowedMaxMemoryPolicies"
    using Validate_ok(7) [OF assms] by (simp add: refreshConfigCache_def policy_def Let_def split: sum.split)
  show "MaxMemoryBytes c = Inr (maxMemBytes (refreshConfigCache (Some c) s))"
    using Validate_ok(12) [OF assms] by (auto simp: refreshConfigCache_def maxMemBytes_def Let_def)
qed


section \<open>Snapshots\<close>

lemma fold_mapPut_append: "mapOk (m @ h) \<Longrightarrow> fold (\<lambda>(k, v) m. mapPut k v m) h m = m @ h"
proof (induction h arbitrary: m)
  case (Cons p h)
  obtain k v where p: "p = (k, v)" by (cases p)
  have "k \<notin> fst ` set m" using Cons.prems p by auto
  then have "mapPut k v m = m @ [(k, v)]" by (induction m) auto
  with Cons p show ?case by simp
qed simp

lemma fold_mapPut_Nil: "mapOk h \<Longrightarrow> fold (\<lambda>(k, v) m. mapPut k v m) h [] = h"
  using fold_mapPut_append [of "[]" h] by simp

lemma saddLoop_append: "distinct (st @ ms) \<Longrightarrow> fst (saddLoop st ms) = st @ ms"
proof (induction ms arbitrary: st)
  case (Cons m ms)
  from Cons.IH [of "st @ [m]"] Cons.prems show ?case by (auto split: prod.split)
qed simp

text \<open>What a snapshot taken at \<open>now\<close> and applied at \<open>now'\<close> makes of a value and its expiry.\<close>

definition snapExpiry :: "time \<Rightarrow> time \<Rightarrow> time \<Rightarrow> time" where
  "snapExpiry now now' t =
     (let ms = (if isZero t then 0 else max 0 (durMilliseconds (timeUntil now t)))
      in if ms > 0 then timeAdd now' (durMul ms durMillisecond) else zeroTime)"

lemma snapshotValue_build: "valueOk (evalue e) \<Longrightarrow> snapshotValue (buildSnapshotEntry now k e) = Some (evalue e)"
  by (cases "evalue e") (auto simp: snapshotValue_def buildSnapshotEntry_def Let_def fold_mapPut_Nil saddLoop_append)

lemma build_fields [simp]:
  "snapKey (buildSnapshotEntry now k e) = k"
  "snapTTLMs (buildSnapshotEntry now k e) =
     (if isZero (expiresAt e) then 0 else max 0 (durMilliseconds (timeUntil now (expiresAt e))))"
  by (auto simp: buildSnapshotEntry_def Let_def max_def split: dvalue.split)

definition snapContent :: "time \<Rightarrow> SnapshotEntry \<Rightarrow> dvalue \<times> time" where
  "snapContent now ent =
     (the (snapshotValue ent),
      if snapTTLMs ent > 0 then timeAdd now (durMul (snapTTLMs ent) durMillisecond) else zeroTime)"

lemma snapContent_build:
  "valueOk (evalue e) \<Longrightarrow> snapContent now' (buildSnapshotEntry now k e) = (evalue e, snapExpiry now now' (expiresAt e))"
  by (simp add: snapContent_def snapshotValue_build snapExpiry_def Let_def)

lemma applySnapshotEntry_wrote:
  assumes inv: "storeInv s" and v: "snapshotValue ent = Some v" "valueOk v"
    and r: "applySnapshotEntry now s ent = (s', err)"
  shows "wroteOrOOM (snapKey ent) (snapContent now ent) s s' err"
proof -
  let ?t = "if snapTTLMs ent > 0 then timeAdd now (durMul (snapTTLMs ent) durMillisecond) else zeroTime"
  let ?d = "estimateMem (snapKey ent) (newEntry v ?t)"
  obtain s1 evd er where e: "ensureMemoryWithRetry s (snapKey ent) ?d = (s1, evd, er)"
    by (cases "ensureMemoryWithRetry s (snapKey ent) ?d")
  note ep = ensure_props [OF e inv]
  have st: "prims (quietLabels (snapKey ent)) s s1" by (rule evictedFrom_steps [OF ep(1)]) simp
  have free: "maxMemBytes s = 0 \<Longrightarrow> s1 = s \<and> er = None"
    using e ensure_fits [of s ?d "snapKey ent"] by simp
  show ?thesis
  proof (cases er)
    case None
    with r e v have "s' = replaceEntry s1 (snapKey ent) (getEntry s1 (snapKey ent)) (newEntry v ?t)" "err = None"
      by (simp_all add: applySnapshotEntry_def Let_def)
    moreover have "wroteOrOOM (snapKey ent) (v, ?t) s (replaceEntry s1 (snapKey ent) (getEntry s1 (snapKey ent)) (newEntry v ?t)) None"
      by (rule wroteOrOOM_write [OF st v(2)]) (use free in auto)
    moreover have "snapContent now ent = (v, ?t)" using v by (simp add: snapContent_def)
    ultimately show ?thesis by (simp only:)
  next
    case (Some x)
    with r e v ep(2) have "s' = s1" "err = Some ErrOOM" by (auto simp: applySnapshotEntry_def Let_def)
    with st free Some show ?thesis by (auto intro: wroteOrOOM_refused)
  qed
qed

lemma applySnapshotLoop_unlimited:
  "storeInv s \<Longrightarrow> maxMemBytes s = 0 \<Longrightarrow> \<forall>ent\<in>set ents. \<exists>v. snapshotValue ent = Some v \<and> valueOk v \<Longrightarrow>
   applySnapshotLoop now s ents = (s', err) \<Longrightarrow>
   err = None \<and> storeInv s' \<and> db s' = db s ++ map_of (rev (map (\<lambda>ent. (snapKey ent, snapContent now ent)) ents))"
proof (induction ents arbitrary: s)
  case (Cons ent ents)
  obtain s1 er where a: "applySnapshotEntry now s ent = (s1, er)" by (cases "applySnapshotEntry now s ent")
  obtain v where v: "snapshotValue ent = Some v" "valueOk v" using Cons.prems by auto
  note w = applySnapshotEntry_wrote [OF Cons.prems(1) v a]
  have s1: "er = None" "storeInv s1" "maxMemBytes s1 = 0"
    and d: "db s1 = (db s)(snapKey ent \<mapsto> snapContent now ent)"
    using w Cons.prems(1,2) prims_inv [OF wroteOrOOM_more [OF w]] prims_config [OF wroteOrOOM_more [OF w]]
    by (auto simp: wroteOrOOM_def fun_eq_iff maxMemBytes_def)
  have "applySnapshotLoop now s1 ents = (s', err)" using Cons.prems(4) a s1(1) by simp
  note IH = Cons.IH [OF s1(2,3) _ this]
  have "db s ++ map_of (rev (map (\<lambda>ent. (snapKey ent, snapContent now ent)) (ent # ents))) =
      db s1 ++ map_of (rev (map (\<lambda>ent. (snapKey ent, snapContent now ent)) ents))"
    by (auto simp: d map_add_def fun_eq_iff split: option.split)
  with IH Cons.prems(3) show ?case by (simp only: list.set insert_iff) blast
qed simp

lemma SnapshotCtx_rows:
  assumes "\<And>i. storeInv (snd (at i))"
  shows "distinct (map snapKey (SnapshotCtx at))"
    "ent \<in> set (SnapshotCtx at) \<longleftrightarrow>
       (\<exists>k e. getEntry (snd (at (shardIndex k))) k = Some e \<and> \<not> isExpired (fst (at (shardIndex k))) e \<and>
         ent = buildSnapshotEntry (fst (at (shardIndex k))) k e)"
proof -
  let ?f = "\<lambda>i. snapshotShard (fst (at i)) (snd (at i)) i"
  have keys: "map snapKey (?f i) = map fst (filter (\<lambda>(k, e). \<not> isExpired (fst (at i)) e) (shm (shards (snd (at i)) i)))" for i
    by (simp add: snapshotShard_def comp_def case_prod_beta)
  have m: "ent \<in> set (?f i) \<longleftrightarrow> (\<exists>k e. i = shardIndex k \<and> getEntry (snd (at i)) k = Some e \<and>
      \<not> isExpired (fst (at i)) e \<and> ent = buildSnapshotEntry (fst (at i)) k e)" for i ent
    using shard_keys [OF assms [of i]] by (fastforce simp: snapshotShard_def)
  show "distinct (map snapKey (SnapshotCtx at))"
    unfolding SnapshotCtx_def map_concat case_prod_beta list.map_comp
  proof (rule distinct_concat_routed [where idx = shardIndex])
    show "distinct ((map snapKey \<circ> ?f) i)" for i
      using shardOk_mapOk [OF storeInv_shard [OF assms [of i]], of i] keys [of i] by (simp add: distinct_map_filter)
    show "k \<in> set ((map snapKey \<circ> ?f) i) \<Longrightarrow> shardIndex k = i" for k i
      using m by fastforce
  qed simp
  have "ent \<in> set (SnapshotCtx at) \<longleftrightarrow> (\<exists>i<NumShards. ent \<in> set (?f i))"
    by (auto simp: SnapshotCtx_def case_prod_beta)
  also have "\<dots> \<longleftrightarrow> (\<exists>k e. getEntry (snd (at (shardIndex k))) k = Some e \<and> \<not> isExpired (fst (at (shardIndex k))) e \<and>
         ent = buildSnapshotEntry (fst (at (shardIndex k))) k e)"
    unfolding m using shardIndex_less by blast
  finally show "ent \<in> set (SnapshotCtx at) \<longleftrightarrow>
       (\<exists>k e. getEntry (snd (at (shardIndex k))) k = Some e \<and> \<not> isExpired (fst (at (shardIndex k))) e \<and>
         ent = buildSnapshotEntry (fst (at (shardIndex k))) k e)" .
qed

lemma ApplySnapshot_SnapshotCtx:
  assumes inv: "storeInv d" "maxMemBytes d = 0" and src: "\<And>i. storeInv (snd (at i))"
    and r: "ApplySnapshot now' d (SnapshotCtx at) = (d', err)"
  shows "err = None" "storeInv d'"
    "db d' k = map_option (\<lambda>(v, t). (v, snapExpiry (fst (at (shardIndex k))) now' t))
       (view (fst (at (shardIndex k))) (snd (at (shardIndex k))) k)"
proof -
  let ?rows = "SnapshotCtx at" and ?c = "\<lambda>ent. (snapKey ent, snapContent now' ent)"
  note rows = SnapshotCtx_rows [of at, OF src]
  have ok: "\<forall>ent\<in>set ?rows. \<exists>v. snapshotValue ent = Some v \<and> valueOk v"
    using storeInv_valueOk [OF src] by (auto simp: rows(2) snapshotValue_build)
  note fl = FlushDB_spec [OF inv(1)]
  have "applySnapshotLoop now' (FlushDB d) ?rows = (d', err)" using r by (simp add: ApplySnapshot_def)
  from applySnapshotLoop_unlimited [OF fl(1) _ ok this] inv(2) fl(2,7)
  have d: "err = None" "storeInv d'" "db d' = map_of (rev (map ?c ?rows))" by (simp_all add: maxMemBytes_def)
  show "err = None" "storeInv d'" by fact+
  have dist: "distinct (map fst (map ?c ?rows))" using rows(1) by (simp add: comp_def)
  then have "db d' k = Some c \<longleftrightarrow> (k, c) \<in> set (map ?c ?rows)" for c
    unfolding d(3) using map_of_eq_Some_iff [of "rev (map ?c ?rows)" k c] by (simp add: rev_map [symmetric] del: map_of_eq_Some_iff)
  moreover have "(k, c) \<in> set (map ?c ?rows) \<longleftrightarrow>
      (\<exists>e. getEntry (snd (at (shardIndex k))) k = Some e \<and> \<not> isExpired (fst (at (shardIndex k))) e \<and>
        c = (evalue e, snapExpiry (fst (at (shardIndex k))) now' (expiresAt e)))" (is "?l c \<longleftrightarrow> ?r c") for c
  proof
    assume "?l c"
    then obtain ent where "ent \<in> set ?rows" "snapKey ent = k" "c = snapContent now' ent" by auto
    then show "?r c" using storeInv_valueOk [OF src] by (auto simp: rows(2) snapContent_build)
  next
    assume "?r c"
    then obtain e where e: "getEntry (snd (at (shardIndex k))) k = Some e" "\<not> isExpired (fst (at (shardIndex k))) e"
      "c = (evalue e, snapExpiry (fst (at (shardIndex k))) now' (expiresAt e))" by blast
    let ?ent = "buildSnapshotEntry (fst (at (shardIndex k))) k e"
    have "?ent \<in> set ?rows" using e rows(2) by blast
    then have "?c ?ent \<in> set (map ?c ?rows)" unfolding list.set_map by (rule imageI)
    moreover have "?c ?ent = (k, c)" using e storeInv_valueOk [OF src e(1)] by (simp add: snapContent_build)
    ultimately show "?l c" by (simp only:)
  qed
  ultimately have "db d' k = Some c \<longleftrightarrow> map_option (\<lambda>(v, t). (v, snapExpiry (fst (at (shardIndex k))) now' t))
       (view (fst (at (shardIndex k))) (snd (at (shardIndex k))) k) = Some c" for c
    by (auto simp: view_getEntry content_def split: option.splits)
  then show "db d' k = map_option (\<lambda>(v, t). (v, snapExpiry (fst (at (shardIndex k))) now' t))
       (view (fst (at (shardIndex k))) (snd (at (shardIndex k))) k)" by (metis not_Some_eq)
qed

end
