(* ===== verification/Store_Calls.thy ===== *)
theory Store_Calls
  imports Store_Snapshot
begin

text \<open>
  All the methods of the store as one type of calls: what each call may do to the keys it does not
  name, and the states a store can reach.
\<close>


section \<open>Calls\<close>

datatype string_call =
    CGet bytes
  | CSet bytes bytes time
  | CSetNX bytes bytes time
  | CSetXX bytes bytes time
  | CGetSet bytes bytes time
  | CAppend bytes bytes
  | CIncrBy bytes int
  | CDecrBy bytes int
  | CMGet "bytes list"
  | CMSet "(bytes \<times> bytes) list"
  | CMSetNX "(bytes \<times> bytes) list"

datatype key_call =
    CDel "bytes list"
  | CExists "bytes list"
  | CType bytes
  | CRename bytes bytes
  | CRenameNX bytes bytes
  | CExpire bytes int
  | CExpireAt bytes time
  | CTTL bytes
  | CTTLMs bytes
  | CPersist bytes
  | CScan "64 word" bytes int bytes
  | CSnapshotEntry SnapshotEntry
  | CSampleShards "nat \<Rightarrow> nat \<Rightarrow> bytes list \<Rightarrow> bytes list"

datatype hash_call =
    CHSet bytes "(bytes \<times> bytes) list"
  | CHGet bytes bytes
  | CHGetAll bytes
  | CHDel bytes "bytes list"
  | CHExists bytes bytes
  | CHLen bytes
  | CHSetNX bytes bytes bytes
  | CHIncrBy bytes bytes int
  | CHIncrByFloat float_ops bytes bytes "64 word"

datatype list_call =
    CLPush bytes "bytes list"
  | CRPush bytes "bytes list"
  | CLPushX bytes "bytes list"
  | CRPushX bytes "bytes list"
  | CLPop bytes int
  | CRPop bytes int
  | CLLen bytes
  | CLRange bytes int int
  | CLIndex bytes int
  | CLSet bytes int bytes
  | CLRem bytes int bytes
  | CLTrim bytes int int
  | CLInsert bytes bool bytes bytes

datatype set_call =
    CSAdd bytes "bytes list"
  | CSRem bytes "bytes list"
  | CSMembers bytes
  | CSIsMember bytes bytes
  | CSCard bytes
  | CReplaceSet bytes "bytes list"

datatype store_call =
    StringCall string_call
  | KeyCall key_call
  | HashCall hash_call
  | ListCall list_call
  | SetCall set_call

text \<open>A map filled by assignments in turn; the increments are 64-bit values.\<close>

definition mapFrom :: "(bytes \<times> bytes) list \<Rightarrow> (bytes, bytes) gomap" where
  "mapFrom ps = fold (\<lambda>(k, v) m. mapPut k v m) ps []"

fun strCall :: "time \<Rightarrow> string_call \<Rightarrow> store \<Rightarrow> store" where
  "strCall now (CGet k) s = fst (Get now s k)"
| "strCall now (CSet k v t) s = fst (Set now s k v t)"
| "strCall now (CSetNX k v t) s = fst (SetNX now s k v t)"
| "strCall now (CSetXX k v t) s = fst (SetXX now s k v t)"
| "strCall now (CGetSet k v t) s = fst (GetSet now s k v t)"
| "strCall now (CAppend k v) s = fst (Append now s k v)"
| "strCall now (CIncrBy k d) s = fst (IncrBy now s k (wrap64 d))"
| "strCall now (CDecrBy k d) s = fst (DecrBy now s k (wrap64 d))"
| "strCall now (CMGet ks) s = fst (MGet now s ks)"
| "strCall now (CMSet ps) s = fst (MSet now s (mapFrom ps))"
| "strCall now (CMSetNX ps) s = fst (MSetNX now s (mapFrom ps))"

fun keysCall :: "time \<Rightarrow> key_call \<Rightarrow> store \<Rightarrow> store" where
  "keysCall now (CDel ks) s = fst (Del now s ks)"
| "keysCall now (CExists ks) s = fst (Exists now s ks)"
| "keysCall now (CType k) s = fst (Type now s k)"
| "keysCall now (CRename a b) s = fst (Rename now s a b)"
| "keysCall now (CRenameNX a b) s = fst (RenameNX now s a b)"
| "keysCall now (CExpire k n) s = fst (Expire now s k n)"
| "keysCall now (CExpireAt k t) s = fst (ExpireAt now s k t)"
| "keysCall now (CTTL k) s = fst (TTL now s k)"
| "keysCall now (CTTLMs k) s = fst (TTLMs now s k)"
| "keysCall now (CPersist k) s = fst (Persist now s k)"
| "keysCall now (CScan c p n w) s = fst (Scan now s c p n w)"
| "keysCall now (CSnapshotEntry ent) s = fst (ApplySnapshotEntry now s ent)"
| "keysCall now (CSampleShards os) s = sampleAllShards os now s"

fun hashCall :: "time \<Rightarrow> hash_call \<Rightarrow> store \<Rightarrow> store" where
  "hashCall now (CHSet k ps) s = fst (HSet now s k (mapFrom ps))"
| "hashCall now (CHGet k f) s = fst (HGet now s k f)"
| "hashCall now (CHGetAll k) s = fst (HGetAll now s k)"
| "hashCall now (CHDel k fs) s = fst (HDel now s k fs)"
| "hashCall now (CHExists k f) s = fst (HExists now s k f)"
| "hashCall now (CHLen k) s = fst (HLen now s k)"
| "hashCall now (CHSetNX k f v) s = fst (HSetNX now s k f v)"
| "hashCall now (CHIncrBy k f d) s = fst (HIncrBy now s k f (wrap64 d))"
| "hashCall now (CHIncrByFloat fo k f d) s = fst (HIncrByFloat fo now s k f d)"

fun listCall :: "time \<Rightarrow> list_call \<Rightarrow> store \<Rightarrow> store" where
  "listCall now (CLPush k vs) s = fst (LPush now s k vs)"
| "listCall now (CRPush k vs) s = fst (RPush now s k vs)"
| "listCall now (CLPushX k vs) s = fst (LPushX now s k vs)"
| "listCall now (CRPushX k vs) s = fst (RPushX now s k vs)"
| "listCall now (CLPop k n) s = fst (LPop now s k n)"
| "listCall now (CRPop k n) s = fst (RPop now s k n)"
| "listCall now (CLLen k) s = fst (LLen now s k)"
| "listCall now (CLRange k a b) s = fst (LRange now s k a b)"
| "listCall now (CLIndex k i) s = fst (LIndex now s k i)"
| "listCall now (CLSet k i v) s = fst (LSet now s k i v)"
| "listCall now (CLRem k n v) s = fst (LRem now s k n v)"
| "listCall now (CLTrim k a b) s = fst (LTrim now s k a b)"
| "listCall now (CLInsert k b p i) s = fst (LInsert now s k b p i)"

fun setCall :: "time \<Rightarrow> set_call \<Rightarrow> store \<Rightarrow> store" where
  "setCall now (CSAdd k ms) s = fst (SAdd now s k ms)"
| "setCall now (CSRem k ms) s = fst (SRem now s k ms)"
| "setCall now (CSMembers k) s = fst (SMembers now s k)"
| "setCall now (CSIsMember k m) s = fst (SIsMember now s k m)"
| "setCall now (CSCard k) s = fst (SCard now s k)"
| "setCall now (CReplaceSet k ms) s = fst (ReplaceSet now s k ms)"

fun call :: "time \<Rightarrow> store_call \<Rightarrow> store \<Rightarrow> store" where
  "call now (StringCall c) s = strCall now c s"
| "call now (KeyCall c) s = keysCall now c s"
| "call now (HashCall c) s = hashCall now c s"
| "call now (ListCall c) s = listCall now c s"
| "call now (SetCall c) s = setCall now c s"

text \<open>The steps a call may take.  A write may evict any key; a pop or \<open>LRem\<close> shortens its list; the
  counter commands may subtract an expired entry twice.\<close>

fun strLabels :: "string_call \<Rightarrow> label set" where
  "strLabels (CGet k) = {Purge k}"
| "strLabels (CSet k _ _) = writeLabels k"
| "strLabels (CSetNX k _ _) = writeLabels k"
| "strLabels (CSetXX k _ _) = writeLabels k"
| "strLabels (CGetSet k _ _) = writeLabels k"
| "strLabels (CAppend k _) = writeLabels k"
| "strLabels (CIncrBy k _) = insert (Stale k) (writeLabels k)"
| "strLabels (CDecrBy k _) = insert (Stale k) (writeLabels k)"
| "strLabels (CMGet ks) = Purge ` set ks"
| "strLabels (CMSet ps) = writeManyLabels (fst ` set ps)"
| "strLabels (CMSetNX ps) = writeManyLabels (fst ` set ps)"

fun keysLabels :: "key_call \<Rightarrow> label set" where
  "keysLabels (CDel ks) = Purge ` set ks"
| "keysLabels (CExists ks) = Purge ` set ks"
| "keysLabels (CType k) = {Purge k}"
| "keysLabels (CRename a b) = {Purge a, Purge b, Unlink a, Write b}"
| "keysLabels (CRenameNX a b) = {Purge a, Purge b, Unlink a, Write b}"
| "keysLabels (CExpire k _) = {Purge k, Write k}"
| "keysLabels (CExpireAt k _) = {Purge k, Write k}"
| "keysLabels (CTTL k) = {Purge k}"
| "keysLabels (CTTLMs k) = {Purge k}"
| "keysLabels (CPersist k) = {Purge k, Write k}"
| "keysLabels (CScan _ _ _ _) = range Purge"
| "keysLabels (CSnapshotEntry ent) = writeLabels (snapKey ent)"
| "keysLabels (CSampleShards _) = range Purge"

fun hashLabels :: "hash_call \<Rightarrow> label set" where
  "hashLabels (CHSet k _) = writeLabels k"
| "hashLabels (CHGet k _) = {Purge k}"
| "hashLabels (CHGetAll k) = {Purge k}"
| "hashLabels (CHDel k _) = {Purge k, Write k}"
| "hashLabels (CHExists k _) = {Purge k}"
| "hashLabels (CHLen k) = {Purge k}"
| "hashLabels (CHSetNX k _ _) = writeLabels k"
| "hashLabels (CHIncrBy k _ _) = writeLabels k"
| "hashLabels (CHIncrByFloat _ k _ _) = writeLabels k"

fun listLabels :: "list_call \<Rightarrow> label set" where
  "listLabels (CLPush k _) = writeLabels k"
| "listLabels (CRPush k _) = writeLabels k"
| "listLabels (CLPushX k _) = writeLabels k"
| "listLabels (CRPushX k _) = writeLabels k"
| "listLabels (CLPop k _) = {Purge k, Shrink k}"
| "listLabels (CRPop k _) = {Purge k, Shrink k}"
| "listLabels (CLLen k) = {Purge k}"
| "listLabels (CLRange k _ _) = {Purge k}"
| "listLabels (CLIndex k _) = {Purge k}"
| "listLabels (CLSet k _ _) = {Purge k, Shrink k}"
| "listLabels (CLRem k _ _) = {Purge k, Shrink k}"
| "listLabels (CLTrim k _ _) = {Purge k, Write k}"
| "listLabels (CLInsert k _ _ _) = writeLabels k"

fun setLabels :: "set_call \<Rightarrow> label set" where
  "setLabels (CSAdd k _) = writeLabels k"
| "setLabels (CSRem k _) = {Purge k, Write k}"
| "setLabels (CSMembers k) = {Purge k}"
| "setLabels (CSIsMember k _) = {Purge k}"
| "setLabels (CSCard k) = {Purge k}"
| "setLabels (CReplaceSet k _) = writeLabels k"

fun callLabels :: "store_call \<Rightarrow> label set" where
  "callLabels (StringCall c) = strLabels c"
| "callLabels (KeyCall c) = keysLabels c"
| "callLabels (HashCall c) = hashLabels c"
| "callLabels (ListCall c) = listLabels c"
| "callLabels (SetCall c) = setLabels c"

lemma mapFrom_ok [simp]: "mapOk (mapFrom ps)"
  unfolding mapFrom_def by (rule gm.put_loop_ok) simp

lemma mapFrom_get: "mapGet (mapFrom ps) = map_of (rev ps)"
  unfolding mapFrom_def using gm.put_loop_get [of "[]" ps] by simp

lemma mapFrom_keys: "fst ` set (mapFrom ps) = fst ` set ps"
proof -
  have "k \<in> fst ` set (mapFrom ps) \<longleftrightarrow> mapGet (mapFrom ps) k \<noteq> None" for k
    by (metis map_of_eq_None_iff)
  then show ?thesis by (auto simp: mapFrom_get map_of_eq_None_iff)
qed

subsection \<open>The steps of each call\<close>

text \<open>The steps of a call: those its labels allow, with at most one write of any key.\<close>

definition paced :: "label set \<Rightarrow> store \<Rightarrow> store \<Rightarrow> bool" where
  "paced L s s' \<longleftrightarrow> (\<forall>k. once (L - {Write k, Shrink k}) L s s')"

lemma paced_refl [simp]: "paced L s s"
  by (simp add: paced_def)

lemma paced_prims: "paced L s s' \<Longrightarrow> prims L s s'"
  unfolding paced_def by (erule allE, erule once_prims) auto

lemma paced_quiet: "prims Q s s' \<Longrightarrow> Q \<subseteq> L \<Longrightarrow> \<forall>k. Write k \<notin> Q \<and> Shrink k \<notin> Q \<Longrightarrow> paced L s s'"
  unfolding paced_def by (auto intro!: once_quiet elim!: prims_mono)

lemma paced_once:
  assumes "once Q W s s'" and "Q \<subseteq> L" "W \<subseteq> L" and "\<forall>k. Write k \<notin> Q \<and> Shrink k \<notin> Q" and "W \<subseteq> {Write key, Shrink key, Stale key}"
  shows "paced L s s'"
  unfolding paced_def
proof
  fix k
  show "once (L - {Write k, Shrink k}) L s s'"
  proof (cases "k = key")
    case True
    then show ?thesis using assms(2-4) by (intro once_mono [OF assms(1)]) auto
  next
    case False
    then have "W \<subseteq> L - {Write k, Shrink k}" using assms(3,5) by auto
    then show ?thesis using assms(2,4) by (intro once_quiet once_prims [OF assms(1)]) auto
  qed
qed

lemma paced_guarded: "once (quietLabels k) {Write k} s s' \<Longrightarrow> paced (writeLabels k) s s'"
  by (erule paced_once [where key = k]) simp_all

lemma paced_wrote: "wroteOrOOM k c s s' err \<Longrightarrow> paced (writeLabels k) s s'"
  by (rule paced_guarded [OF wroteOrOOM_once])

lemma paced_plain:
  "once {Purge k} {Write k} s s' \<Longrightarrow> paced {Purge k, Write k} s s'"
  "once {Purge k} {Shrink k} s s' \<Longrightarrow> paced {Purge k, Shrink k} s s'"
  "once {Purge a, Purge k, Unlink a} {Write k} s s' \<Longrightarrow> paced {Purge a, Purge k, Unlink a, Write k} s s'"
  by (erule paced_once [where key = k]; auto)+

lemma paced_purge:
  "prims {Purge k} s s' \<Longrightarrow> paced {Purge k} s s'"
  "prims {Purge k} s s' \<Longrightarrow> paced (writeLabels k) s s'"
  "prims (quietLabels k) s s' \<Longrightarrow> paced (writeLabels k) s s'"
  "prims {Purge k} s s' \<Longrightarrow> paced {Purge k, Shrink k} s s'"
  "prims (Purge ` K) s s' \<Longrightarrow> paced (Purge ` K) s s'"
  by (erule paced_quiet; auto)+

lemma SetNX_paced: "storeInv s \<Longrightarrow> paced (writeLabels k) s (fst (SetNX now s k v t))"
  using SetNX_spec [of s now k v t "fst (SetNX now s k v t)" "snd (SetNX now s k v t)"]
  by (auto split: if_splits dest: paced_wrote)

lemma SetXX_paced: "storeInv s \<Longrightarrow> paced (writeLabels k) s (fst (SetXX now s k v t))"
  using SetXX_spec [of s now k v t "fst (SetXX now s k v t)" "snd (SetXX now s k v t)"]
  by (auto split: if_splits dest: paced_wrote paced_purge(2,3))

lemma GetSet_paced: "storeInv s \<Longrightarrow> paced (writeLabels k) s (fst (GetSet now s k v t))"
  using GetSet_spec [of s now k v t "fst (GetSet now s k v t)" "snd (GetSet now s k v t)"]
  by (auto split: sum.splits dest: paced_wrote)

lemma Append_paced: "storeInv s \<Longrightarrow> paced (writeLabels k) s (fst (Append now s k v))"
  using Append_spec [of s now k v "fst (Append now s k v)" "snd (Append now s k v)"]
  by (auto split: sum.splits dest: paced_wrote)

lemma IncrBy_paced:
  "storeInv s \<Longrightarrow> paced (insert (Stale k) (writeLabels k)) s (fst (IncrBy now s k (wrap64 d)))"
  "storeInv s \<Longrightarrow> paced (insert (Stale k) (writeLabels k)) s (fst (DecrBy now s k (wrap64 d)))"
  unfolding IncrBy_def DecrBy_def
  by (rule paced_once [OF incrBy_once, where key = k]; simp add: subset_insertI2)+

lemma ttlWith_paced: "storeInv s \<Longrightarrow> paced {Purge k} s (fst (ttlWith u now s k))"
  by (rule paced_purge(1), rule ttlWith_spec(1)) (simp_all add: prod_eq_iff)

lemma HSet_paced: "storeInv s \<Longrightarrow> paced (writeLabels k) s (fst (HSet now s k ps))"
  using HSet_spec [of s ps now k "fst (HSet now s k ps)" "snd (HSet now s k ps)"]
  by (cases "ps = []") (auto simp: HSet_def split: sum.splits dest: paced_wrote)

lemma HSetNX_paced: "storeInv s \<Longrightarrow> paced (writeLabels k) s (fst (HSetNX now s k f v))"
  using HSetNX_spec [of s now k f v "fst (HSetNX now s k f v)" "snd (HSetNX now s k f v)"]
  by (auto split: sum.splits if_splits dest: paced_wrote)

lemma listPush_paced: "storeInv s \<Longrightarrow> paced (writeLabels k) s (fst (listPush now s k vs left))"
proof (cases "vs = []")
  case True
  assume "storeInv s"
  from listLenLocked_spec(1) [OF this, of now k] True show ?thesis
    by (auto simp: listPush_def prod_eq_iff intro: paced_purge(2))
next
  case False
  assume "storeInv s"
  from listPush_spec [OF this False, of now k left "fst (listPush now s k vs left)" "snd (listPush now s k vs left)"]
  show ?thesis by (auto split: sum.splits dest: paced_wrote)
qed

lemma listPushX_paced: "storeInv s \<Longrightarrow> paced (writeLabels k) s (fst (listPushX now s k vs left))"
proof (cases "vs = []")
  case True
  assume "storeInv s"
  from listLenLocked_spec(1) [OF this, of now k] True show ?thesis
    by (auto simp: listPushX_def prod_eq_iff intro: paced_purge(2))
next
  case False
  assume inv: "storeInv s"
  from listPushX_spec [OF this False, of now k left "fst (listPushX now s k vs left)" "snd (listPushX now s k vs left)"]
    listPush_paced [OF inv, of k now vs left]
  show ?thesis by (auto split: if_splits intro: paced_purge(2))
qed

lemma listPop_paced:
  assumes inv: "storeInv s" and pf: "\<And>n l. length (snd (popFrom n l)) \<le> length l"
  shows "paced {Purge k, Shrink k} s (fst (listPop popFrom now s k n))"
proof -
  obtain s1 old where l: "liveEntry now s k = (s1, old)" by (cases "liveEntry now s k")
  note lf = liveEntry_facts [OF l inv]
  have p: "paced {Purge k, Shrink k} s s1" by (rule paced_purge(4) [OF lf(3)])
  show ?thesis
  proof (cases old)
    case (Some e)
    have t: "paced {Purge k, Shrink k} s (touchLRU s1 k e)"
      by (rule paced_purge(4) [OF touched_facts(2) [OF inv l [unfolded Some]]])
    have "paced {Purge k, Shrink k} s (commitList (touchLRU s1 k e) k (touchedEntry s1 k e) (snd (popFrom m xs)))"
      if "evalue e = VList xs" for m xs
      by (rule paced_plain(2) [OF shrink_steps(1) [OF inv l [unfolded Some] that pf]])
    with p t l Some show ?thesis
      by (cases "evalue e") (simp_all add: listPop_def Let_def case_prod_beta)
  qed (use p l in \<open>simp add: listPop_def\<close>)
qed


lemma LSet_paced:
  assumes "storeInv s"
  shows "paced {Purge k, Shrink k} s (fst (LSet now s k i v))"
proof -
  note sp = LSet_spec [OF assms, of now k i v "fst (LSet now s k i v)" "snd (LSet now s k i v)"]
  show ?thesis
  proof (cases "view now s k")
    case None
    with sp show ?thesis by (auto intro: paced_purge(4))
  next
    case (Some c)
    obtain w t where c: "c = (w, t)" by (cases c)
    with sp Some show ?thesis
      by (cases w) (auto split: if_splits intro: paced_plain(2) once_write [OF rtranclp.rtrancl_refl])
  qed
qed

lemma LInsert_paced:
  assumes "storeInv s"
  shows "paced (writeLabels k) s (fst (LInsert now s k b p i))"
proof -
  note sp = LInsert_spec [OF assms, of now k b p i "fst (LInsert now s k b p i)" "snd (LInsert now s k b p i)"]
  show ?thesis
  proof (cases "view now s k")
    case None
    with sp show ?thesis by (auto intro: paced_purge(2))
  next
    case (Some c)
    obtain w t where c: "c = (w, t)" by (cases c)
    with sp Some show ?thesis
      by (cases w) (auto split: if_splits dest: paced_wrote intro: paced_purge(2) prims_mono [OF _ empty_subsetI])
  qed
qed

lemma read_paced:
  "storeInv s \<Longrightarrow> paced {Purge k} s (fst (readHash now s k none f))"
  "storeInv s \<Longrightarrow> paced {Purge k} s (fst (readList now s k none' g))"
  "storeInv s \<Longrightarrow> paced {Purge k} s (fst (readSet now s k none'' h))"
  "storeInv s \<Longrightarrow> paced {Purge k} s (fst (listLenLocked now s k))"
  by (auto intro!: paced_purge(1) intro: readHash_spec(1) [OF _ prod.collapse [symmetric]] readList_spec(1) [OF _ prod.collapse [symmetric]]
      readSet_spec(1) [OF _ prod.collapse [symmetric]] listLenLocked_spec(1) [OF _ prod.collapse [symmetric]])

lemma SAdd_paced: "storeInv s \<Longrightarrow> paced (writeLabels k) s (fst (SAdd now s k ms))"
  using SAdd_spec [of s ms now k "fst (SAdd now s k ms)" "snd (SAdd now s k ms)"]
  by (cases "ms = []") (auto simp: SAdd_def split: sum.splits dest: paced_wrote)

lemma ReplaceSet_paced: "storeInv s \<Longrightarrow> paced (writeLabels k) s (fst (ReplaceSet now s k ms))"
  using ReplaceSet_spec [of s now k ms "fst (ReplaceSet now s k ms)" "snd (ReplaceSet now s k ms)"]
  by (auto dest: paced_wrote)

lemma snapshotValue_ok: "snapshotValue ent = Some v \<Longrightarrow> valueOk v"
  using saddLoop_spec [of "[]" "snapMembers ent" "fst (saddLoop [] (snapMembers ent))" "snd (saddLoop [] (snapMembers ent))"]
    gm.put_loop_ok [of "[]" "snapFields ent"]
  by (auto simp: snapshotValue_def split: if_splits)

lemma applySnapshotEntry_paced: "storeInv s \<Longrightarrow> paced (writeLabels (snapKey ent)) s (fst (applySnapshotEntry now s ent))"
proof (cases "snapshotValue ent")
  case None
  then show ?thesis by (simp add: applySnapshotEntry_def Let_def)
next
  case (Some v)
  assume "storeInv s"
  from applySnapshotEntry_wrote [OF this Some snapshotValue_ok [OF Some], of now
      "fst (applySnapshotEntry now s ent)" "snd (applySnapshotEntry now s ent)"]
  show ?thesis by (auto dest: paced_wrote)
qed

lemma many_paced:
  assumes "\<And>k. once (quietManyLabels k K) (writeManyLabels K \<inter> {Write k}) s s'"
  shows "paced (writeManyLabels K) s s'"
  unfolding paced_def
proof
  fix k
  show "once (writeManyLabels K - {Write k, Shrink k}) (writeManyLabels K) s s'"
    by (rule once_mono [OF assms [of k]]) (auto simp: quietManyLabels_def writeManyLabels_def evictLabels_def)
qed

lemma strCall_paced:
  assumes inv: "storeInv s"
  shows "paced (strLabels c) s (strCall now c s)"
proof (cases c)
  case (CMSet ps)
  then show ?thesis using many_paced [OF MSet_once [OF inv mapFrom_ok], of ps now] by (simp add: mapFrom_keys)
next
  case (CMSetNX ps)
  then show ?thesis
    using many_paced [OF MSetNX_spec(2) [OF inv mapFrom_ok prod.collapse [symmetric]], of ps now] by (simp add: mapFrom_keys)
qed (simp_all only: strCall.simps strLabels.simps paced_purge(1) [OF Get_steps [OF inv]] paced_guarded [OF Set_once [OF inv]]
    SetNX_paced [OF inv] SetXX_paced [OF inv] GetSet_paced [OF inv] Append_paced [OF inv] IncrBy_paced [OF inv]
    paced_purge(5) [OF MGet_steps [OF inv]])

lemma keysCall_paced:
  assumes inv: "storeInv s"
  shows "paced (keysLabels c) s (keysCall now c s)"
proof (cases c)
  case (CRename a b)
  then show ?thesis using paced_plain(3) [OF Rename_spec(1) [OF inv], of now a b] by (simp add: prod_eq_iff)
next
  case (CRenameNX a b)
  then show ?thesis using paced_plain(3) [OF RenameNX_spec(1) [OF inv], of now a b] by (simp add: prod_eq_iff)
next
  case (CExpire k n)
  then show ?thesis using paced_plain(1) [OF ExpireAt_spec(1) [OF inv], of now k "timeAdd now (durMul n durSecond)"]
    by (simp add: Expire_def prod_eq_iff case_prod_beta)
next
  case (CExpireAt k t)
  then show ?thesis using paced_plain(1) [OF ExpireAt_spec(1) [OF inv], of now k t] by (simp add: prod_eq_iff)
next
  case (CPersist k)
  then show ?thesis using paced_plain(1) [OF Persist_spec(1) [OF inv], of now k] by (simp add: prod_eq_iff)
next
  case (CScan cu p n w)
  then show ?thesis using paced_purge(5) [OF Scan_spec(3) [OF inv], of now cu p n w] by (simp add: prod_eq_iff)
qed (simp_all only: keysCall.simps keysLabels.simps TTL_def TTLMs_def ApplySnapshotEntry_def paced_purge(5) [OF Del_steps]
    paced_purge(5) [OF Exists_steps [OF inv]] paced_purge(1) [OF Type_steps] ttlWith_paced [OF inv] applySnapshotEntry_paced [OF inv]
    paced_purge(5) [OF sampleAllShards_facts(1) [OF inv]])

lemma hashCall_paced:
  assumes inv: "storeInv s"
  shows "paced (hashLabels c) s (hashCall now c s)"
proof (cases c)
  case (CHDel k fs)
  then show ?thesis using HDel_spec [OF inv, of now k fs] paced_plain(1) by (simp add: prod_eq_iff)
next
  case (CHIncrBy k f d)
  then show ?thesis using paced_guarded [OF HIncrBy_spec(2) [OF inv wrap64_in_range], of now k f d] by (simp add: prod_eq_iff)
next
  case (CHIncrByFloat fo k f d)
  then show ?thesis using HIncrByFloat_spec [OF inv, of fo now k f d] paced_guarded by (simp add: prod_eq_iff)
qed (simp_all only: hashCall.simps hashLabels.simps HGet_def HGetAll_def HExists_def HLen_def HSet_paced [OF inv]
    HSetNX_paced [OF inv] read_paced [OF inv])

lemma listCall_paced:
  assumes inv: "storeInv s"
  shows "paced (listLabels c) s (listCall now c s)"
proof (cases c)
  case (CLRem k n v)
  then show ?thesis using LRem_spec [OF inv, of now k n v] paced_plain(2) by (simp add: prod_eq_iff shortened_def)
next
  case (CLTrim k a b)
  then show ?thesis using LTrim_spec [OF inv, of now k a b] paced_plain(1) by (simp add: prod_eq_iff)
qed (simp_all only: listCall.simps listLabels.simps LPush_def RPush_def LPushX_def RPushX_def LPop_def RPop_def LLen_def
    LRange_def LIndex_def listPush_paced [OF inv] listPushX_paced [OF inv] listPop_paced [OF inv popFront_length]
    listPop_paced [OF inv popBack_length] LSet_paced [OF inv] LInsert_paced [OF inv] read_paced [OF inv])

lemma setCall_paced:
  assumes inv: "storeInv s"
  shows "paced (setLabels c) s (setCall now c s)"
proof (cases c)
  case (CSRem k ms)
  then show ?thesis using SRem_spec [OF inv, of now k ms] paced_plain(1) by (simp add: prod_eq_iff)
qed (simp_all only: setCall.simps setLabels.simps SMembers_def SIsMember_def SCard_def SAdd_paced [OF inv]
    ReplaceSet_paced [OF inv] read_paced [OF inv])

lemma call_paced: "storeInv s \<Longrightarrow> paced (callLabels c) s (call now c s)"
  by (cases c) (simp_all add: strCall_paced keysCall_paced hashCall_paced listCall_paced setCall_paced)

lemma call_steps: "storeInv s \<Longrightarrow> prims (callLabels c) s (call now c s)"
  by (rule paced_prims [OF call_paced])

text \<open>A call advances the version of a key by at most three.\<close>

lemma call_watch:
  "storeInv s \<Longrightarrow> Unlink k \<notin> callLabels c \<Longrightarrow>
   \<exists>n\<le>3. watch (call now c s) k = watch s k + of_nat n \<and> (n = 0 \<longrightarrow> db (call now c s) k = db s k)"
  using call_paced [of s c now] once_watch [of "callLabels c - {Write k, Shrink k}" "callLabels c" s "call now c s" k]
  by (auto simp: paced_def)

interpretation store_calls: store_operation "callLabels c" "call now c" for c now
  by unfold_locales (rule call_steps)


section \<open>Histories\<close>

text \<open>A history of a store: calls, each at its own time, and the operations that are not made of the
  primitive steps.\<close>

datatype store_event =
    Call time store_call
  | Flush
  | Reconfigure "Config option"
  | Prune
  | Draw nat

fun storeStep :: "store_event \<Rightarrow> store \<Rightarrow> store" where
  "storeStep (Call now c) s = call now c s"
| "storeStep Flush s = FlushDB s"
| "storeStep (Reconfigure cfg) s = ReplaceConfig cfg s"
| "storeStep Prune s = PruneWatch s"
| "storeStep (Draw n) s = snd (randIntN s n)"

definition runEvents :: "store_event list \<Rightarrow> store \<Rightarrow> store" where
  "runEvents evs s = fold storeStep evs s"

lemma PruneWatch_facts [simp]:
  "storeInv (PruneWatch s) = storeInv s" "db (PruneWatch s) = db s" "memDrift (PruneWatch s) = memDrift s"
  by (simp_all add: PruneWatch_def memDrift_def)

lemma randIntN_facts [simp]:
  "storeInv (snd (randIntN s n)) = storeInv s" "db (snd (randIntN s n)) = db s"
  "memDrift (snd (randIntN s n)) = memDrift s" "watch (snd (randIntN s n)) = watch s"
  by (simp_all add: randIntN_def memDrift_def storeInv_def totalMem_def db_def getEntry_def shardFor_def fun_eq_iff)

lemma storeStep_inv: "storeInv s \<Longrightarrow> storeInv (storeStep ev s)"
  by (cases ev) (simp_all add: store_calls.keeps_inv FlushDB_spec)

lemma runEvents_inv: "storeInv s \<Longrightarrow> storeInv (runEvents evs s)"
  by (induction evs arbitrary: s) (simp_all add: runEvents_def storeStep_inv)

text \<open>The events that move the memory counter away from the sum of the sizes: pops and removals keep it
  too high, counter commands may bring it too low.\<close>

fun eventLabels :: "store_event \<Rightarrow> label set" where
  "eventLabels (Call _ c) = callLabels c"
| "eventLabels _ = {}"

definition undercounts :: "store_event \<Rightarrow> bool" where
  "undercounts ev \<longleftrightarrow> (\<exists>k. Stale k \<in> eventLabels ev)"

definition overcounts :: "store_event \<Rightarrow> bool" where
  "overcounts ev \<longleftrightarrow> (\<exists>k. Shrink k \<in> eventLabels ev)"

lemma storeStep_drift:
  assumes "storeInv s" "0 \<le> memDrift s" "\<not> undercounts ev"
  shows "memDrift s \<le> memDrift (storeStep ev s)" "\<not> overcounts ev \<Longrightarrow> memDrift (storeStep ev s) = memDrift s"
  using assms store_calls.counter_above [of _ s] prims_drift [OF call_steps [OF assms(1)] assms(1,2)]
  by (cases ev; auto simp: FlushDB_spec(3) undercounts_def overcounts_def)+

lemma runEvents_drift:
  "storeInv s \<Longrightarrow> 0 \<le> memDrift s \<Longrightarrow> \<forall>ev\<in>set evs. \<not> undercounts ev \<Longrightarrow>
   memDrift s \<le> memDrift (runEvents evs s) \<and>
   ((\<forall>ev\<in>set evs. \<not> overcounts ev) \<longrightarrow> memDrift (runEvents evs s) = memDrift s)"
proof (induction evs arbitrary: s)
  case (Cons ev evs)
  note d = storeStep_drift [of s ev]
  have "0 \<le> memDrift (storeStep ev s)" using d(1) Cons.prems by simp
  from Cons.IH [OF storeStep_inv [OF Cons.prems(1)] this] Cons.prems d show ?case
    by (auto simp: runEvents_def)
qed (simp add: runEvents_def)

text \<open>The events after which the version of a watched key may not tell that the key changed.\<close>

fun forgetsVersion :: "bytes \<Rightarrow> store_event \<Rightarrow> bool" where
  "forgetsVersion k (Call _ c) = (Unlink k \<in> callLabels c)"
| "forgetsVersion k Flush = True"
| "forgetsVersion k Prune = True"
| "forgetsVersion k _ = False"

lemma runEvents_watch:
  "storeInv s \<Longrightarrow> \<forall>ev\<in>set evs. \<not> forgetsVersion k ev \<Longrightarrow>
   \<exists>n\<le>3 * length evs. watch (runEvents evs s) k = watch s k + of_nat n \<and> (n = 0 \<longrightarrow> db (runEvents evs s) k = db s k)"
proof (induction evs arbitrary: s)
  case Nil
  show ?case by (intro exI [of _ 0]) (simp add: runEvents_def)
next
  case (Cons ev evs)
  have "\<exists>n\<le>3. watch (storeStep ev s) k = watch s k + of_nat n \<and> (n = 0 \<longrightarrow> db (storeStep ev s) k = db s k)"
    using Cons.prems call_watch [OF Cons.prems(1)] by (cases ev) (auto intro: exI [of _ 0])
  then obtain n1 where n1: "n1 \<le> 3" "watch (storeStep ev s) k = watch s k + of_nat n1" "n1 = 0 \<longrightarrow> db (storeStep ev s) k = db s k"
    by blast
  obtain n2 where n2: "n2 \<le> 3 * length evs" "watch (runEvents evs (storeStep ev s)) k = watch (storeStep ev s) k + of_nat n2"
    "n2 = 0 \<longrightarrow> db (runEvents evs (storeStep ev s)) k = db (storeStep ev s) k"
    using Cons.IH [OF storeStep_inv [OF Cons.prems(1)]] Cons.prems(2) by auto
  from n1 n2 show ?case by (intro exI [of _ "n1 + n2"]) (auto simp: runEvents_def)
qed


section \<open>The memory limit\<close>

text \<open>A stored value leaves the counter at most at the limit, unless the value it replaced was larger.\<close>

lemma commit_bound:
  assumes inv: "storeInv s" and d: "0 \<le> memDrift s" and k: "key \<noteq> []" and old: "old = getEntry s key" and v: "valueOk v"
    and r: "commitEntry s key old (newEntry v t) (estimateMem key (newEntry v t) - entrySize key old) = (s', None)"
    and lim: "maxMemBytes s \<noteq> 0"
  shows "mem s' \<le> max (mem s) (sint (maxMemBytes s))"
proof -
  let ?ne = "newEntry v t" and ?d = "estimateMem key (newEntry v t) - entrySize key old"
  show ?thesis
    using inv old v
  proof (rule commit_cases [where t = t and delta = ?d])
    fix s1
    assume "commitEntry s key old ?ne ?d = (s1, Some ErrOOM)"
    with r show ?thesis by simp
  next
    fix s1
    assume c: "commitEntry s key old ?ne ?d = (replaceEntry s1 key (getEntry s1 key) ?ne, None)"
      and e: "evictedFrom key s s1" and f: "maxMemBytes s \<noteq> 0 \<Longrightarrow> 0 < ?d \<Longrightarrow> fits s1 ?d"
      and n: "maxMemBytes s = 0 \<or> ?d \<le> 0 \<or> fits s ?d \<Longrightarrow> s1 = s"
    have g: "getEntry s1 key = old" using evictedFrom_key [OF e k] old by simp
    have inv1: "storeInv s1" by (rule evictedFrom_inv [OF e])
    have dr: "0 \<le> memDrift s1"
      using prims_drift [OF evictedFrom_steps [OF e order_refl] inv d] d by simp
    have ge: "entrySize key old \<le> mem s1"
    proof (cases old)
      case (Some e)
      then have "mapGet (shm (shards s1 (shardIndex key))) key = Some e" using g by (simp add: getEntry_fold)
      from totalMem_ge [OF inv1 this shardIndex_less] Some dr show ?thesis by (simp add: entrySize_def memDrift_def)
    qed (simp add: entrySize_def storeInv_mem [OF inv1])
    have m: "mem s' = mem s1 + ?d"
      using r c mem_replace [OF storeInv_mem [OF inv1], of key "getEntry s1 key" ?ne] ge g
      by (cases old) (auto simp: entrySize_def)
    show ?thesis
    proof (cases "0 < ?d")
      case True
      have "maxMemBytes s1 = maxMemBytes s" using evictedFrom_config [OF e] by (simp add: maxMemBytes_def)
      with f [OF lim True] m show ?thesis by (simp add: fits_def)
    next
      case False
      with n m show ?thesis by simp
    qed
  qed
qed

text \<open>\<open>IncrBy\<close> on an expired key takes the expired entry off the counter twice.\<close>

lemma incrBy_double_subtract:
  assumes inv: "storeInv s" and ex: "memExact s" and lim: "maxMemBytes s = 0" and d: "in_int64 delta"
    and e: "getEntry s key = Some e" "isExpired now e"
  shows "memDrift (fst (incrBy now s key delta)) = - min (estimateMem key e) (totalMem s - estimateMem key e)"
proof -
  let ?s1 = "purgeEntryLocked s (shardIndex key) key e"
  let ?old = "snd (removeFromLRU key (shardFor s key, e))"
  let ?ne = "newEntry (VString (formatInt delta)) zeroTime"
  have l: "liveEntry now s key = (?s1, None)" using e by (simp add: liveEntry_def)
  note lf = liveEntry_facts [OF l inv]
  have ad: "addInt64 0 delta = (delta, True)"
    using addInt64_correct [OF _ d, of 0] d by (simp add: in_int64_def [of 0] maxInt64_def minInt64_def)
  have "ensureMemoryWithRetry ?s1 key (estimateMem key ?ne) = (?s1, False, None)"
    using lim by (intro ensure_fits) (simp add: maxMemBytes_def)
  then have r: "fst (incrBy now s key delta) = replaceEntry ?s1 key (Some ?old) ?ne"
    using e ad by (simp add: incrBy_def commitEntry_def)
  have old: "estimateMem key ?old = estimateMem key e"
    by (simp add: estimateMem_def removeFromLRU_def detachAll_def detachVol_def)
  have g: "mapGet (shm (shards s (shardIndex key))) key = Some e" using e(1) by (simp add: getEntry_fold)
  have t: "totalMem ?s1 = totalMem s - estimateMem key e" by (rule totalMem_purge [OF inv g shardIndex_less])
  have ge: "estimateMem key e \<le> totalMem s" by (rule totalMem_ge [OF inv g shardIndex_less])
  have m: "mem ?s1 = totalMem s - estimateMem key e"
    using mem_purge [OF storeInv_mem [OF inv], of "shardIndex key" key e] ex ge by (simp add: memExact_def)
  have "totalMem (replaceEntry ?s1 key (Some ?old) ?ne) = totalMem ?s1 + estimateMem key ?ne"
    using totalMem_replace [OF lf(1), of key "Some ?old" ?ne] lf(2) [symmetric] by simp
  moreover have "mem (replaceEntry ?s1 key (Some ?old) ?ne) = max 0 (mem ?s1 - estimateMem key e) + estimateMem key ?ne"
    using mem_replace [OF storeInv_mem [OF lf(1)], of key "Some ?old" ?ne] old by simp
  ultimately show ?thesis unfolding r memDrift_def using t m by simp
qed

lemma sint_large:
  assumes "2 ^ 63 \<le> unat (w :: 64 word)"
  shows "sint w < 0"
proof -
  have "uint w < 2 ^ 64" using uint_lt2p [of w] by simp
  moreover have "2 ^ 63 \<le> uint w" using assms by (metis of_nat_le_iff of_nat_numeral of_nat_power uint_nat)
  moreover have "sint w = wrap64 (uint w)" by (simp add: wrap64_sint)
  ultimately show ?thesis by (simp add: wrap64_def mod_pos_geq mod_pos_pos_trivial)
qed

text \<open>The store spares the key it writes, so \<open>Set\<close> of a non-empty key is a guarded write.\<close>

lemma Set_commit:
  assumes inv: "storeInv s" and k: "key \<noteq> []" and l: "liveEntry now s key = (s1, old)"
  shows "Set now s key val exp = commitEntry s1 key old (newEntry (VString val) exp)
    (estimateMem key (newEntry (VString val) exp) - entrySize key old)"
proof -
  note lf = liveEntry_facts [OF l inv]
  let ?d = "estimateMem key (newEntry (VString val) exp) - entrySize key old"
  obtain s2 evd er where e: "ensureMemoryWithRetry s1 key ?d = (s2, evd, er)"
    by (cases "ensureMemoryWithRetry s1 key ?d")
  have g: "getEntry s2 key = old" using evictedFrom_key [OF ensure_props(1) [OF e lf(1)] k] lf(2) by simp
  then have "liveEntry now s2 key = (s2, old)" using lf(9) by (cases old) (auto simp: liveEntry_def)
  with l e g show ?thesis by (auto simp: Set_def setLocked_def commitEntry_def split: option.split)
qed

lemma liveEntry_mem:
  assumes "storeInv s" and "liveEntry now s key = (s1, old)"
  shows "mem s1 \<le> mem s"
proof -
  have "s1 = s \<or> (\<exists>e. s1 = purgeEntryLocked s (shardIndex key) key e)"
    using assms(2) by (auto simp: liveEntry_def split: option.splits if_splits)
  then show ?thesis
    using mem_purge [OF storeInv_mem [OF assms(1)]] storeInv_mem [OF assms(1)] estimateMem_nonneg by auto
qed


lemma Set_new:
  assumes "storeInv s" "key \<noteq> []" "getEntry s key = None"
    and "maxMemBytes s = 0 \<or> fits s (estimateMem key (newEntry (VString val) exp))"
  shows "Set now s key val exp = (replaceEntry s key None (newEntry (VString val) exp), None)"
proof -
  have "liveEntry now s key = (s, None)" using assms(3) by (simp add: liveEntry_def)
  moreover have "ensureMemoryWithRetry s key (estimateMem key (newEntry (VString val) exp)) = (s, False, None)"
    using assms(4) by (intro ensure_fits) auto
  ultimately show ?thesis
    using Set_commit [OF assms(1,2), of now s None val exp] by (simp add: commitEntry_def entrySize_def)
qed

definition names :: "store_call \<Rightarrow> bytes \<Rightarrow> bool" where
  "names c k \<longleftrightarrow> callLabels c \<inter> {Write k, Purge k, Unlink k, Shrink k} \<noteq> {}"

text \<open>A new store with the zero configuration, for examples.\<close>

definition freshStore :: store where
  "freshStore = the (NewStore (\<lambda>_. 0) (Some zeroConfig))"

lemma freshStore_new: "NewStore (\<lambda>_. 0) (Some zeroConfig) = Some freshStore"
  by (simp add: freshStore_def NewStore_def)

lemma freshStore_config: "policyCache freshStore = []" "maxMemCache freshStore = 0"
  by (simp_all add: freshStore_def NewStore_def refreshConfigCache_def NormalizeMaxMemoryPolicy_def MaxMemoryBytes_def
      parseMemoryBytes_def zeroConfig_def Let_def)

lemmas freshStore_facts = NewStore_facts [OF freshStore_new] freshStore_config

lemma freshStore_absent [simp]: "getEntry freshStore k = None"
  using freshStore_facts(2) by (auto simp: db_def fun_eq_iff)

lemma limit_irrelevant [simp]:
  "storeInv (s\<lparr>maxMemCache := m\<rparr>) = storeInv s" "db (s\<lparr>maxMemCache := m\<rparr>) = db s"
  "getEntry (s\<lparr>maxMemCache := m\<rparr>) = getEntry s" "totalMem (s\<lparr>maxMemCache := m\<rparr>) = totalMem s"
  by (simp_all add: storeInv_def db_def getEntry_def shardFor_def totalMem_def fun_eq_iff)

text \<open>One string key in a new store.\<close>

definition oneString :: "bytes \<Rightarrow> bytes \<Rightarrow> time \<Rightarrow> store" where
  "oneString key val exp = fst (Set 0 freshStore key val exp)"

lemma oneString_facts:
  assumes "key \<noteq> []"
  shows "storeInv (oneString key val exp)" "db (oneString key val exp) = [key \<mapsto> (VString val, exp)]"
    "memExact (oneString key val exp)" "maxMemCache (oneString key val exp) = 0" "policyCache (oneString key val exp) = []"
    "\<exists>e. getEntry (oneString key val exp) key = Some e \<and> content e = (VString val, exp)"
proof -
  let ?c = "StringCall (CSet key val exp)"
  have c: "oneString key val exp = call 0 ?c freshStore" by (simp add: oneString_def)
  show "storeInv (oneString key val exp)" unfolding c by (rule store_calls.keeps_inv [OF freshStore_facts(1)])
  show "memExact (oneString key val exp)"
    unfolding c by (rule store_calls.keeps_exact [OF _ freshStore_facts(1,3)]) (simp add: writeLabels_def)
  show "maxMemCache (oneString key val exp) = 0" "policyCache (oneString key val exp) = []"
    unfolding c using store_calls.keeps_config [OF freshStore_facts(1), where c = ?c and now = 0]
    by (simp_all only: freshStore_facts)
  have "oneString key val exp = replaceEntry freshStore key None (newEntry (VString val) exp)"
    unfolding oneString_def using assms by (subst Set_new) (simp_all add: freshStore_facts maxMemBytes_def)
  then show d: "db (oneString key val exp) = [key \<mapsto> (VString val, exp)]" by (simp add: freshStore_facts)
  then have "map_option content (getEntry (oneString key val exp) key) = Some (VString val, exp)"
    by (metis db_def fun_upd_same)
  then show "\<exists>e. getEntry (oneString key val exp) key = Some e \<and> content e = (VString val, exp)" by auto
qed


section \<open>Properties\<close>

text \<open>C2. After any history of calls, flushes and reconfigurations a new store is well formed: every entry is in
  the shard its key hashes to, every value is a proper map or set, the LRU lists hold each tracked
  key once, and the memory counter is not negative.\<close>

theorem store_invariant: "NewStore rnd cfg = Some s \<Longrightarrow> storeInv (runEvents evs s)"
  by (rule runEvents_inv [OF NewStore_facts(1)])

theorem store_invariant_witness:
  "storeInv (runEvents [Call 5 (StringCall (CSet ''a'' ''1'' 9)), Call 20 (ListCall (CLPush ''a'' [''x''])), Flush] freshStore)"
  by (rule store_invariant [OF freshStore_new])

text \<open>C9. From a new store on, the memory counter never falls below the sum of the sizes of the entries in a history without counter
  commands, and equals it in a history that has no pops, list removals or \<open>LSet\<close> either.\<close>

theorem memory_accounting:
  assumes "NewStore rnd cfg = Some s" and "\<forall>ev\<in>set evs. \<not> undercounts ev"
  shows "totalMem (runEvents evs s) \<le> MemBytes (runEvents evs s) \<and>
    ((\<forall>ev\<in>set evs. \<not> overcounts ev) \<longrightarrow> MemBytes (runEvents evs s) = totalMem (runEvents evs s))"
  using runEvents_drift [of s evs] NewStore_facts(1,3) [OF assms(1)] assms(2)
  by (simp add: memExact_drift) (simp add: memDrift_def MemBytes_def)

theorem memory_accounting_witness:
  "let s' = runEvents [Call 5 (StringCall (CSet ''a'' ''1'' 9)), Call 20 (HashCall (CHSet ''a'' [(''f'', ''v'')]))] freshStore
   in MemBytes s' = totalMem s'"
  using memory_accounting [OF freshStore_new,
      of "[Call 5 (StringCall (CSet ''a'' ''1'' 9)), Call 20 (HashCall (CHSet ''a'' [(''f'', ''v'')]))]"]
  by (simp add: undercounts_def overcounts_def Let_def)

text \<open>C10. A call removes or changes a key it does not name only by eviction, and eviction keeps the policy:
  none under noeviction, and never a key without expiry under a volatile policy.\<close>

theorem eviction_keeps_policy:
  assumes "storeInv s" and "\<not> names c k"
    and "policy s = ''noeviction'' \<or> volatilePolicy (policy s) \<and> (\<exists>v. db s k = Some (v, zeroTime))"
  shows "db (call now c s) k = db s k"
  using store_calls.frame [OF assms(1), of k c now] assms(2,3) by (auto simp: names_def mayGo_def)

text \<open>A store full to the limit, with one key that has no expiry, under a volatile policy.\<close>

theorem eviction_keeps_policy_witness:
  "let s = (oneString ''b'' ''2'' zeroTime)\<lparr>maxMemCache := 1, policyCache := ''volatile-lru''\<rparr>
   in db (call 5 (StringCall (CSet ''a'' ''1'' 9)) s) ''b'' = Some (VString ''2'', zeroTime)"
proof -
  let ?s = "(oneString ''b'' ''2'' zeroTime)\<lparr>maxMemCache := 1, policyCache := ''volatile-lru''\<rparr>"
  note o = oneString_facts [of "''b''" "''2''" zeroTime, simplified]
  have d: "db ?s ''b'' = Some (VString ''2'', zeroTime)" "storeInv ?s"
    using o(1,2) by (simp_all add: storeInv_def db_def getEntry_def shardFor_def totalMem_def fun_eq_iff)
  have "policy ?s = ''volatile-lru''" by (simp add: policy_def)
  then have "db (call 5 (StringCall (CSet ''a'' ''1'' 9)) ?s) ''b'' = db ?s ''b''"
    using d by (intro eviction_keeps_policy) (simp_all add: names_def writeLabels_def volatilePolicy_def)
  with d(1) show ?thesis by (simp add: Let_def)
qed

text \<open>C11. The version of a watched key tells every change: in a history of fewer than two to the 62 events, as long as
  the key is not renamed away, the database is not flushed and the versions are not pruned, a key
  whose version is the same at the end holds what it held.\<close>

theorem watch_detects_changes:
  assumes "storeInv s" and "\<forall>ev\<in>set evs. \<not> forgetsVersion k ev" and "length evs < 2 ^ 62"
    and "WatchVersion (runEvents evs s) k = WatchVersion s k"
  shows "db (runEvents evs s) k = db s k"
proof -
  obtain n where n: "n \<le> 3 * length evs" "watch (runEvents evs s) k = watch s k + of_nat n"
    "n = 0 \<longrightarrow> db (runEvents evs s) k = db s k" using runEvents_watch [OF assms(1,2)] by blast
  have "(of_nat n :: 64 word) = 0" using n(2) assms(4) by (simp add: WatchVersion_def)
  then have "2 ^ 64 dvd n" by (simp add: word_of_nat_eq_0_iff)
  moreover have "n < 2 ^ 64" using n(1) assms(3) by simp
  ultimately have "n = 0" using nat_dvd_not_less by blast
  with n(3) show ?thesis by simp
qed

text \<open>A call that finds nothing to change leaves the version; so the key is the same.\<close>

theorem watch_detects_changes_witness:
  "db (runEvents [Call 6 (StringCall (CSetNX ''a'' ''2'' 9)), Call 7 (StringCall (CGet ''b''))] (oneString ''a'' ''1'' zeroTime)) ''a'' =
     Some (VString ''1'', zeroTime)"
proof -
  let ?s = "oneString ''a'' ''1'' zeroTime" and ?evs = "[Call 6 (StringCall (CSetNX ''a'' ''2'' 9)), Call 7 (StringCall (CGet ''b''))]"
  note o = oneString_facts [of "''a''" "''1''" zeroTime, simplified]
  have v: "view 6 ?s ''a'' = Some (VString ''1'', zeroTime)" by (simp add: view_def live_def o(2))
  have "db ?s ''b'' = None" by (simp add: o(2))
  then have b: "getEntry ?s ''b'' = None" by (simp add: db_def)
  have nx: "fst (SetNX 6 ?s ''a'' ''2'' 9) = ?s"
    using SetNX_spec [OF o(1) prod.collapse [symmetric], of 6 "''a''" "''2''" 9] v by simp
  have "runEvents ?evs ?s = ?s" using b nx by (simp add: runEvents_def Get_def liveEntry_def)
  then have "WatchVersion (runEvents ?evs ?s) ''a'' = WatchVersion ?s ''a''" by simp
  moreover have "\<forall>ev\<in>set ?evs. \<not> forgetsVersion ''a'' ev" by simp
  ultimately show ?thesis using watch_detects_changes [OF o(1), of ?evs "''a''"] o(2) by simp
qed

text \<open>C22. Renaming a key away, flushing or pruning does not advance the version of the key, although the key
  is gone: a transaction that watches it does not notice.\<close>

theorem rename_hides_change:
  assumes "storeInv s" and "a \<noteq> b" and "view now s a = Some c" and "Rename now s a b = (s', err)"
  shows "err = None \<and> db s' a = None \<and> db s' b = Some c \<and> (\<forall>k. k \<noteq> a \<longrightarrow> k \<noteq> b \<longrightarrow> db s' k = db s k) \<and>
    WatchVersion s' a = WatchVersion s a"
proof -
  obtain s1 old where l: "liveEntry now s a = (s1, old)" by (cases "liveEntry now s a")
  note lf = liveEntry_facts [OF l assms(1)]
  obtain e where e: "old = Some e" using lf(6) assms(3) by (cases old) auto
  have "s' = moveEntry s a b e" using assms(2,4) l e lf(9) [OF e] by (simp add: Rename_def)
  then have "watch s' a = watch s a"
    using assms(2) by (simp add: moveEntry_def purgeIfPresent_def Let_def split: option.split)
  with Rename_spec(3) [OF assms(1,4,2,3)] assms(2) show ?thesis by (simp add: WatchVersion_def)
qed

theorem rename_hides_change_witness:
  "let s = oneString ''a'' ''1'' zeroTime; s' = fst (Rename 6 s ''a'' ''b'')
   in db s' ''a'' = None \<and> db s ''a'' \<noteq> None \<and> WatchVersion s' ''a'' = WatchVersion s ''a''"
  using rename_hides_change [of "oneString ''a'' ''1'' zeroTime" "''a''" "''b''" 6 "(VString ''1'', zeroTime)"
      "fst (Rename 6 (oneString ''a'' ''1'' zeroTime) ''a'' ''b'')" "snd (Rename 6 (oneString ''a'' ''1'' zeroTime) ''a'' ''b'')"]
    oneString_facts [of "''a''" "''1''" zeroTime]
  by (simp add: view_def live_def Let_def)

text \<open>C17. Under a memory limit a \<open>Set\<close> of a non-empty key that succeeds leaves the memory counter within the limit, or no higher
  than it was, provided that the counter was not below the sum of the sizes, as it is after every
  history without counter commands.\<close>

theorem set_within_limit:
  assumes "storeInv s" and "0 \<le> memDrift s" and "key \<noteq> []" and "maxMemBytes s \<noteq> 0"
    and "Set now s key val exp = (s', None)"
  shows "MemBytes s' \<le> max (MemBytes s) (sint (maxMemBytes s))"
proof -
  obtain s1 old where l: "liveEntry now s key = (s1, old)" by (cases "liveEntry now s key")
  note lf = liveEntry_facts [OF l assms(1)]
  have d: "0 \<le> memDrift s1" using prims_drift [OF lf(3) assms(1,2)] assms(2) by simp
  have lim: "maxMemBytes s1 = maxMemBytes s" using lf(8) by (simp add: maxMemBytes_def)
  from commit_bound [OF lf(1) d assms(3) lf(2), of "VString val" exp s'] assms(4,5) lim
    Set_commit [OF assms(1,3) l, of val exp]
  have "mem s' \<le> max (mem s1) (sint (maxMemBytes s))" by simp
  with liveEntry_mem [OF assms(1) l] show ?thesis by (simp add: MemBytes_def)
qed

theorem set_within_limit_witness:
  "MemBytes (fst (Set 0 (freshStore\<lparr>maxMemCache := 1000\<rparr>) ''a'' ''1'' zeroTime)) \<le> 1000"
proof -
  let ?s = "freshStore\<lparr>maxMemCache := 1000\<rparr>" and ?e = "newEntry (VString ''1'') zeroTime"
  have m: "mem freshStore = 0"
    using freshStore_facts(3) by (simp add: freshStore_def NewStore_def refreshConfigCache_def Let_def split: sum.split)
  have "Set 0 ?s ''a'' ''1'' zeroTime = (replaceEntry ?s ''a'' None ?e, None)"
    using m by (intro Set_new) (simp_all add: freshStore_facts fits_def maxMemBytes_def estimateMem_def entryOverhead_def newEntry_def)
  with set_within_limit [of ?s "''a''" 0 "''1''" zeroTime] m freshStore_facts show ?thesis
    by (simp add: memDrift_def memExact_def maxMemBytes_def MemBytes_def)
qed

text \<open>C25. A memory limit of two to the 63 bytes or more is compared as a negative number: under noeviction no new key can be
  stored, however empty the store is.\<close>

theorem huge_limit_refuses_writes:
  assumes "storeInv s" and "key \<noteq> []" and "2 ^ 63 \<le> unat (maxMemBytes s)" and "policy s = ''noeviction''"
    and "view now s key = None"
  shows "snd (Set now s key val exp) = Some ErrOOM"
proof -
  obtain s1 old where l: "liveEntry now s key = (s1, old)" by (cases "liveEntry now s key")
  note lf = liveEntry_facts [OF l assms(1)]
  have old: "old = None" using lf(6) assms(5) by simp
  let ?d = "estimateMem key (newEntry (VString val) exp) - entrySize key old"
  have d: "0 < ?d" by (simp add: old entrySize_def estimateMem_def entryOverhead_def)
  have lim: "maxMemBytes s1 = maxMemBytes s" "policy s1 = policy s" using lf(7,8) by (simp_all add: maxMemBytes_def policy_def)
  have "sint (maxMemBytes s) < 0" using sint_large [OF assms(3)] .
  then have "\<not> fits s1 ?d" using d storeInv_mem [OF lf(1)] by (simp add: fits_def lim)
  moreover have "evictFromStore s1 key = (s1, False)" using assms(4) lim by (simp add: evictFromStore_def)
  moreover have "maxMemBytes s1 \<noteq> 0" using assms(3) lim by auto
  ultimately have "ensureMemoryWithRetry s1 key ?d = (s1, True, Some ErrOOM)"
    using d by (simp add: ensureMemoryWithRetry_def ensureLoop.simps [of s1])
  with Set_commit [OF assms(1,2) l, of val exp] show ?thesis by (simp add: commitEntry_def)
qed

theorem huge_limit_refuses_writes_witness:
  "snd (Set 0 (freshStore\<lparr>maxMemCache := 9223372036854775808\<rparr>) ''a'' ''1'' zeroTime) = Some ErrOOM"
  by (rule huge_limit_refuses_writes)
    (simp_all add: freshStore_facts maxMemBytes_def policy_def view_def)

text \<open>C24. \<open>IncrBy\<close> on an expired key takes the size of the expired entry off the memory counter twice: the
  counter ends below the sum of the sizes.\<close>

theorem incr_expired_undercounts:
  assumes "storeInv s" and "memExact s" and "maxMemBytes s = 0" and "in_int64 delta"
    and "getEntry s key = Some e" and "isExpired now e"
  shows "MemBytes (fst (IncrBy now s key delta)) =
    totalMem (fst (IncrBy now s key delta)) - min (estimateMem key e) (totalMem s - estimateMem key e)"
  using incrBy_double_subtract [OF assms] by (simp add: IncrBy_def MemBytes_def memDrift_def)

theorem incr_expired_undercounts_witness:
  "let s' = fst (IncrBy 20 (fst (Set 0 (oneString ''b'' ''2'' zeroTime) ''a'' ''1'' 9)) ''a'' 1) in MemBytes s' < totalMem s'"
proof -
  let ?base = "oneString ''b'' ''2'' zeroTime" and ?ne = "newEntry (VString ''1'') 9"
  let ?s = "fst (Set 0 ?base ''a'' ''1'' 9)"
  note o = oneString_facts [of "''b''" "''2''" zeroTime, simplified]
  have "db ?base ''a'' = None" by (simp add: o(2))
  then have abs: "getEntry ?base ''a'' = None" by (simp add: db_def)
  have s: "?s = replaceEntry ?base ''a'' None ?ne"
    by (subst Set_new) (simp_all add: o(1,4) abs maxMemBytes_def)
  have c: "?s = call 0 (StringCall (CSet ''a'' ''1'' 9)) ?base" by simp
  have inv: "storeInv ?s" unfolding c by (rule store_calls.keeps_inv [OF o(1)])
  have ex: "memExact ?s" unfolding c by (rule store_calls.keeps_exact [OF _ o(1,3)]) (simp add: writeLabels_def)
  have lim: "maxMemBytes ?s = 0"
    unfolding c maxMemBytes_def using store_calls.keeps_config [OF o(1), where c = "StringCall (CSet ''a'' ''1'' 9)" and now = 0]
    by (simp only: o(4))
  have "db ?s ''a'' = Some (VString ''1'', 9)" unfolding s by simp
  then obtain e where e: "getEntry ?s ''a'' = Some e" "content e = (VString ''1'', 9)" by (auto simp: db_def)
  then have ee: "isExpired 20 e" "estimateMem ''a'' e = estimateMem ''a'' ?ne"
    by (simp_all add: isExpired_def content_def isZero_def zeroTime_def estimateMem_def newEntry_def)
  have "totalMem ?s = totalMem ?base + estimateMem ''a'' ?ne" unfolding s using totalMem_replace [OF o(1)] abs by simp
  moreover have "0 < totalMem ?base"
  proof -
    obtain eb where "getEntry ?base ''b'' = Some eb" using o(6) by auto
    then have "estimateMem ''b'' eb \<le> totalMem ?base" 
      by (intro totalMem_ge [OF o(1) _ shardIndex_less [of "''b''"]]) (simp add: getEntry_fold)
    then show ?thesis using estimateMem_pos [of "''b''" eb] by linarith
  qed
  ultimately have "0 < min (estimateMem ''a'' e) (totalMem ?s - estimateMem ''a'' e)" using ee(2) by simp
  moreover have "in_int64 1" by (simp add: in_int64_def minInt64_def maxInt64_def)
  ultimately show ?thesis
    using incr_expired_undercounts [OF inv ex lim _ e(1) ee(1)] by (simp add: Let_def)
qed

text \<open>C23. \<open>LPop\<close> returns and removes the front of the list; the counter keeps 32 bytes for every element that
  went, although the estimate counted 32 bytes for each.\<close>

theorem lpop_overcounts:
  assumes "storeInv s" and "0 \<le> memDrift s" and "view now s key = Some (VList l, t)" and "l \<noteq> []"
    and "1 \<le> n" and "n \<le> maxSliceCap" and "LPop now s key n = (s', r)"
  shows "r = Inr (Some (take (nat n) l)) \<and>
    db s' = (db s)(key := if drop (nat n) l = [] then None else Some (VList (drop (nat n) l), t)) \<and>
    MemBytes s' - totalMem s' = MemBytes s - totalMem s + 32 * int (min (nat n) (length l))"
proof -
  have "listPop popFront now s key n = (s', r)" using assms(7) by (simp add: LPop_def)
  from listPop_spec [OF assms(1) _ _ assms(6) this] have
    "shortened now key None (\<lambda>l. (drop (nat n) l, Some (take (nat n) l))) s s' r"
    using assms(5) by (simp add: popFront_def max_def)
  with assms(2-4) have r: "r = Inr (Some (take (nat n) l))"
    "db s' = (db s)(key := if drop (nat n) l = [] then None else Some (VList (drop (nat n) l), t))"
    "memDrift s' = memDrift s + 32 * int (length l - length (drop (nat n) l))"
    by (simp_all add: shortened_def)
  moreover have "length l - length (drop (nat n) l) = min (nat n) (length l)" by simp
  ultimately show ?thesis by (simp only: memDrift_def MemBytes_def)
qed


theorem lpop_overcounts_witness:
  "let s = fst (RPush 0 freshStore ''l'' [''x'', ''y'']); s' = fst (LPop 5 s ''l'' 1)
   in db s' ''l'' = Some (VList [''y''], zeroTime) \<and> MemBytes s' = totalMem s' + 32"
proof -
  let ?s = "fst (RPush 0 freshStore ''l'' [''x'', ''y''])"
  have c: "?s = call 0 (ListCall (CRPush ''l'' [''x'', ''y''])) freshStore" by simp
  have inv: "storeInv ?s" unfolding c by (rule store_calls.keeps_inv [OF freshStore_facts(1)])
  have ex: "memExact ?s" unfolding c by (rule store_calls.keeps_exact [OF _ freshStore_facts(1,3)]) (simp add: writeLabels_def)
  have v0: "view 0 freshStore ''l'' = None" using freshStore_facts(2) by (simp add: view_def)
  have "db ?s ''l'' = Some (VList [''x'', ''y''], zeroTime)"
    using listPush_spec [OF freshStore_facts(1), of "[''x'', ''y'']" 0 "''l''" False ?s "snd (RPush 0 freshStore ''l'' [''x'', ''y''])"] v0
    by (auto simp: RPush_def viewList_def viewTTL_def wroteOrOOM_def maxMemBytes_def freshStore_facts)
  then have v: "view 5 ?s ''l'' = Some (VList [''x'', ''y''], zeroTime)" by (simp add: view_def live_def)
  from lpop_overcounts [OF inv _ v, of 1 "fst (LPop 5 ?s ''l'' 1)" "snd (LPop 5 ?s ''l'' 1)"] ex
  show ?thesis by (simp add: memDrift_def memExact_def maxSliceCap_def MemBytes_def Let_def)
qed

end
