(* ===== verification/Replication.thy ===== *)
theory Replication
  imports Store_Calls
begin

text \<open>
  Replicated mutations: the payload a command hands to the replicator
  (\<^verbatim>\<open>src/internal/peer/replicator.go\<close>), the builders of the payloads (the \<open>Replicate\<close> functions of
  \<^verbatim>\<open>src/internal/commands/helpers.go\<close>) and what a node does with a payload it receives
  (\<^verbatim>\<open>src/internal/peer/apply.go\<close>).  A builder takes the payload's parts and gives the payload it
  hands over; the replicator is never nil in a running server.
\<close>


section \<open>Payloads\<close>

record ReplicatePayload =
  Op :: bytes
  Key :: bytes
  Val :: bytes
  TTLms :: int
  Cnt :: int
  Dest :: bytes
  Fields :: "(bytes, bytes) gomap"
  Members :: "bytes list"

text \<open>\<^verbatim>\<open>ReplicatePayload{Op: op, Key: key}\<close>\<close>

definition payload :: "bytes \<Rightarrow> bytes \<Rightarrow> ReplicatePayload" where
  "payload op key = \<lparr>Op = op, Key = key, Val = [], TTLms = 0, Cnt = 0, Dest = [], Fields = [], Members = []\<rparr>"

definition ReplicateListPush :: "bytes \<Rightarrow> bool \<Rightarrow> bytes list \<Rightarrow> ReplicatePayload" where
  "ReplicateListPush key left vals = (payload (if left then ''LPUSH'' else ''RPUSH'') key)\<lparr>Members := vals\<rparr>"

definition ReplicateHDel :: "bytes \<Rightarrow> bytes list \<Rightarrow> ReplicatePayload" where
  "ReplicateHDel key fs = (payload ''HDEL'' key)\<lparr>Members := fs\<rparr>"

definition ReplicateSAdd :: "bytes \<Rightarrow> bytes list \<Rightarrow> ReplicatePayload" where
  "ReplicateSAdd key members = (payload ''SADD'' key)\<lparr>Members := members\<rparr>"

definition ReplicateSRem :: "bytes \<Rightarrow> bytes list \<Rightarrow> ReplicatePayload" where
  "ReplicateSRem key members = (payload ''SREM'' key)\<lparr>Members := members\<rparr>"

definition ReplicateSet :: "time \<Rightarrow> bytes \<Rightarrow> bytes \<Rightarrow> time \<Rightarrow> ReplicatePayload" where
  "ReplicateSet now key val exp =
     (let ttlms = (if isZero exp then 0
                   else let ms = durMilliseconds (timeUntil now exp) in if ms < 0 then 0 else ms)
      in (payload ''SET'' key)\<lparr>Val := val, TTLms := ttlms\<rparr>)"

definition ReplicateDel :: "bytes \<Rightarrow> ReplicatePayload" where
  "ReplicateDel key = payload ''DEL'' key"

definition ReplicateHash :: "bytes \<Rightarrow> (bytes, bytes) gomap \<Rightarrow> ReplicatePayload" where
  "ReplicateHash key fs = (payload ''HSET'' key)\<lparr>Fields := fs\<rparr>"

definition ReplicateExpire :: "bytes \<Rightarrow> int \<Rightarrow> ReplicatePayload" where
  "ReplicateExpire key sec = (payload ''EXPIRE'' key)\<lparr>Cnt := sec\<rparr>"

definition ReplicateExpireAtUnix :: "bytes \<Rightarrow> int \<Rightarrow> ReplicatePayload" where
  "ReplicateExpireAtUnix key unixSec = (payload ''EXPIREAT'' key)\<lparr>Cnt := unixSec\<rparr>"

definition ReplicatePExpire :: "bytes \<Rightarrow> int \<Rightarrow> ReplicatePayload" where
  "ReplicatePExpire key ms = (payload ''PEXPIRE'' key)\<lparr>Cnt := ms\<rparr>"

definition ReplicatePExpireAtUnixMs :: "bytes \<Rightarrow> int \<Rightarrow> ReplicatePayload" where
  "ReplicatePExpireAtUnixMs key unixMs = (payload ''PEXPIREAT'' key)\<lparr>TTLms := unixMs\<rparr>"

definition ReplicatePersist :: "bytes \<Rightarrow> ReplicatePayload" where
  "ReplicatePersist key = payload ''PERSIST'' key"

definition ReplicateRename :: "bytes \<Rightarrow> bytes \<Rightarrow> ReplicatePayload" where
  "ReplicateRename src dst = (payload ''RENAME'' src)\<lparr>Dest := dst\<rparr>"

text \<open>The builders for the pops send nothing for a count below one.\<close>

definition ReplicateLPop :: "bytes \<Rightarrow> nat \<Rightarrow> ReplicatePayload list" where
  "ReplicateLPop key n = (if n < 1 then [] else [(payload ''LPOP'' key)\<lparr>Cnt := int n\<rparr>])"

definition ReplicateRPop :: "bytes \<Rightarrow> nat \<Rightarrow> ReplicatePayload list" where
  "ReplicateRPop key n = (if n < 1 then [] else [(payload ''RPOP'' key)\<lparr>Cnt := int n\<rparr>])"

definition ReplicateLRem :: "bytes \<Rightarrow> int \<Rightarrow> bytes \<Rightarrow> ReplicatePayload" where
  "ReplicateLRem key cnt elem = (payload ''LREM'' key)\<lparr>Cnt := cnt, Val := elem\<rparr>"

definition ReplicateLSet :: "bytes \<Rightarrow> int \<Rightarrow> bytes \<Rightarrow> ReplicatePayload" where
  "ReplicateLSet key index val = (payload ''LSET'' key)\<lparr>Cnt := index, Val := val\<rparr>"

definition ReplicateReplaceSet :: "bytes \<Rightarrow> bytes list \<Rightarrow> ReplicatePayload" where
  "ReplicateReplaceSet key members = (payload ''REPLACESET'' key)\<lparr>Members := members\<rparr>"

definition ReplicateLTrim :: "bytes \<Rightarrow> int \<Rightarrow> int \<Rightarrow> ReplicatePayload" where
  "ReplicateLTrim key start stop = (payload ''LTRIM'' key)\<lparr>Members := [formatInt start, formatInt stop]\<rparr>"

definition ReplicateLInsert :: "bytes \<Rightarrow> bool \<Rightarrow> bytes \<Rightarrow> bytes \<Rightarrow> ReplicatePayload" where
  "ReplicateLInsert key before pivot ins =
     (payload (if before then ''LINSERT_BEFORE'' else ''LINSERT_AFTER'') key)\<lparr>Members := [pivot, ins]\<rparr>"


section \<open>Applying a payload\<close>

datatype apply_error = StoreFailed store_error | LtrimStart num_error | LtrimStop num_error | UnknownOp bytes

definition dropResult :: "store \<times> 'a res \<Rightarrow> store \<times> apply_error option" where
  "dropResult r = (case r of (s, Inl err) \<Rightarrow> (s, Some (StoreFailed err)) | (s, Inr _) \<Rightarrow> (s, None))"

definition errResult :: "store \<times> store_error option \<Rightarrow> store \<times> apply_error option" where
  "errResult r = (case r of (s, err) \<Rightarrow> (s, map_option StoreFailed err))"

definition applyReplicatePayload :: "time \<Rightarrow> store \<Rightarrow> ReplicatePayload \<Rightarrow> store \<times> apply_error option" where
  "applyReplicatePayload now s p =
     (let op = upperName (trimSpace (Op p)); key = Key p; membs = Members p
      in if op = ''SET'' then
           errResult (Set now s key (Val p)
             (if TTLms p > 0 then timeAdd now (durMul (TTLms p) durMillisecond) else zeroTime))
         else if op = ''DEL'' then (fst (Del now s [key]), None)
         else if op = ''HSET'' then
           (if Fields p = [] then (s, None) else dropResult (HSet now s key (Fields p)))
         else if op = ''HDEL'' then dropResult (HDel now s key membs)
         else if op = ''SADD'' then
           (if membs = [] then (s, None) else dropResult (SAdd now s key membs))
         else if op = ''SREM'' then
           (if membs = [] then (s, None) else dropResult (SRem now s key membs))
         else if op = ''REPLACESET'' then errResult (ReplaceSet now s key membs)
         else if op = ''LPUSH'' then
           (if membs = [] then (s, None) else dropResult (LPush now s key membs))
         else if op = ''RPUSH'' then
           (if membs = [] then (s, None) else dropResult (RPush now s key membs))
         else if op = ''FLUSHDB'' \<or> op = ''FLUSHALL'' then (FlushDB s, None)
         else if op = ''EXPIRE'' then
           (if Cnt p \<le> 0 then (s, None) else dropResult (Expire now s key (Cnt p)))
         else if op = ''PEXPIRE'' then
           (if Cnt p \<le> 0 then (s, None)
            else (fst (ExpireAt now s key (timeAdd now (durMul (Cnt p) durMillisecond))), None))
         else if op = ''EXPIREAT'' then (fst (ExpireAt now s key (timeUnix (Cnt p))), None)
         else if op = ''PEXPIREAT'' then (fst (ExpireAt now s key (timeUnixMilli (TTLms p))), None)
         else if op = ''PERSIST'' then (fst (Persist now s key), None)
         else if op = ''RENAME'' then errResult (Rename now s key (Dest p))
         else if op = ''LPOP'' then dropResult (LPop now s key (if Cnt p < 1 then 1 else Cnt p))
         else if op = ''RPOP'' then dropResult (RPop now s key (if Cnt p < 1 then 1 else Cnt p))
         else if op = ''LREM'' then dropResult (LRem now s key (Cnt p) (Val p))
         else if op = ''LSET'' then errResult (LSet now s key (Cnt p) (Val p))
         else if op = ''LTRIM'' then
           (if length membs < 2 then (s, None)
            else case parseInt (membs ! 0) of
                   Inl err \<Rightarrow> (s, Some (LtrimStart err))
                 | Inr start \<Rightarrow>
                     (case parseInt (membs ! 1) of
                        Inl err \<Rightarrow> (s, Some (LtrimStop err))
                      | Inr stop \<Rightarrow> errResult (LTrim now s key start stop)))
         else if op = ''LINSERT_BEFORE'' then
           (if length membs < 2 then (s, None) else dropResult (LInsert now s key True (membs ! 0) (membs ! 1)))
         else if op = ''LINSERT_AFTER'' then
           (if length membs < 2 then (s, None) else dropResult (LInsert now s key False (membs ! 0) (membs ! 1)))
         else (s, Some (UnknownOp op)))"

definition ApplyReplicatePayload :: "time \<Rightarrow> store \<Rightarrow> ReplicatePayload \<Rightarrow> store \<times> apply_error option" where
  "ApplyReplicatePayload now s p = applyReplicatePayload now s p"

end
