(* ===== verification/Resp.thy ===== *)
theory Resp
  imports Go_Strings
begin

text \<open>
  The RESP2 protocol of \<^verbatim>\<open>src/internal/resp\<close>: the value type, the parser and the writer.

  The parser reads from a buffered connection; its model takes the bytes still to come
  and returns the value and the bytes left, or the error.  The end of the list is the end
  of the stream.  Nested arrays recurse, so the value parser carries fuel, one unit per
  nesting level; \<open>Parse\<close> supplies more than the input's length, which is always enough
  (\<open>parse_fuel_enough\<close>).  The writer's model returns the bytes it puts in its buffer.
\<close>


section \<open>Values\<close>

datatype rvalue = Value (vType: char) (vStr: bytes) (vInteger: int) (vArray: "rvalue list") (vIsNull: bool)

abbreviation simpleV :: "bytes \<Rightarrow> rvalue" where
  "simpleV s \<equiv> Value (CHR ''+'') s 0 [] False"

abbreviation errorV :: "bytes \<Rightarrow> rvalue" where
  "errorV s \<equiv> Value (CHR ''-'') s 0 [] False"

abbreviation intV :: "int \<Rightarrow> rvalue" where
  "intV n \<equiv> Value (CHR '':'') [] n [] False"

abbreviation bulkV :: "bytes \<Rightarrow> rvalue" where
  "bulkV s \<equiv> Value (CHR ''$'') s 0 [] False"

abbreviation nullBulkV :: rvalue where
  "nullBulkV \<equiv> Value (CHR ''$'') [] 0 [] True"

abbreviation arrayV :: "rvalue list \<Rightarrow> rvalue" where
  "arrayV vs \<equiv> Value (CHR ''*'') [] 0 vs False"

abbreviation nullArrayV :: rvalue where
  "nullArrayV \<equiv> Value (CHR ''*'') [] 0 [] True"

definition MaxBulkBytes :: int where
  "MaxBulkBytes = 536870912"

definition MaxArrayElements :: int where
  "MaxArrayElements = 1048576"

definition maxLineBytes :: nat where
  "maxLineBytes = 65536"

abbreviation CR :: char where "CR \<equiv> CHR 0x0D"
abbreviation LF :: char where "LF \<equiv> CHR 0x0A"

datatype resp_error =
    ErrEOF
  | ErrRead
  | ErrExpectedLF
  | ErrLineTooLong
  | ErrInvalidType char
  | ErrEmptyNumber
  | ErrNumberOverflow
  | ErrParseNumber
  | ErrInvalidLength int
  | ErrBulkTooLarge
  | ErrArrayTooLarge
  | ErrExpectedCRLF
  | ErrEmptyInline
  | ErrUnknownType char
  | ErrFuel


section \<open>The parser\<close>

definition isBlank :: "char \<Rightarrow> bool" where
  "isBlank c \<longleftrightarrow> c = CHR '' '' \<or> c = CHR 0x09"

definition trimSpaceBytes :: "bytes \<Rightarrow> bytes" where
  "trimSpaceBytes b = rev (dropWhile isBlank (rev (dropWhile isBlank b)))"

fun skipIdleNoise :: "bytes \<Rightarrow> resp_error + bytes" where
  "skipIdleNoise [] = Inl ErrEOF"
| "skipIdleNoise (c # r) =
     (if c = CR then
        (case r of
           [] \<Rightarrow> Inl ErrRead
         | nl # r' \<Rightarrow> if nl \<noteq> LF then Inl ErrExpectedLF else skipIdleNoise r')
      else if c = LF then skipIdleNoise r
      else Inr (c # r))"

text \<open>\<open>readLineBytes\<close> fills a 4096-byte array first and then a growing buffer, whose
  length it checks before every byte.\<close>

definition afterCR :: "bytes \<Rightarrow> bytes \<Rightarrow> resp_error + bytes \<times> bytes" where
  "afterCR line r =
     (case r of
        [] \<Rightarrow> Inl ErrRead
      | nl # r' \<Rightarrow> if nl \<noteq> LF then Inl ErrExpectedLF else Inr (line, r'))"

fun readLineBuf :: "bytes \<Rightarrow> bytes \<Rightarrow> resp_error + bytes \<times> bytes" where
  "readLineBuf buf [] = (if length buf > maxLineBytes then Inl ErrLineTooLong else Inl ErrRead)"
| "readLineBuf buf (b # r) =
     (if length buf > maxLineBytes then Inl ErrLineTooLong
      else if b = CR then afterCR buf r
      else readLineBuf (buf @ [b]) r)"

fun readLineStack :: "bytes \<Rightarrow> bytes \<Rightarrow> resp_error + bytes \<times> bytes" where
  "readLineStack stack [] = Inl ErrRead"
| "readLineStack stack (b # r) =
     (if b = CR then afterCR stack r
      else if length stack \<ge> 4096 then readLineBuf (stack @ [b]) r
      else readLineStack (stack @ [b]) r)"

definition readLineBytes :: "bytes \<Rightarrow> resp_error + bytes \<times> bytes" where
  "readLineBytes inp = readLineStack [] inp"

definition expectCRLF :: "bytes \<Rightarrow> resp_error + bytes" where
  "expectCRLF inp =
     (case inp of
        [] \<Rightarrow> Inl ErrRead
      | [_] \<Rightarrow> Inl ErrRead
      | cr # lf # r \<Rightarrow> if cr \<noteq> CR \<or> lf \<noteq> LF then Inl ErrExpectedCRLF else Inr r)"

text \<open>The number on a line, as \<open>parseIntegerValue\<close>, \<open>parseBulkString\<close> and \<open>parseArray\<close>
  read it.\<close>

definition lineNumber :: "bytes \<Rightarrow> resp_error + int" where
  "lineNumber line =
     (let t = trimSpaceBytes line
      in if t = [] then Inl ErrEmptyNumber
         else case parseInt t of
                Inl ErrRange \<Rightarrow> Inl ErrNumberOverflow
              | Inl ErrSyntax \<Rightarrow> Inl ErrParseNumber
              | Inr n \<Rightarrow> Inr n)"

definition parseSimpleStringValue :: "bytes \<Rightarrow> resp_error + rvalue \<times> bytes" where
  "parseSimpleStringValue inp =
     (case readLineBytes inp of
        Inl e \<Rightarrow> Inl e
      | Inr (line, r) \<Rightarrow> if length line > 65536 then Inl ErrLineTooLong else Inr (simpleV line, r))"

definition parseErrorValue :: "bytes \<Rightarrow> resp_error + rvalue \<times> bytes" where
  "parseErrorValue inp =
     (case readLineBytes inp of
        Inl e \<Rightarrow> Inl e
      | Inr (line, r) \<Rightarrow> if length line > maxLineBytes then Inl ErrLineTooLong else Inr (errorV line, r))"

definition parseIntegerValue :: "bytes \<Rightarrow> resp_error + rvalue \<times> bytes" where
  "parseIntegerValue inp =
     (case readLineBytes inp of
        Inl e \<Rightarrow> Inl e
      | Inr (line, r) \<Rightarrow> (case lineNumber line of Inl e \<Rightarrow> Inl e | Inr n \<Rightarrow> Inr (intV n, r)))"

definition parseBulkString :: "bytes \<Rightarrow> resp_error + rvalue \<times> bytes" where
  "parseBulkString inp =
     (case readLineBytes inp of
        Inl e \<Rightarrow> Inl e
      | Inr (line, r) \<Rightarrow>
          (case lineNumber line of
             Inl e \<Rightarrow> Inl e
           | Inr n64 \<Rightarrow>
               if n64 < - 1 then Inl (ErrInvalidLength n64)
               else if n64 = - 1 then Inr (nullBulkV, r)
               else if n64 > MaxBulkBytes then Inl ErrBulkTooLarge
               else if length r < nat n64 then Inl ErrRead
               else (case expectCRLF (drop (nat n64) r) of
                       Inl e \<Rightarrow> Inl e
                     | Inr r' \<Rightarrow> Inr (bulkV (take (nat n64) r), r'))))"

text \<open>The header of an array: the element count, or the null array.\<close>

definition parseArrayHeader :: "bytes \<Rightarrow> resp_error + nat option \<times> bytes" where
  "parseArrayHeader inp =
     (case readLineBytes inp of
        Inl e \<Rightarrow> Inl e
      | Inr (line, r) \<Rightarrow>
          (case lineNumber line of
             Inl e \<Rightarrow> Inl e
           | Inr n64 \<Rightarrow>
               if n64 < - 1 then Inl (ErrInvalidLength n64)
               else if n64 = - 1 then Inr (None, r)
               else if n64 > MaxArrayElements then Inl ErrArrayTooLarge
               else Inr (Some (nat n64), r)))"

function (sequential) parseRESPValue :: "nat \<Rightarrow> bytes \<Rightarrow> resp_error + rvalue \<times> bytes"
  and parseElems :: "nat \<Rightarrow> nat \<Rightarrow> bytes \<Rightarrow> rvalue list \<Rightarrow> resp_error + rvalue \<times> bytes"
where
  "parseRESPValue 0 inp = Inl ErrFuel"
| "parseRESPValue (Suc f) [] = Inl ErrRead"
| "parseRESPValue (Suc f) (typ # r) =
     (if typ = CHR ''+'' then parseSimpleStringValue r
      else if typ = CHR ''-'' then parseErrorValue r
      else if typ = CHR '':'' then parseIntegerValue r
      else if typ = CHR ''$'' then parseBulkString r
      else if typ = CHR ''*'' then
        (case parseArrayHeader r of
           Inl e \<Rightarrow> Inl e
         | Inr (None, r') \<Rightarrow> Inr (nullArrayV, r')
         | Inr (Some n, r') \<Rightarrow> parseElems f n r' [])
      else Inl (ErrInvalidType typ))"
| "parseElems f 0 inp out = Inr (arrayV out, inp)"
| "parseElems f (Suc n) inp out =
     (case parseRESPValue f inp of
        Inl e \<Rightarrow> Inl e
      | Inr (v, r) \<Rightarrow> parseElems f n r (out @ [v]))"
  by pat_completeness auto
termination
  by (relation "measures [case_sum (\<lambda>(f, _). 2 * f) (\<lambda>(f, _). 2 * f + 1),
        case_sum (\<lambda>_. 0) (\<lambda>(_, n, _). n)]") auto

definition parseInlineCommand :: "bytes \<Rightarrow> resp_error + rvalue \<times> bytes" where
  "parseInlineCommand inp =
     (case readLineBytes inp of
        Inl e \<Rightarrow> Inl e
      | Inr (line, r) \<Rightarrow>
          (let s = trimSpace line
           in if s = [] then Inl ErrEmptyInline
              else let fs = fields s
                   in if fs = [] then Inl ErrEmptyInline else Inr (arrayV (map bulkV fs), r)))"

definition Parse :: "bytes \<Rightarrow> resp_error + rvalue \<times> bytes" where
  "Parse inp =
     (case skipIdleNoise inp of
        Inl e \<Rightarrow> Inl e
      | Inr r \<Rightarrow>
          if hd r \<in> set ''+-:$*'' then parseRESPValue (Suc (length r)) r
          else parseInlineCommand r)"


section \<open>The writer\<close>

definition crlf :: bytes where
  "crlf = [CR, LF]"

definition WriteSimpleString :: "bytes \<Rightarrow> bytes" where
  "WriteSimpleString s = CHR ''+'' # s @ crlf"

definition WriteError :: "bytes \<Rightarrow> bytes" where
  "WriteError s = CHR ''-'' # s @ crlf"

definition WriteInteger :: "int \<Rightarrow> bytes" where
  "WriteInteger n = CHR '':'' # formatInt n @ crlf"

definition WriteBulkString :: "bytes \<Rightarrow> bytes" where
  "WriteBulkString b = CHR ''$'' # formatInt (int (length b)) @ crlf @ b @ crlf"

definition WriteNullBulkString :: bytes where
  "WriteNullBulkString = ''$-1'' @ crlf"

definition writeArrayHeader :: "nat \<Rightarrow> bytes" where
  "writeArrayHeader n = CHR ''*'' # formatInt (int n) @ crlf"

definition WriteNull :: bytes where
  "WriteNull = ''*-1'' @ crlf"

text \<open>\<open>WriteArray\<close> writes the header and then each element; \<open>writeElems\<close> is its loop.\<close>

fun WriteValue :: "rvalue \<Rightarrow> resp_error + bytes"
  and writeElems :: "rvalue list \<Rightarrow> resp_error + bytes"
where
  "WriteValue (Value t s n a isnull) =
     (if t = CHR ''+'' then Inr (WriteSimpleString s)
      else if t = CHR ''-'' then Inr (WriteError s)
      else if t = CHR '':'' then Inr (WriteInteger n)
      else if t = CHR ''$'' then Inr (if isnull then WriteNullBulkString else WriteBulkString s)
      else if t = CHR ''*'' then
        (if isnull then Inr WriteNull
         else map_sum id (\<lambda>b. writeArrayHeader (length a) @ b) (writeElems a))
      else Inl (ErrUnknownType t))"
| "writeElems [] = Inr []"
| "writeElems (v # vs) =
     (case WriteValue v of
        Inl e \<Rightarrow> Inl e
      | Inr b \<Rightarrow> map_sum id (\<lambda>b'. b @ b') (writeElems vs))"

definition WriteArray :: "rvalue list \<Rightarrow> resp_error + bytes" where
  "WriteArray elems = map_sum id (\<lambda>b. writeArrayHeader (length elems) @ b) (writeElems elems)"


section \<open>Reading a line\<close>

text \<open>What a line is: the bytes up to the first CR, at most \<open>maxLineBytes\<close> of them, with an
  LF after the CR.\<close>

definition atCR :: "bytes \<Rightarrow> bytes \<Rightarrow> resp_error + bytes \<times> bytes" where
  "atCR line rest = (case rest of [] \<Rightarrow> Inl ErrRead | _ # r \<Rightarrow> afterCR line r)"

definition lineSpec :: "bytes \<Rightarrow> resp_error + bytes \<times> bytes" where
  "lineSpec inp =
     (let line = takeWhile (\<lambda>c. c \<noteq> CR) inp
      in if length line > maxLineBytes then Inl ErrLineTooLong
         else atCR line (dropWhile (\<lambda>c. c \<noteq> CR) inp))"

lemma atCR_simps [simp]: "atCR l [] = Inl ErrRead" "atCR l (c # r) = afterCR l r"
  by (simp_all add: atCR_def)

lemma readLineBuf_spec:
  "readLineBuf buf inp =
     (if length buf + length (takeWhile (\<lambda>c. c \<noteq> CR) inp) > maxLineBytes then Inl ErrLineTooLong
      else atCR (buf @ takeWhile (\<lambda>c. c \<noteq> CR) inp) (dropWhile (\<lambda>c. c \<noteq> CR) inp))"
  by (induction buf inp rule: readLineBuf.induct) auto

lemma readLineStack_spec:
  "length stack \<le> 4096 \<Longrightarrow>
   readLineStack stack inp =
     (if length stack + length (takeWhile (\<lambda>c. c \<noteq> CR) inp) > maxLineBytes then Inl ErrLineTooLong
      else atCR (stack @ takeWhile (\<lambda>c. c \<noteq> CR) inp) (dropWhile (\<lambda>c. c \<noteq> CR) inp))"
proof (induction stack inp rule: readLineStack.induct)
  case (1 stack)
  then show ?case by (simp add: maxLineBytes_def)
next
  case (2 stack b r)
  then show ?case
    by (auto simp: readLineBuf_spec) (simp_all add: maxLineBytes_def)
qed

lemma readLineBytes_lineSpec: "readLineBytes inp = lineSpec inp"
  by (simp add: readLineBytes_def readLineStack_spec lineSpec_def Let_def)

lemma readLineBytes_line [simp]:
  "CR \<notin> set line \<Longrightarrow> length line \<le> maxLineBytes \<Longrightarrow>
   readLineBytes (line @ CR # LF # rest) = Inr (line, rest)"
  by (simp add: readLineBytes_lineSpec lineSpec_def Let_def afterCR_def takeWhile_tail takeWhile_append
      dropWhile_append)

lemma readLineBytes_Inr:
  assumes "readLineBytes inp = Inr (line, r)"
  shows "inp = line @ CR # LF # r" and "CR \<notin> set line" and "length line \<le> maxLineBytes"
proof -
  have td: "inp = takeWhile (\<lambda>c. c \<noteq> CR) inp @ dropWhile (\<lambda>c. c \<noteq> CR) inp" by simp
  obtain c where c: "dropWhile (\<lambda>c. c \<noteq> CR) inp = c # LF # r"
    and line: "line = takeWhile (\<lambda>c. c \<noteq> CR) inp" "length line \<le> maxLineBytes"
    using assms by (auto simp: readLineBytes_lineSpec lineSpec_def atCR_def afterCR_def Let_def
        split: if_splits list.splits)
  have "c = CR"
    using hd_dropWhile [of "\<lambda>c. c \<noteq> CR" inp] c by simp
  with td c line show "inp = line @ CR # LF # r" by metis
  show "CR \<notin> set line" using line(1) by (auto dest: set_takeWhileD)
  show "length line \<le> maxLineBytes" by (rule line(2))
qed


section \<open>Enough fuel\<close>

definition consumes :: "bytes \<Rightarrow> (resp_error + 'a \<times> bytes) \<Rightarrow> bool" where
  "consumes inp res \<longleftrightarrow> res \<noteq> Inl ErrFuel \<and> (\<forall>v r. res = Inr (v, r) \<longrightarrow> (\<exists>p. inp = p @ r \<and> p \<noteq> []))"

lemma afterCR_not_fuel: "afterCR l r \<noteq> Inl ErrFuel"
  by (simp add: afterCR_def split: list.split)

lemma readLineBytes_consumes: "consumes inp (readLineBytes inp)"
proof -
  have "readLineBytes inp \<noteq> Inl ErrFuel"
    by (simp add: readLineBytes_lineSpec lineSpec_def Let_def atCR_def afterCR_not_fuel split: list.split)
  moreover have "\<exists>p. inp = p @ r \<and> p \<noteq> []" if "readLineBytes inp = Inr (v, r)" for v r
    using readLineBytes_Inr(1) [OF that] by (intro exI [of _ "v @ [CR, LF]"]) simp
  ultimately show ?thesis by (auto simp: consumes_def)
qed

lemma lineNumber_not_fuel: "lineNumber l \<noteq> Inl ErrFuel"
  by (simp add: lineNumber_def Let_def split: sum.split num_error.split)

lemma expectCRLF_cases:
  "expectCRLF r \<noteq> Inl ErrFuel"
  "expectCRLF r = Inr r' \<Longrightarrow> r = CR # LF # r'"
  by (auto simp: expectCRLF_def split: list.splits if_splits)

lemma consumes_map:
  assumes "consumes inp (readLineBytes inp)"
    and "\<And>line r. readLineBytes inp = Inr (line, r) \<Longrightarrow> g line r \<noteq> Inl ErrFuel"
    and "\<And>line r v r'. readLineBytes inp = Inr (line, r) \<Longrightarrow> g line r = Inr (v, r') \<Longrightarrow> \<exists>p. r = p @ r'"
  shows "consumes inp (case readLineBytes inp of Inl e \<Rightarrow> Inl e | Inr (line, r) \<Rightarrow> g line r)"
proof (cases "readLineBytes inp")
  case (Inl e)
  with assms(1) show ?thesis by (auto simp: consumes_def)
next
  case (Inr lr)
  obtain line r where lr: "lr = (line, r)" by (cases lr)
  obtain p where p: "inp = p @ r" "p \<noteq> []"
    using assms(1) Inr lr by (auto simp: consumes_def)
  have rd: "readLineBytes inp = Inr (line, r)" using Inr lr by simp
  have "consumes inp (g line r)"
    unfolding consumes_def
  proof (intro conjI allI impI)
    show "g line r \<noteq> Inl ErrFuel" by (rule assms(2) [OF rd])
    fix v r' assume "g line r = Inr (v, r')"
    then obtain q where "r = q @ r'" using assms(3) [OF rd] by blast
    with p show "\<exists>p. inp = p @ r' \<and> p \<noteq> []" by (intro exI [of _ "p @ q"]) simp
  qed
  then show ?thesis by (simp add: rd)
qed

lemma scalar_parsers_consume:
  "consumes inp (parseSimpleStringValue inp)"
  "consumes inp (parseErrorValue inp)"
  "consumes inp (parseIntegerValue inp)"
  "consumes inp (parseBulkString inp)"
  "consumes inp (parseArrayHeader inp)"
proof -
  show "consumes inp (parseSimpleStringValue inp)"
    unfolding parseSimpleStringValue_def
    by (rule consumes_map [OF readLineBytes_consumes]) (auto split: if_splits)
  show "consumes inp (parseErrorValue inp)"
    unfolding parseErrorValue_def
    by (rule consumes_map [OF readLineBytes_consumes]) (auto split: if_splits)
  show "consumes inp (parseIntegerValue inp)"
    unfolding parseIntegerValue_def
    by (rule consumes_map [OF readLineBytes_consumes])
      (auto simp: lineNumber_not_fuel split: sum.splits)
  show "consumes inp (parseArrayHeader inp)"
    unfolding parseArrayHeader_def
    by (rule consumes_map [OF readLineBytes_consumes])
      (auto simp: lineNumber_not_fuel split: sum.splits if_splits)
  have drop_suffix: "\<exists>p. r = p @ r'" if "drop n r = CR # LF # r'" for n :: nat and r r' :: bytes
    using append_take_drop_id [of n r] that by (intro exI [of _ "take n r @ [CR, LF]"]) simp
  show "consumes inp (parseBulkString inp)"
    unfolding parseBulkString_def
  proof (rule consumes_map [OF readLineBytes_consumes], goal_cases)
    case (1 line r)
    then show ?case
      by (auto simp: lineNumber_not_fuel expectCRLF_cases(1) split: sum.splits)
  next
    case (2 line r v r')
    then show ?case
      by (auto split: sum.splits if_splits dest!: expectCRLF_cases(2) intro: drop_suffix)
  qed
qed

text \<open>With more fuel than input the value parser never runs out of it, and always consumes
  a non-empty part of its input.\<close>

lemma consumes_Inl [simp]: "consumes inp (Inl e) \<longleftrightarrow> e \<noteq> ErrFuel"
  by (simp add: consumes_def)

lemma consumes_Cons: "consumes r res \<Longrightarrow> consumes (c # r) res"
  by (auto simp: consumes_def)

lemma parse_consumes:
  "length inp < f \<Longrightarrow> consumes inp (parseRESPValue f inp)"
  "length inp < f \<Longrightarrow> parseElems f n inp out \<noteq> Inl ErrFuel \<and>
     (\<forall>v r. parseElems f n inp out = Inr (v, r) \<longrightarrow> (\<exists>p. inp = p @ r))"
proof (induction f inp and f n inp out rule: parseRESPValue_parseElems.induct)
  case (3 f ty r)
  have arr: "consumes r (case parseArrayHeader r of Inl e \<Rightarrow> Inl e
       | Inr (None, r') \<Rightarrow> Inr (nullArrayV, r') | Inr (Some n, r') \<Rightarrow> parseElems f n r' [])"
    if t: "ty = CHR ''*''"
  proof (cases "parseArrayHeader r")
    case (Inl e)
    then show ?thesis using scalar_parsers_consume(5) [of r] by simp
  next
    case (Inr a)
    obtain cnt r' where a: "a = (cnt, r')" by (cases a)
    obtain p where p: "r = p @ r'" "p \<noteq> []"
      using scalar_parsers_consume(5) [of r] Inr a by (auto simp: consumes_def)
    show ?thesis
    proof (cases cnt)
      case None
      with Inr a p show ?thesis by (auto simp: consumes_def)
    next
      case (Some n)
      have "length r' < f" using "3.prems" p by simp
      then have "parseElems f n r' [] \<noteq> Inl ErrFuel \<and>
        (\<forall>v r''. parseElems f n r' [] = Inr (v, r'') \<longrightarrow> (\<exists>p. r' = p @ r''))"
        using "3.IH" t Inr a Some by auto
      with Inr a Some p show ?thesis by (auto simp: consumes_def)
    qed
  qed
  show ?case
    using scalar_parsers_consume [of r] arr by (auto intro!: consumes_Cons)
next
  case (5 f n inp out)
  show ?case
  proof (cases "parseRESPValue f inp")
    case (Inl e)
    with 5 show ?thesis by auto
  next
    case (Inr a)
    obtain v r where a: "a = (v, r)" by (cases a)
    obtain p where p: "inp = p @ r"
      using "5.IH"(1) [OF "5.prems"] Inr a by (auto simp: consumes_def)
    with "5.prems" have "length r < f" by simp
    with "5.IH"(2) [OF Inr a [symmetric]] Inr a p show ?thesis by auto
  qed
qed simp_all

lemma parse_fuel_enough:
  "length inp < f \<Longrightarrow> parseRESPValue f inp \<noteq> Inl ErrFuel"
  using parse_consumes(1) [of inp f] by (simp add: consumes_def)


section \<open>Well-formed values\<close>

text \<open>The values RESP2 can carry: a line has no CR and at most \<open>maxLineBytes\<close> bytes, an integer
  fits 64 bits, and the lengths respect the parser's limits.\<close>

fun wfValue :: "rvalue \<Rightarrow> bool" where
  "wfValue (Value t s n a isnull) \<longleftrightarrow>
     (if t = CHR ''+'' \<or> t = CHR ''-'' then
        CR \<notin> set s \<and> length s \<le> maxLineBytes \<and> n = 0 \<and> a = [] \<and> \<not> isnull
      else if t = CHR '':'' then s = [] \<and> in_int64 n \<and> a = [] \<and> \<not> isnull
      else if t = CHR ''$'' then
        n = 0 \<and> a = [] \<and> (if isnull then s = [] else int (length s) \<le> MaxBulkBytes)
      else if t = CHR ''*'' then
        s = [] \<and> n = 0 \<and>
        (if isnull then a = [] else int (length a) \<le> MaxArrayElements \<and> (\<forall>v\<in>set a. wfValue v))
      else False)"

lemma formatInt_no_CR: "CR \<notin> set (formatInt n)"
  using formatInt_graph [of CR n] by (auto simp: is_graph_def)

lemma trimSpaceBytes_graph:
  assumes "\<forall>c\<in>set s. is_graph c"
  shows "trimSpaceBytes s = s"
proof -
  have "\<not> isBlank c" if "c \<in> set s" for c
    using assms that by (auto simp: isBlank_def is_graph_def)
  then have "takeWhile isBlank s = []" and last: "s \<noteq> [] \<Longrightarrow> \<not> isBlank (last s)"
    by (cases s; simp)+
  moreover have "takeWhile isBlank (rev s) = []"
    using last by (cases s rule: rev_cases) simp_all
  ultimately show ?thesis
    using takeWhile_dropWhile_id [of isBlank s] takeWhile_dropWhile_id [of isBlank "rev s"]
    by (simp add: trimSpaceBytes_def)
qed

lemma formatInt_line:
  "in_int64 n \<Longrightarrow> readLineBytes (formatInt n @ CR # LF # rest) = Inr (formatInt n, rest)"
  "in_int64 n \<Longrightarrow> lineNumber (formatInt n) = Inr n"
proof -
  show "readLineBytes (formatInt n @ CR # LF # rest) = Inr (formatInt n, rest)" if "in_int64 n"
    using formatInt_length [OF that]
    by (intro readLineBytes_line) (simp_all add: formatInt_no_CR maxLineBytes_def)
  show "lineNumber (formatInt n) = Inr n" if "in_int64 n"
    using that by (simp add: lineNumber_def trimSpaceBytes_graph formatInt_graph parseInt_formatInt)
qed

lemma small_lengths [simp]:
  "int n \<le> MaxBulkBytes \<Longrightarrow> in_int64 (int n)"
  "int n \<le> MaxArrayElements \<Longrightarrow> in_int64 (int n)"
  by (simp_all add: MaxBulkBytes_def MaxArrayElements_def int64_defs)

lemma scalar_round_trip:
  "CR \<notin> set s \<Longrightarrow> length s \<le> maxLineBytes \<Longrightarrow> parseSimpleStringValue (s @ crlf @ rest) = Inr (simpleV s, rest)"
  "CR \<notin> set s \<Longrightarrow> length s \<le> maxLineBytes \<Longrightarrow> parseErrorValue (s @ crlf @ rest) = Inr (errorV s, rest)"
  "in_int64 n \<Longrightarrow> parseIntegerValue (formatInt n @ crlf @ rest) = Inr (intV n, rest)"
  "int (length s) \<le> MaxBulkBytes \<Longrightarrow>
     parseBulkString (formatInt (int (length s)) @ crlf @ s @ crlf @ rest) = Inr (bulkV s, rest)"
  "int m \<le> MaxArrayElements \<Longrightarrow>
     parseArrayHeader (formatInt (int m) @ crlf @ rest) = Inr (Some m, rest)"
  by (simp_all add: parseSimpleStringValue_def parseErrorValue_def parseIntegerValue_def
      parseBulkString_def parseArrayHeader_def crlf_def formatInt_line maxLineBytes_def expectCRLF_def)

lemma null_round_trip:
  "parseBulkString (''-1'' @ crlf @ rest) = Inr (nullBulkV, rest)"
  "parseArrayHeader (''-1'' @ crlf @ rest) = Inr (None, rest)"
proof -
  have m1: "formatInt (- 1) = ''-1''"
    by code_simp
  have "in_int64 (- 1)" by (simp add: int64_defs)
  note l = formatInt_line [OF this, unfolded m1]
  show "parseBulkString (''-1'' @ crlf @ rest) = Inr (nullBulkV, rest)"
    using l by (simp add: parseBulkString_def crlf_def)
  show "parseArrayHeader (''-1'' @ crlf @ rest) = Inr (None, rest)"
    using l by (simp add: parseArrayHeader_def crlf_def)
qed

lemma write_parse:
  "WriteValue v = Inr out \<Longrightarrow> wfValue v \<Longrightarrow> length out < f \<Longrightarrow>
     parseRESPValue f (out @ rest) = Inr (v, rest)"
  "writeElems vs = Inr out \<Longrightarrow> \<forall>v\<in>set vs. wfValue v \<Longrightarrow> length out < f \<Longrightarrow>
     parseElems f (length vs) (out @ rest) acc = Inr (arrayV (acc @ vs), rest)"
proof (induction v and vs arbitrary: out f rest and out f rest acc rule: WriteValue_writeElems.induct)
  case (1 t s n a isnull)
  obtain f' where f: "f = Suc f'" using "1.prems"(3) by (cases f) auto
  show ?case
  proof (cases "t = CHR ''*'' \<and> \<not> isnull")
    case True
    then obtain b where b: "writeElems a = Inr b" "out = writeArrayHeader (length a) @ b"
      using "1.prems"(1) by (cases "writeElems a") auto
    have "length b < f'"
      using "1.prems"(3) f b(2) by (simp add: writeArrayHeader_def)
    moreover have "\<forall>v\<in>set a. wfValue v" "int (length a) \<le> MaxArrayElements" "s = []" "n = 0"
      using "1.prems"(2) True by auto
    ultimately show ?thesis
      using "1.IH" True b f by (simp add: writeArrayHeader_def scalar_round_trip)
  next
    case False
    have "parseBulkString (CHR ''-'' # CHR ''1'' # crlf @ rest) = Inr (nullBulkV, rest)"
      "parseArrayHeader (CHR ''-'' # CHR ''1'' # crlf @ rest) = Inr (None, rest)"
      using null_round_trip [of rest] by simp_all
    with False "1.prems"(1,2) f show ?thesis
      by (auto simp: WriteSimpleString_def WriteError_def WriteInteger_def WriteBulkString_def
          WriteNullBulkString_def WriteNull_def scalar_round_trip split: if_splits)
  qed
next
  case 2
  then show ?case by simp
next
  case (3 v vs)
  obtain b b' where b: "WriteValue v = Inr b" "writeElems vs = Inr b'" "out = b @ b'"
    using "3.prems"(1) by (cases "WriteValue v"; cases "writeElems vs") simp_all
  have v: "parseRESPValue f (b @ b' @ rest) = Inr (v, b' @ rest)"
    using "3.prems"(2,3) b by (intro "3.IH"(1)) simp_all
  have "parseElems f (length vs) (b' @ rest) (acc @ [v]) = Inr (arrayV ((acc @ [v]) @ vs), rest)"
    using "3.prems"(2,3) b by (intro "3.IH"(2) [of b]) simp_all
  with v b(3) show ?case by simp
qed


lemma wf_written:
  "wfValue v \<Longrightarrow> \<exists>out. WriteValue v = Inr out"
  "\<forall>v\<in>set vs. wfValue v \<Longrightarrow> \<exists>out. writeElems vs = Inr out"
  by (induction v and vs rule: WriteValue_writeElems.induct) (auto split: if_splits)

lemma written_head:
  "WriteValue v = Inr out \<Longrightarrow> \<exists>c out'. out = c # out' \<and> c \<in> set ''+-:$*''"
  by (cases v; cases "writeElems (vArray v)")
    (auto simp: WriteSimpleString_def WriteError_def WriteInteger_def WriteBulkString_def
      WriteNullBulkString_def WriteNull_def writeArrayHeader_def split: if_splits)

lemma Parse_written:
  assumes "wfValue v" and "WriteValue v = Inr out"
  shows "Parse (out @ rest) = Inr (v, rest)"
proof -
  obtain c out' where c: "out = c # out'" "c \<in> set ''+-:$*''"
    using written_head [OF assms(2)] by blast
  have "parseRESPValue (Suc (length (out @ rest))) (out @ rest) = Inr (v, rest)"
    using assms by (intro write_parse(1)) simp_all
  with c show ?thesis by (auto simp: Parse_def)
qed


section \<open>What the parser accepts\<close>

lemma lineNumber_in_int64: "lineNumber line = Inr n \<Longrightarrow> in_int64 n"
  by (auto simp: lineNumber_def Let_def intro: parseInt_range split: if_splits sum.splits num_error.splits)

lemma scalar_parsers_wf:
  "parseSimpleStringValue inp = Inr (v, r) \<Longrightarrow> wfValue v"
  "parseErrorValue inp = Inr (v, r) \<Longrightarrow> wfValue v"
  "parseIntegerValue inp = Inr (v, r) \<Longrightarrow> wfValue v"
  "parseBulkString inp = Inr (v, r) \<Longrightarrow> wfValue v"
  "parseArrayHeader inp = Inr (Some n, r) \<Longrightarrow> int n \<le> MaxArrayElements"
  by (auto simp: parseSimpleStringValue_def parseErrorValue_def parseIntegerValue_def
      parseBulkString_def parseArrayHeader_def lineNumber_in_int64 readLineBytes_Inr(2,3)
      split: sum.splits if_splits)

lemma parse_wf:
  "parseRESPValue f inp = Inr (v, r) \<Longrightarrow> wfValue v"
  "parseElems f n inp acc = Inr (v, r) \<Longrightarrow> \<forall>v\<in>set acc. wfValue v \<Longrightarrow>
     int (length acc + n) \<le> MaxArrayElements \<Longrightarrow> wfValue v"
proof (induction f inp and f n inp acc arbitrary: v r and v r rule: parseRESPValue_parseElems.induct)
  case (3 f ty inp)
  then show ?case
    by (auto simp: scalar_parsers_wf split: sum.splits if_splits option.splits)
next
  case (5 f n inp out)
  obtain w r' where w: "parseRESPValue f inp = Inr (w, r')"
    using "5.prems"(1) by (cases "parseRESPValue f inp") auto
  with 5 show ?case by auto
qed simp_all


lemma parseInlineCommand_wf:
  assumes "parseInlineCommand inp = Inr (v, r)"
  shows "wfValue v" and "\<exists>p. inp = p @ r \<and> p \<noteq> []"
proof -
  obtain line where line: "readLineBytes inp = Inr (line, r)"
    and v: "v = arrayV (map bulkV (fields (trimSpace line)))"
    using assms by (auto simp: parseInlineCommand_def Let_def split: sum.splits if_splits)
  have "length (trimSpace line) \<le> 65536"
    using readLineBytes_Inr(3) [OF line] trimSpace_length [of line] by (simp add: maxLineBytes_def)
  then have "length (fields (trimSpace line)) \<le> 65536"
    and "\<forall>f\<in>set (fields (trimSpace line)). length f \<le> 65536"
    using fields_size by (auto intro: order_trans)
  then show "wfValue v" by (auto simp: v MaxArrayElements_def MaxBulkBytes_def)
  show "\<exists>p. inp = p @ r \<and> p \<noteq> []"
    using readLineBytes_consumes [of inp] line by (auto simp: consumes_def)
qed

lemma skipIdleNoise_suffix: "skipIdleNoise inp = Inr r \<Longrightarrow> \<exists>p. inp = p @ r"
proof (induction inp rule: skipIdleNoise.induct)
  case (2 c r')
  then show ?case
    by (auto split: if_splits list.splits)
qed simp

lemma Parse_accepts:
  assumes "Parse inp = Inr (v, rest)"
  shows "wfValue v" and "\<exists>p. inp = p @ rest \<and> p \<noteq> []"
proof -
  obtain r where r: "skipIdleNoise inp = Inr r"
    and res: "parseRESPValue (Suc (length r)) r = Inr (v, rest) \<or> parseInlineCommand r = Inr (v, rest)"
    using assms by (auto simp: Parse_def split: sum.splits if_splits)
  then show "wfValue v" using parse_wf(1) parseInlineCommand_wf(1) by blast
  have "\<exists>p. r = p @ rest \<and> p \<noteq> []"
    using res parse_consumes(1) [of r "Suc (length r)"] parseInlineCommand_wf(2) by (auto simp: consumes_def)
  then show "\<exists>p. inp = p @ rest \<and> p \<noteq> []"
    using skipIdleNoise_suffix [OF r] by (metis append_assoc append_is_Nil_conv)
qed



section \<open>Properties\<close>

text \<open>C5. RESP round trip.  Every well-formed value can be written, and parsing the bytes
  written, whatever follows them on the connection, gives the value back and leaves exactly
  what followed: replies and pipelined requests neither swallow nor leave bytes.\<close>

theorem resp_round_trip:
  "wfValue v \<Longrightarrow> \<exists>out. WriteValue v = Inr out \<and> (\<forall>rest. Parse (out @ rest) = Inr (v, rest))"
  using wf_written(1) [of v] Parse_written [of v] by blast

theorem resp_round_trip_witness:
  "\<exists>out. WriteValue (arrayV [bulkV ''GET'', bulkV [CR, LF], nullBulkV]) = Inr out \<and>
         (\<forall>rest. Parse (out @ rest) = Inr (arrayV [bulkV ''GET'', bulkV [CR, LF], nullBulkV], rest))"
  by (rule resp_round_trip) (simp add: MaxArrayElements_def MaxBulkBytes_def)

text \<open>C18. What the parser accepts.  A value \<open>Parse\<close> returns is well-formed: its lengths are
  within \<open>MaxBulkBytes\<close>, \<open>MaxArrayElements\<close> and the line limit, its integers fit 64 bits, and
  its unused fields are zero.  The parser consumed a non-empty prefix of the stream, and
  writing the value and parsing it again gives the same value.\<close>

theorem parse_well_formed:
  assumes "Parse inp = Inr (v, rest)"
  shows "wfValue v \<and> (\<exists>p. inp = p @ rest \<and> p \<noteq> []) \<and>
         (\<exists>out. WriteValue v = Inr out \<and> Parse out = Inr (v, []))"
  using Parse_accepts [OF assms] wf_written(1) [of v] Parse_written [of v _ "[]"] by auto

lemmas parser_eval =
  Parse_def parseSimpleStringValue_def parseBulkString_def parseArrayHeader_def
  readLineBytes_lineSpec lineSpec_def afterCR_def maxLineBytes_def lineNumber_def
  trimSpaceBytes_def isBlank_def parseInt_def parseUint_def is_digit_def digit_val_def
  expectCRLF_def MaxBulkBytes_def MaxArrayElements_def Let_def int64_defs maxUint64_def

theorem parse_well_formed_witness:
  "wfValue (arrayV [bulkV ''PING'']) \<and>
   (\<exists>p. ''*1'' @ crlf @ ''$4'' @ crlf @ ''PING'' @ crlf @ ''x'' = p @ ''x'' \<and> p \<noteq> []) \<and>
   (\<exists>out. WriteValue (arrayV [bulkV ''PING'']) = Inr out \<and> Parse out = Inr (arrayV [bulkV ''PING''], []))"
proof (rule parse_well_formed)
  show "Parse (''*1'' @ crlf @ ''$4'' @ crlf @ ''PING'' @ crlf @ ''x'') = Inr (arrayV [bulkV ''PING''], ''x'')"
    by (simp add: parser_eval crlf_def)
qed

text \<open>C19. The parser always decides.  The fuel \<open>Parse\<close> gives to its recursion over nested
  arrays is enough for every input: the result is a value or one of the parser's own errors.\<close>

theorem parse_total: "Parse inp \<noteq> Inl ErrFuel"
proof -
  have "skipIdleNoise inp \<noteq> Inl ErrFuel"
    by (induction inp rule: skipIdleNoise.induct) (auto split: list.split)
  moreover have "parseInlineCommand r \<noteq> Inl ErrFuel" for r
    using readLineBytes_consumes [of r]
    by (auto simp: parseInlineCommand_def consumes_def Let_def split: sum.splits)
  ultimately show ?thesis
    using parse_fuel_enough [OF lessI] by (auto simp: Parse_def split: sum.splits)
qed

text \<open>C20. The line reader.  The two-stage reader, a 4096-byte array and then a growing buffer
  whose length is tested before each byte, returns the bytes before the first CR when they
  are at most \<open>maxLineBytes\<close> and an LF follows, and fails otherwise, on every input.\<close>

theorem read_line_spec: "readLineBytes inp = lineSpec inp"
  by (rule readLineBytes_lineSpec)

end
