(* ===== verification/Cmd_Base.thy ===== *)
theory Cmd_Base
  imports Replication Resp
begin

text \<open>
  What all command handlers share (\<^verbatim>\<open>src/internal/commands/helpers.go\<close>): arguments, replies, error
  texts, hit and miss accounting, and the translation of a request into arguments.

  \<^item> An argument is a byte slice: \<open>None\<close> is the nil slice, which a null bulk string in the request
    gives.
  \<^item> What a handler does besides changing the store is an \<open>effect\<close>: the values it writes to the
    client, the payloads it hands to the replicator, the hits and misses it records, the messages it
    pushes to other sessions, and how it returns.  Writing to the client's connection does not fail.
  \<^item> A handler reads the clock once; the reading is its argument.
  \<^item> The context of a running server is complete: replicator, statistics, subscriptions and registry
    are set.
\<close>


section \<open>Effects\<close>

type_synonym arg = "bytes option"

text \<open>How a handler returns: normally, with an error, with the error that closes the connection on
  \<open>QUIT\<close>, by a panic, or never because it waits for a lock it holds.\<close>

datatype cmd_exit =
    Done
  | Failed store_error
  | BadRequest
  | ReplyUnreadable
  | Quit
  | Panicked
  | Deadlocked
  | OutOfFuel

record effect =
  replies :: "rvalue list"
  sent :: "ReplicatePayload list"
  hits :: int
  misses :: int
  pushed :: "(int \<times> rvalue) list"
  exit :: cmd_exit

definition silent :: effect where
  "silent = \<lparr>replies = [], sent = [], hits = 0, misses = 0, pushed = [], exit = Done\<rparr>"

definition reply :: "rvalue \<Rightarrow> effect" where
  "reply v = silent\<lparr>replies := [v]\<rparr>"

definition ends :: "cmd_exit \<Rightarrow> effect" where
  "ends x = silent\<lparr>exit := x\<rparr>"

definition replicating :: "ReplicatePayload list \<Rightarrow> effect \<Rightarrow> effect" where
  "replicating ps e = e\<lparr>sent := ps @ sent e\<rparr>"

definition keyspaceHit :: "int \<Rightarrow> effect \<Rightarrow> effect" where
  "keyspaceHit n e = (if n \<le> 0 then e else e\<lparr>hits := hits e + n\<rparr>)"

definition keyspaceMiss :: "int \<Rightarrow> effect \<Rightarrow> effect" where
  "keyspaceMiss n e = (if n \<le> 0 then e else e\<lparr>misses := misses e + n\<rparr>)"

definition writeErr :: "bytes \<Rightarrow> effect" where
  "writeErr msg = reply (errorV msg)"

definition writeSimple :: "bytes \<Rightarrow> effect" where
  "writeSimple s = reply (simpleV s)"

definition writeOK :: effect where
  "writeOK = writeSimple ''OK''"

definition writeBulkNil :: effect where
  "writeBulkNil = reply nullBulkV"

definition writeBulk :: "bytes option \<Rightarrow> effect" where
  "writeBulk b = (case b of None \<Rightarrow> writeBulkNil | Some x \<Rightarrow> reply (bulkV x))"

definition writeInt :: "int \<Rightarrow> effect" where
  "writeInt n = reply (intV n)"

text \<open>\<^verbatim>\<open>Writer.WriteArray\<close> followed by \<^verbatim>\<open>Flush\<close>\<close>

definition writeArray :: "rvalue list \<Rightarrow> effect" where
  "writeArray vs = reply (arrayV vs)"

definition writeArrayEmpty :: effect where
  "writeArrayEmpty = writeArray []"


section \<open>Error texts\<close>

definition errWrongType :: bytes where
  "errWrongType = ''WRONGTYPE Operation against a key holding the wrong kind of value''"
definition errNotInt :: bytes where
  "errNotInt = ''ERR value is not an integer or out of range''"
definition errIncrOverflow :: bytes where
  "errIncrOverflow = ''ERR increment or decrement would overflow''"
definition errNoSuchKey :: bytes where
  "errNoSuchKey = ''ERR no such key''"
definition errDBRange :: bytes where
  "errDBRange = ''ERR DB index is out of range''"
definition errOOM :: bytes where
  "errOOM = ''OOM command not allowed when used memory > '' @ [CHR 0x27] @ ''maxmemory'' @ [CHR 0x27]"
definition errWrongPass :: bytes where
  "errWrongPass = ''WRONGPASS invalid username-password pair or user is disabled''"
definition errAuthNoPass :: bytes where
  "errAuthNoPass =
     ''ERR Client sent AUTH, but no password is set. Did you mean ACL SETUSER with >password?''"
definition errNoAuth :: bytes where
  "errNoAuth = ''NOAUTH Authentication required''"
definition errExecNoMulti :: bytes where
  "errExecNoMulti = ''ERR EXEC without MULTI''"
definition errMultiNested :: bytes where
  "errMultiNested = ''ERR MULTI calls can not be nested''"
definition errDiscardNoMulti :: bytes where
  "errDiscardNoMulti = ''ERR DISCARD without MULTI''"
definition errSyntax :: bytes where
  "errSyntax = ''ERR syntax error''"

definition quoted :: "bytes \<Rightarrow> bytes" where
  "quoted s = [CHR 0x27] @ s @ [CHR 0x27]"

definition argErr :: "bytes \<Rightarrow> bytes" where
  "argErr cmd = ''ERR wrong number of arguments for '' @ quoted (lowerName cmd) @ '' command''"

definition invalidExpireErr :: "bytes \<Rightarrow> bytes" where
  "invalidExpireErr cmd = ''ERR invalid expire time in '' @ quoted (lowerName cmd) @ '' command''"

text \<open>\<open>fmt.Errorf\<close> around an error of the store; a panic inside the store is not an error value.\<close>

definition storeFail :: "store_error \<Rightarrow> effect" where
  "storeFail err = ends (if err = PanicMakeSlice \<or> err = PanicSliceBounds then Panicked else Failed err)"

definition isWrongType :: "store_error \<Rightarrow> bool" where
  "isWrongType err \<longleftrightarrow> err = ErrWrongType"

text \<open>The error branches the handlers have: only the wrong type is answered, the wrong type and the
  memory limit are, or only the memory limit.\<close>

definition failWrongType :: "store_error \<Rightarrow> effect" where
  "failWrongType err = (if isWrongType err then writeErr errWrongType else storeFail err)"

definition failWrongTypeOOM :: "store_error \<Rightarrow> effect" where
  "failWrongTypeOOM err =
     (if isWrongType err then writeErr errWrongType
      else if err = ErrOOM then writeErr errOOM
      else storeFail err)"

definition failOOM :: "store_error \<Rightarrow> effect" where
  "failOOM err = (if err = ErrOOM then writeErr errOOM else storeFail err)"

text \<open>\<^verbatim>\<open>strings.Contains(err.Error(), ...)\<close>: the text of \<open>ErrNotInteger\<close> quotes the value, so it has the
  word overflow when the value has.\<close>

definition saysOverflow :: "store_error \<Rightarrow> bool" where
  "saysOverflow err \<longleftrightarrow>
     (case err of ErrIncrOverflow \<Rightarrow> True | ErrNotInteger v _ \<Rightarrow> containsStr v ''overflow'' | _ \<Rightarrow> False)"

definition saysNotInteger :: "store_error \<Rightarrow> bool" where
  "saysNotInteger err \<longleftrightarrow> (case err of ErrNotInteger _ _ \<Rightarrow> True | _ \<Rightarrow> False)"


section \<open>Arguments\<close>

definition bytesToStr :: "arg \<Rightarrow> bytes" where
  "bytesToStr b = (case b of None \<Rightarrow> [] | Some x \<Rightarrow> x)"

definition ParseInt :: "arg \<Rightarrow> num_error + int" where
  "ParseInt b = parseInt (bytesToStr b)"

definition ParseUint :: "arg \<Rightarrow> num_error + nat" where
  "ParseUint b = parseUint (bytesToStr b)"

definition cmdName :: "arg list \<Rightarrow> bytes" where
  "cmdName args = (if args = [] then [] else upperName (bytesToStr (hd args)))"

text \<open>\<open>None\<close> is no error.\<close>

definition CheckArity :: "int \<Rightarrow> arg list \<Rightarrow> bytes option" where
  "CheckArity arity args =
     (let n = int (length args)
      in if arity \<ge> 0 then (if n \<noteq> arity then Some (argErr (cmdName args)) else None)
         else if n < - arity then Some (argErr (cmdName args)) else None)"

fun valueToArg :: "rvalue \<Rightarrow> arg option" where
  "valueToArg (Value t s n a isnull) =
     (if t = CHR ''$'' then Some (if isnull then None else Some s)
      else if t = CHR ''+'' \<or> t = CHR ''-'' then Some (Some s)
      else if t = CHR '':'' then Some (Some (formatInt n))
      else None)"

fun ValueToArgs :: "rvalue \<Rightarrow> arg list option" where
  "ValueToArgs (Value t s n a isnull) =
     (if t \<noteq> CHR ''*'' \<or> isnull then None
      else those (map valueToArg a))"

text \<open>The arguments from the \<open>i\<close>th on as strings, and as the pairs of a map.\<close>

definition strsFrom :: "nat \<Rightarrow> arg list \<Rightarrow> bytes list" where
  "strsFrom i args = map bytesToStr (drop i args)"

fun pairsOf :: "(bytes, bytes) gomap \<Rightarrow> bytes list \<Rightarrow> (bytes, bytes) gomap" where
  "pairsOf m (k # v # r) = pairsOf (mapPut k v m) r"
| "pairsOf m _ = m"

lemma pairsOf_ok: "mapOk m \<Longrightarrow> mapOk (pairsOf m xs)"
  by (induction m xs rule: pairsOf.induct) auto

lemma pairsOf_nonempty: "2 \<le> length xs \<Longrightarrow> pairsOf m xs \<noteq> []"
proof -
  have ne: "m \<noteq> [] \<Longrightarrow> pairsOf m xs \<noteq> []" for m xs
    by (induction m xs rule: pairsOf.induct) (auto simp: mapGet_None_iff)
  assume "2 \<le> length xs"
  then obtain k v r where xs: "xs = k # v # r" by (auto simp: Suc_le_length_iff numeral_2_eq_2)
  have "k \<in> fst ` set (mapPut k v m)" by simp
  then have "mapPut k v m \<noteq> []" by (metis empty_iff image_empty list.set(1))
  then show ?thesis by (simp add: xs ne)
qed

end
