(* ===== verification/Cmd_Strings.thy ===== *)
theory Cmd_Strings
  imports Cmd_Base
begin

text \<open>
  The string commands (\<^verbatim>\<open>src/internal/commands/strings.go\<close>).  A handler takes the clock reading, the
  arguments (the command name first) and the store; \<open>INCRBYFLOAT\<close> also takes the floating-point
  operations.
\<close>

type_synonym store_cmd = "time \<Rightarrow> arg list \<Rightarrow> store \<Rightarrow> store \<times> effect"

abbreviation strArg :: "arg list \<Rightarrow> nat \<Rightarrow> bytes" where
  "strArg args i \<equiv> bytesToStr (args ! i)"


section \<open>GET and SET\<close>

text \<open>The end of \<open>GET\<close>, which \<open>GETEX\<close> without options shares.\<close>

definition getReply :: "bytes option res \<Rightarrow> effect" where
  "getReply r =
     (case r of
        Inl err \<Rightarrow> failWrongType err
      | Inr None \<Rightarrow> keyspaceMiss 1 writeBulkNil
      | Inr (Some v) \<Rightarrow> keyspaceHit 1 (writeBulk (Some v)))"

definition cmdGet :: store_cmd where
  "cmdGet now args s =
     (if length args \<noteq> 2 then (s, writeErr (argErr ''GET''))
      else case Get now s (strArg args 1) of (s, r) \<Rightarrow> (s, getReply r))"

record set_opts =
  nx :: bool
  xx :: bool
  getOpt :: bool
  keepttl :: bool
  exMs :: int
  atOpt :: "time option"

definition noOpts :: set_opts where
  "noOpts = \<lparr>nx = False, xx = False, getOpt = False, keepttl = False, exMs = - 1, atOpt = None\<rparr>"

text \<open>The loop over the options of \<open>SET\<close>; an error is its text.\<close>

fun setOptions :: "set_opts \<Rightarrow> arg list \<Rightarrow> bytes + set_opts" where
  "setOptions o1 [] = Inr o1"
| "setOptions o1 (a # r) =
     (let opt = upperName (bytesToStr a)
      in if opt = ''NX'' then setOptions (o1\<lparr>nx := True\<rparr>) r
         else if opt = ''XX'' then setOptions (o1\<lparr>xx := True\<rparr>) r
         else if opt = ''GET'' then setOptions (o1\<lparr>getOpt := True\<rparr>) r
         else if opt = ''KEEPTTL'' then setOptions (o1\<lparr>keepttl := True\<rparr>) r
         else if opt \<in> {''EX'', ''PX'', ''EXAT'', ''PXAT''} then
           (case r of
              [] \<Rightarrow> Inl (argErr ''SET'')
            | n # r' \<Rightarrow>
                (case ParseInt n of
                   Inl _ \<Rightarrow> Inl (invalidExpireErr ''SET'')
                 | Inr v \<Rightarrow>
                     if opt = ''EX'' then
                       (if v \<le> 0 then Inl (invalidExpireErr ''SET'') else setOptions (o1\<lparr>exMs := wrap64 (v * 1000)\<rparr>) r')
                     else if opt = ''PX'' then
                       (if v \<le> 0 then Inl (invalidExpireErr ''SET'') else setOptions (o1\<lparr>exMs := v\<rparr>) r')
                     else if opt = ''EXAT'' then setOptions (o1\<lparr>atOpt := Some (timeUnix v)\<rparr>) r'
                     else setOptions (o1\<lparr>atOpt := Some (timeUnixMilli v)\<rparr>) r'))
         else Inl (argErr ''SET''))"

text \<open>The expiry the options ask for.  \<open>KEEPTTL\<close> looks the time to live up before the write.\<close>

definition optExpiry :: "time \<Rightarrow> set_opts \<Rightarrow> time" where
  "optExpiry now o1 =
     (case atOpt o1 of
        Some t \<Rightarrow> t
      | None \<Rightarrow> if exMs o1 \<ge> 0 then timeAdd now (durMul (exMs o1) durMillisecond) else zeroTime)"

definition keepExpiry :: "time \<Rightarrow> store \<Rightarrow> bytes \<Rightarrow> set_opts \<Rightarrow> store \<times> time" where
  "keepExpiry now s key o1 =
     (if keepttl o1 then
        (case TTLMs now s key of (s, ms) \<Rightarrow>
           (s, if ms > 0 then timeAdd now (durMul ms durMillisecond) else optExpiry now o1))
      else (s, optExpiry now o1))"

definition applySet ::
  "time \<Rightarrow> store \<Rightarrow> bytes \<Rightarrow> bytes \<Rightarrow> time \<Rightarrow> bool \<Rightarrow> bool \<Rightarrow> store \<times> (bool \<times> ReplicatePayload list) res" where
  "applySet now s key val exp ifNew ifOld =
     (case (if ifNew \<and> \<not> ifOld then SetNX now s key val exp
            else if ifOld \<and> \<not> ifNew then SetXX now s key val exp
            else case Set now s key val exp of (s, None) \<Rightarrow> (s, Inr True) | (s, Some err) \<Rightarrow> (s, Inl err)) of
        (s, Inl err) \<Rightarrow> (s, Inl err)
      | (s, Inr False) \<Rightarrow> (s, Inr (False, []))
      | (s, Inr True) \<Rightarrow> (s, Inr (True, [ReplicateSet now key val exp])))"

definition cmdSet :: store_cmd where
  "cmdSet now args s =
     (if length args < 3 then (s, writeErr (argErr ''SET''))
      else
        let key = strArg args 1; val = strArg args 2
        in case setOptions noOpts (drop 3 args) of
             Inl msg \<Rightarrow> (s, writeErr msg)
           | Inr o1 \<Rightarrow>
               (case keepExpiry now s key o1 of (s, exp) \<Rightarrow>
                  if nx o1 \<and> xx o1 then (s, writeErr errSyntax)
                  else if getOpt o1 then
                    (case Get now s key of
                       (s, Inl err) \<Rightarrow> (s, failWrongType err)
                     | (s, Inr prev) \<Rightarrow>
                         (case applySet now s key val exp (nx o1) (xx o1) of
                            (s, Inl err) \<Rightarrow> (s, storeFail err)
                          | (s, Inr (ok, ps)) \<Rightarrow>
                              (s, replicating ps (if \<not> ok then writeBulkNil else writeBulk prev))))
                  else
                    (case applySet now s key val exp (nx o1) (xx o1) of
                       (s, Inl err) \<Rightarrow> (s, failOOM err)
                     | (s, Inr (ok, ps)) \<Rightarrow> (s, replicating ps (if \<not> ok then writeBulkNil else writeOK)))))"

definition cmdSetNX :: store_cmd where
  "cmdSetNX now args s =
     (if length args \<noteq> 3 then (s, writeErr (argErr ''SETNX''))
      else
        let key = strArg args 1; val = strArg args 2
        in case SetNX now s key val zeroTime of
             (s, Inl err) \<Rightarrow> (s, failOOM err)
           | (s, Inr ok) \<Rightarrow>
               (s, if ok then replicating [ReplicateSet now key val zeroTime] (writeInt 1) else writeInt 0))"

text \<open>\<open>SETEX\<close> and \<open>PSETEX\<close>: the same steps with another name and unit.\<close>

definition setWithTTL :: "bytes \<Rightarrow> int \<Rightarrow> store_cmd" where
  "setWithTTL name unit now args s =
     (if length args \<noteq> 4 then (s, writeErr (argErr name))
      else case ParseInt (args ! 2) of
             Inl _ \<Rightarrow> (s, writeErr (invalidExpireErr name))
           | Inr n \<Rightarrow>
               if n \<le> 0 then (s, writeErr (invalidExpireErr name))
               else
                 let key = strArg args 1; val = strArg args 3; exp = timeAdd now (durMul n unit)
                 in case Set now s key val exp of
                      (s, Some err) \<Rightarrow> (s, failOOM err)
                    | (s, None) \<Rightarrow> (s, replicating [ReplicateSet now key val exp] writeOK))"

definition cmdSetEX :: store_cmd where
  "cmdSetEX = setWithTTL ''SETEX'' durSecond"

definition cmdPSetEX :: store_cmd where
  "cmdPSetEX = setWithTTL ''PSETEX'' durMillisecond"

definition cmdGetSet :: store_cmd where
  "cmdGetSet now args s =
     (if length args \<noteq> 3 then (s, writeErr (argErr ''GETSET''))
      else
        let key = strArg args 1; val = strArg args 2
        in case GetSet now s key val zeroTime of
             (s, Inl err) \<Rightarrow> (s, failWrongType err)
           | (s, Inr (prev, ok)) \<Rightarrow>
               (s, if \<not> ok then writeBulkNil
                   else replicating [ReplicateSet now key val zeroTime] (writeBulk prev)))"

definition cmdGetDel :: store_cmd where
  "cmdGetDel now args s =
     (if length args \<noteq> 2 then (s, writeErr (argErr ''GETDEL''))
      else
        let key = strArg args 1
        in case Get now s key of
             (s, Inl err) \<Rightarrow> (s, failWrongType err)
           | (s, Inr None) \<Rightarrow> (s, writeBulkNil)
           | (s, Inr (Some prev)) \<Rightarrow>
               (case Del now s [key] of (s, _) \<Rightarrow> (s, replicating [ReplicateDel key] (writeBulk (Some prev)))))"

text \<open>The loop over the options of \<open>GETEX\<close>: the expiry asked for, and the payloads of the \<open>PERSIST\<close>
  options met so far, which are executed at once.\<close>

fun getExOptions ::
  "time \<Rightarrow> store \<Rightarrow> bytes \<Rightarrow> ReplicatePayload list \<Rightarrow> time option \<Rightarrow> arg list \<Rightarrow>
   store \<times> ReplicatePayload list \<times> (bytes + time option)" where
  "getExOptions now s key ps exp [] = (s, ps, Inr exp)"
| "getExOptions now s key ps exp (a # r) =
     (let opt = upperName (bytesToStr a)
      in if opt = ''PERSIST'' then
           getExOptions now (fst (Persist now s key)) key (ps @ [ReplicatePersist key]) exp r
         else if opt \<in> {''EX'', ''PX'', ''EXAT'', ''PXAT''} then
           (case r of
              [] \<Rightarrow> (s, ps, Inl (argErr ''GETEX''))
            | n # r' \<Rightarrow>
                (case ParseInt n of
                   Inl _ \<Rightarrow> (s, ps, Inl (invalidExpireErr ''GETEX''))
                 | Inr v \<Rightarrow>
                     if opt \<in> {''EX'', ''PX''} \<and> v \<le> 0 then (s, ps, Inl (invalidExpireErr ''GETEX''))
                     else getExOptions now s key ps
                       (Some (if opt = ''EX'' then timeAdd now (durMul v durSecond)
                              else if opt = ''PX'' then timeAdd now (durMul v durMillisecond)
                              else if opt = ''EXAT'' then timeUnix v
                              else timeUnixMilli v)) r'))
         else (s, ps, Inl (argErr ''GETEX'')))"

definition cmdGetEx :: store_cmd where
  "cmdGetEx now args s =
     (if length args < 2 then (s, writeErr (argErr ''GETEX''))
      else
        let key = strArg args 1
        in if length args = 2 then (case Get now s key of (s, r) \<Rightarrow> (s, getReply r))
           else case getExOptions now s key [] None (drop 2 args) of
                  (s, ps, Inl msg) \<Rightarrow> (s, replicating ps (writeErr msg))
                | (s, ps, Inr exp) \<Rightarrow>
                    (case Get now s key of
                       (s, Inr (Some v)) \<Rightarrow>
                         (case exp of
                            None \<Rightarrow> (s, replicating ps (getReply (Inr (Some v))))
                          | Some t \<Rightarrow>
                              (fst (ExpireAt now s key t),
                               replicating (ps @ [ReplicatePExpireAtUnixMs key (timeToUnixMilli t)])
                                 (getReply (Inr (Some v)))))
                     | (s, r) \<Rightarrow> (s, replicating ps (getReply r))))"


section \<open>Several keys\<close>

definition bulkOrNull :: "bytes option \<Rightarrow> rvalue" where
  "bulkOrNull v = (case v of None \<Rightarrow> nullBulkV | Some b \<Rightarrow> bulkV b)"

definition cmdMGet :: store_cmd where
  "cmdMGet now args s =
     (if length args < 2 then (s, writeErr (argErr ''MGET''))
      else case MGet now s (strsFrom 1 args) of
             (s, Inl err) \<Rightarrow> (s, storeFail err)
           | (s, Inr vals) \<Rightarrow>
               (s, keyspaceMiss (int (length (filter (\<lambda>v. v = None) vals)))
                     (keyspaceHit (int (length (filter (\<lambda>v. v \<noteq> None) vals)))
                        (writeArray (map bulkOrNull vals)))))"

definition badPairs :: "arg list \<Rightarrow> bool" where
  "badPairs args \<longleftrightarrow> length args < 3 \<or> (length args - 1) mod 2 \<noteq> 0"

definition replicatePairs :: "time \<Rightarrow> (bytes, bytes) gomap \<Rightarrow> ReplicatePayload list" where
  "replicatePairs now pairs = map (\<lambda>(k, v). ReplicateSet now k v zeroTime) pairs"

definition cmdMSet :: store_cmd where
  "cmdMSet now args s =
     (if badPairs args then (s, writeErr (argErr ''MSET''))
      else
        let pairs = pairsOf [] (strsFrom 1 args)
        in case MSet now s pairs of
             (s, Some err) \<Rightarrow> (s, failOOM err)
           | (s, None) \<Rightarrow> (s, replicating (replicatePairs now pairs) writeOK))"

definition cmdMSetNX :: store_cmd where
  "cmdMSetNX now args s =
     (if badPairs args then (s, writeErr (argErr ''MSETNX''))
      else
        let pairs = pairsOf [] (strsFrom 1 args)
        in case MSetNX now s pairs of
             (s, Inl err) \<Rightarrow> (s, failOOM err)
           | (s, Inr ok) \<Rightarrow>
               (s, if ok then replicating (replicatePairs now pairs) (writeInt 1) else writeInt 0))"

text \<open>The keys that exist, each once, in the order of the arguments.\<close>

fun existingKeys :: "time \<Rightarrow> store \<Rightarrow> bytes list \<Rightarrow> bytes list \<Rightarrow> store \<times> bytes list" where
  "existingKeys now s acc [] = (s, acc)"
| "existingKeys now s acc (k # ks) =
     (case Exists now s [k] of (s, n) \<Rightarrow>
        existingKeys now s (if n > 0 \<and> k \<notin> set acc then acc @ [k] else acc) ks)"

definition cmdDel :: store_cmd where
  "cmdDel now args s =
     (if length args < 2 then (s, writeErr (argErr ''DEL''))
      else
        let keys = strsFrom 1 args
        in case existingKeys now s [] keys of (s, existing) \<Rightarrow>
             (case Del now s keys of (s, n) \<Rightarrow>
                (s, replicating (map ReplicateDel existing) (writeInt (int n)))))"


section \<open>Counters\<close>

definition failIncr :: "store_error \<Rightarrow> effect" where
  "failIncr err =
     (if isWrongType err then writeErr errWrongType
      else if saysOverflow err then writeErr errIncrOverflow
      else if saysNotInteger err then writeErr errNotInt
      else storeFail err)"

definition incrReply :: "time \<Rightarrow> bytes \<Rightarrow> store \<times> int res \<Rightarrow> store \<times> effect" where
  "incrReply now key r =
     (case r of
        (s, Inl err) \<Rightarrow> (s, failIncr err)
      | (s, Inr n) \<Rightarrow> (s, replicating [ReplicateSet now key (formatInt n) zeroTime] (writeInt n)))"

definition doIncr :: "int \<Rightarrow> store_cmd" where
  "doIncr delta now args s =
     (if length args \<noteq> 2 then (s, writeErr (argErr (cmdName args)))
      else incrReply now (strArg args 1) (IncrBy now s (strArg args 1) delta))"

definition cmdIncr :: store_cmd where
  "cmdIncr = doIncr 1"

definition cmdDecr :: store_cmd where
  "cmdDecr = doIncr (- 1)"

definition cmdIncrBy :: store_cmd where
  "cmdIncrBy now args s =
     (if length args \<noteq> 3 then (s, writeErr (argErr ''INCRBY''))
      else case ParseInt (args ! 2) of
             Inl _ \<Rightarrow> (s, writeErr errNotInt)
           | Inr delta \<Rightarrow> incrReply now (strArg args 1) (IncrBy now s (strArg args 1) delta))"

definition cmdDecrBy :: store_cmd where
  "cmdDecrBy now args s =
     (if length args \<noteq> 3 then (s, writeErr (argErr ''DECRBY''))
      else case ParseInt (args ! 2) of
             Inl _ \<Rightarrow> (s, writeErr errNotInt)
           | Inr delta \<Rightarrow> incrReply now (strArg args 1) (DecrBy now s (strArg args 1) delta))"


text \<open>A value that is present but empty after trimming does not parse, unlike in \<open>HINCRBYFLOAT\<close>.\<close>

definition cmdIncrByFloat :: "float_ops \<Rightarrow> store_cmd" where
  "cmdIncrByFloat fo now args s =
     (if length args \<noteq> 3 then (s, writeErr (argErr ''INCRBYFLOAT''))
      else case floatParse fo (strArg args 2) of
             None \<Rightarrow> (s, writeErr errNotInt)
           | Some delta \<Rightarrow>
               (let key = strArg args 1
                in case Get now s key of
                     (s, Inl err) \<Rightarrow> (s, failWrongType err)
                   | (s, Inr v) \<Rightarrow>
                       (case (case v of None \<Rightarrow> Some 0 | Some b \<Rightarrow> floatParse fo (trimSpace b)) of
                          None \<Rightarrow> (s, writeErr errNotInt)
                        | Some f \<Rightarrow>
                            (let out = floatFormat fo (floatAdd fo f delta)
                             in case Set now s key out zeroTime of
                                  (s, Some err) \<Rightarrow> (s, failOOM err)
                                | (s, None) \<Rightarrow>
                                    (s, replicating [ReplicateSet now key out zeroTime] (writeBulk (Some out)))))))"


section \<open>Parts of strings\<close>

definition cmdAppend :: store_cmd where
  "cmdAppend now args s =
     (if length args \<noteq> 3 then (s, writeErr (argErr ''APPEND''))
      else
        let key = strArg args 1
        in case Append now s key (strArg args 2) of
             (s, Inl err) \<Rightarrow> (s, failWrongTypeOOM err)
           | (s, Inr n) \<Rightarrow>
               (case Get now s key of
                  (s, Inr (Some v)) \<Rightarrow> (s, replicating [ReplicateSet now key v zeroTime] (writeInt n))
                | (s, _) \<Rightarrow> (s, writeInt n)))"

definition cmdStrLen :: store_cmd where
  "cmdStrLen now args s =
     (if length args \<noteq> 2 then (s, writeErr (argErr ''STRLEN''))
      else case Get now s (strArg args 1) of
             (s, Inl err) \<Rightarrow> (s, failWrongType err)
           | (s, Inr None) \<Rightarrow> (s, keyspaceMiss 1 (writeInt 0))
           | (s, Inr (Some v)) \<Rightarrow> (s, keyspaceHit 1 (writeInt (int (length v)))))"

definition normRange :: "int \<Rightarrow> nat \<Rightarrow> int" where
  "normRange idx n =
     (let i = (if idx < 0 then int n + idx else idx)
      in if i < 0 then 0 else if i \<ge> int n then int n - 1 else i)"

definition getRange :: "int \<Rightarrow> int \<Rightarrow> bytes \<Rightarrow> bytes" where
  "getRange start stop v =
     (let n = length v; st = normRange start n; en = normRange stop n;
          st = (if st < 0 then 0 else st);
          en = (if en \<ge> int n then int n - 1 else en)
      in if st > en then [] else drop (nat st) (take (nat (en + 1)) v))"

definition cmdGetRange :: store_cmd where
  "cmdGetRange now args s =
     (if length args \<noteq> 4 then (s, writeErr (argErr ''GETRANGE''))
      else case (ParseInt (args ! 2), ParseInt (args ! 3)) of
             (Inr start, Inr stop) \<Rightarrow>
               (case Get now s (strArg args 1) of
                  (s, Inl err) \<Rightarrow> (s, failWrongType err)
                | (s, Inr None) \<Rightarrow> (s, keyspaceMiss 1 (writeBulk (Some [])))
                | (s, Inr (Some v)) \<Rightarrow> (s, keyspaceHit 1 (writeBulk (Some (getRange start stop v)))))
           | _ \<Rightarrow> (s, writeErr errNotInt))"

text \<open>The runtime refuses to allocate a byte slice of more than \<open>maxAlloc\<close> bytes on the 64-bit targets;
  below that the allocation is taken to succeed.\<close>

definition maxAlloc :: int where
  "maxAlloc = 281474976710656"

definition setRange :: "nat \<Rightarrow> bytes \<Rightarrow> bytes \<Rightarrow> bytes" where
  "setRange offset val base =
     (let base = (if offset > length base then base @ replicate (offset - length base) (CHR 0x00) else base);
          stop = offset + length val;
          base = (if stop > length base then base @ replicate (stop - length base) (CHR 0x00) else base)
      in take offset base @ val @ drop stop base)"

definition cmdSetRange :: store_cmd where
  "cmdSetRange now args s =
     (if length args \<noteq> 4 then (s, writeErr (argErr ''SETRANGE''))
      else case ParseInt (args ! 2) of
             Inl _ \<Rightarrow> (s, writeErr errNotInt)
           | Inr offset \<Rightarrow>
               if offset < 0 then (s, writeErr errNotInt)
               else
                 let key = strArg args 1; val = strArg args 3
                 in case Get now s key of
                      (s, Inl err) \<Rightarrow> (s, failWrongType err)
                    | (s, Inr v) \<Rightarrow>
                        if offset - int (length (orEmpty v)) > maxAlloc then (s, ends Panicked)
                        else
                          let base = setRange (nat offset) val (orEmpty v)
                          in case Set now s key base zeroTime of
                               (s, Some err) \<Rightarrow> (s, failOOM err)
                             | (s, None) \<Rightarrow>
                                 (s, replicating [ReplicateSet now key base zeroTime] (writeInt (int (length base)))))"

end
