(* ===== verification/Cmd_Keys.thy ===== *)
theory Cmd_Keys
  imports Cmd_Strings
begin

text \<open>
  The commands on keys of any type (\<^verbatim>\<open>src/internal/commands/generic.go\<close>), except \<open>SELECT\<close>, which is
  with the commands that change the session.
\<close>

definition cmdExists :: store_cmd where
  "cmdExists now args s =
     (if length args < 2 then (s, writeErr (argErr ''EXISTS''))
      else
        let keys = strsFrom 1 args
        in case Exists now s keys of (s, n) \<Rightarrow>
             (s, keyspaceMiss (int (length keys) - int n) (keyspaceHit (int n) (writeInt (int n)))))"

definition cmdType :: store_cmd where
  "cmdType now args s =
     (if length args \<noteq> 2 then (s, writeErr (argErr ''TYPE''))
      else case Type now s (strArg args 1) of (s, t) \<Rightarrow> (s, writeSimple t))"

definition cmdTTL :: store_cmd where
  "cmdTTL now args s =
     (if length args \<noteq> 2 then (s, writeErr (argErr ''TTL''))
      else case TTL now s (strArg args 1) of (s, sec) \<Rightarrow> (s, writeInt sec))"

definition cmdPTTL :: store_cmd where
  "cmdPTTL now args s =
     (if length args \<noteq> 2 then (s, writeErr (argErr ''PTTL''))
      else case TTLMs now s (strArg args 1) of (s, ms) \<Rightarrow> (s, writeInt ms))"

text \<open>The replies of the expiry commands: 1 with the payload if the key was there, 0 otherwise.\<close>

definition expireReply :: "ReplicatePayload \<Rightarrow> store \<times> bool \<Rightarrow> store \<times> effect" where
  "expireReply p r = (case r of (s, ok) \<Rightarrow> (s, if ok then replicating [p] (writeInt 1) else writeInt 0))"

definition cmdExpire :: store_cmd where
  "cmdExpire now args s =
     (if length args \<noteq> 3 then (s, writeErr (argErr ''EXPIRE''))
      else case ParseInt (args ! 2) of
             Inl _ \<Rightarrow> (s, writeErr (invalidExpireErr ''EXPIRE''))
           | Inr sec \<Rightarrow>
               if sec \<le> 0 then (s, writeErr (invalidExpireErr ''EXPIRE''))
               else
                 let key = strArg args 1
                 in case Expire now s key sec of
                      (s, Inl err) \<Rightarrow> (s, storeFail err)
                    | (s, Inr ok) \<Rightarrow> expireReply (ReplicateExpire key sec) (s, ok))"

definition cmdExpireAt :: store_cmd where
  "cmdExpireAt now args s =
     (if length args \<noteq> 3 then (s, writeErr (argErr ''EXPIREAT''))
      else case ParseInt (args ! 2) of
             Inl _ \<Rightarrow> (s, writeErr (invalidExpireErr ''EXPIREAT''))
           | Inr ts \<Rightarrow>
               let key = strArg args 1
               in expireReply (ReplicateExpireAtUnix key ts) (ExpireAt now s key (timeUnix ts)))"

definition cmdPExpire :: store_cmd where
  "cmdPExpire now args s =
     (if length args \<noteq> 3 then (s, writeErr (argErr ''PEXPIRE''))
      else case ParseInt (args ! 2) of
             Inl _ \<Rightarrow> (s, writeErr (invalidExpireErr ''PEXPIRE''))
           | Inr ms \<Rightarrow>
               if ms \<le> 0 then (s, writeErr (invalidExpireErr ''PEXPIRE''))
               else
                 let key = strArg args 1
                 in expireReply (ReplicatePExpire key ms)
                      (ExpireAt now s key (timeAdd now (durMul ms durMillisecond))))"

definition cmdPExpireAt :: store_cmd where
  "cmdPExpireAt now args s =
     (if length args \<noteq> 3 then (s, writeErr (argErr ''PEXPIREAT''))
      else case ParseInt (args ! 2) of
             Inl _ \<Rightarrow> (s, writeErr (invalidExpireErr ''PEXPIREAT''))
           | Inr ms \<Rightarrow>
               let key = strArg args 1
               in expireReply (ReplicatePExpireAtUnixMs key ms) (ExpireAt now s key (timeUnixMilli ms)))"

definition cmdPersist :: store_cmd where
  "cmdPersist now args s =
     (if length args \<noteq> 2 then (s, writeErr (argErr ''PERSIST''))
      else
        let key = strArg args 1
        in expireReply (ReplicatePersist key) (Persist now s key))"

definition cmdKeys :: store_cmd where
  "cmdKeys now args s =
     (if length args \<noteq> 2 then (s, writeErr (argErr ''KEYS''))
      else (s, writeArray (map bulkV (sort (Keys now s (strArg args 1))))))"

record scan_opts =
  matchOpt :: bytes
  countOpt :: int
  typeOpt :: bytes

fun scanOptions :: "scan_opts \<Rightarrow> arg list \<Rightarrow> bytes + scan_opts" where
  "scanOptions o1 [] = Inr o1"
| "scanOptions o1 (a # r) =
     (let opt = upperName (bytesToStr a)
      in if opt \<in> {''MATCH'', ''COUNT'', ''TYPE''} then
           (case r of
              [] \<Rightarrow> Inl (argErr ''SCAN'')
            | v # r' \<Rightarrow>
                if opt = ''MATCH'' then scanOptions (o1\<lparr>matchOpt := bytesToStr v\<rparr>) r'
                else if opt = ''COUNT'' then
                  (case ParseInt v of
                     Inl _ \<Rightarrow> Inl errNotInt
                   | Inr c \<Rightarrow> if c < 1 then Inl errNotInt else scanOptions (o1\<lparr>countOpt := c\<rparr>) r')
                else scanOptions (o1\<lparr>typeOpt := bytesToStr v\<rparr>) r')
         else Inl (argErr ''SCAN''))"

definition cmdScan :: store_cmd where
  "cmdScan now args s =
     (if length args < 2 then (s, writeErr (argErr ''SCAN''))
      else case ParseUint (args ! 1) of
             Inl _ \<Rightarrow> (s, writeErr errNotInt)
           | Inr cur \<Rightarrow>
               (case scanOptions \<lparr>matchOpt = ''*'', countOpt = 10, typeOpt = []\<rparr> (drop 2 args) of
                  Inl msg \<Rightarrow> (s, writeErr msg)
                | Inr o1 \<Rightarrow>
                    (case Scan now s (of_nat cur) (matchOpt o1) (countOpt o1) (typeOpt o1) of
                       (s, Inl err) \<Rightarrow> (s, storeFail err)
                     | (s, Inr (nxt, keys)) \<Rightarrow>
                         (s, writeArray [bulkV (formatUint (unat nxt)), arrayV (map bulkV keys)]))))"

definition cmdRename :: store_cmd where
  "cmdRename now args s =
     (if length args \<noteq> 3 then (s, writeErr (argErr ''RENAME''))
      else
        let src = strArg args 1; dst = strArg args 2
        in case Rename now s src dst of
             (s, Some err) \<Rightarrow> (s, if err = ErrNoSuchKey then writeErr errNoSuchKey else storeFail err)
           | (s, None) \<Rightarrow> (s, replicating [ReplicateRename src dst] writeOK))"

definition cmdRenameNX :: store_cmd where
  "cmdRenameNX now args s =
     (if length args \<noteq> 3 then (s, writeErr (argErr ''RENAMENX''))
      else
        let src = strArg args 1; dst = strArg args 2
        in case Exists now s [src] of (s, n) \<Rightarrow>
             if n = 0 then (s, writeErr errNoSuchKey)
             else expireReply (ReplicateRename src dst) (RenameNX now s src dst))"

definition cmdRandomKey :: store_cmd where
  "cmdRandomKey now args s =
     (if length args \<noteq> 1 then (s, writeErr (argErr ''RANDOMKEY''))
      else
        let keys = Keys now s ''*''
        in if keys = [] then (s, writeBulkNil)
           else case randIntN s (length keys) of (i, s) \<Rightarrow> (s, writeBulk (Some (keys ! i))))"

definition cmdDBSize :: store_cmd where
  "cmdDBSize now args s =
     (if length args \<noteq> 1 then (s, writeErr (argErr ''DBSIZE''))
      else (s, writeInt (int (DBSize now s))))"

end
