(* ===== verification/Client.thy ===== *)
theory Client
  imports Resp Go_Glob
begin

text \<open>
  Sessions and subscriptions (\<^verbatim>\<open>src/internal/client\<close>).  A session is known to the subscription
  manager by its number, which the server draws from a counter.  Sets of channels and the subscribers
  of a channel are lists; the order in which Go iterates over a map is the order of the list.
\<close>


section \<open>Sessions\<close>

record Session =
  sessID :: int
  Authenticated :: bool
  sessName :: bytes
  DB :: int
  MultiQueue :: "rvalue list"
  WatchedKeys :: "(bytes, 64 word) gomap"
  InMulti :: bool
  SubChannels :: "bytes list"
  PSubPatterns :: "bytes list"
  CreatedAt :: time
  LastCmdAt :: time
  CmdCount :: int
  remoteAddr :: bytes

definition NewSession :: "time \<Rightarrow> int \<Rightarrow> bytes \<Rightarrow> Session" where
  "NewSession now i addr =
     \<lparr>sessID = i, Authenticated = False, sessName = [], DB = 0, MultiQueue = [], WatchedKeys = [],
      InMulti = False, SubChannels = [], PSubPatterns = [], CreatedAt = now, LastCmdAt = now,
      CmdCount = 0, remoteAddr = addr\<rparr>"

definition InSubscribeMode :: "Session \<Rightarrow> bool" where
  "InSubscribeMode s \<longleftrightarrow> SubChannels s \<noteq> [] \<or> PSubPatterns s \<noteq> []"

text \<open>The messages a subscriber gets.\<close>

definition pubSubMessage :: "bytes \<Rightarrow> bytes \<Rightarrow> rvalue" where
  "pubSubMessage channel message = arrayV [bulkV ''message'', bulkV channel, bulkV message]"

definition pMessage :: "bytes \<Rightarrow> bytes \<Rightarrow> bytes \<Rightarrow> rvalue" where
  "pMessage pattern channel message =
     arrayV [bulkV ''pmessage'', bulkV pattern, bulkV channel, bulkV message]"


section \<open>Subscriptions\<close>

record SubscriptionManager =
  chans :: "(bytes, int list) gomap"
  psubs :: "(bytes, int list) gomap"

definition NewSubscriptionManager :: SubscriptionManager where
  "NewSubscriptionManager = \<lparr>chans = [], psubs = []\<rparr>"

text \<open>\<^verbatim>\<open>m[ch]\<close>, nil when there is no entry\<close>

definition subscribers :: "(bytes, int list) gomap \<Rightarrow> bytes \<Rightarrow> int list" where
  "subscribers m ch = (case mapGet m ch of None \<Rightarrow> [] | Some l \<Rightarrow> l)"

definition addSub :: "bytes \<Rightarrow> int \<Rightarrow> (bytes, int list) gomap \<Rightarrow> (bytes, int list) gomap" where
  "addSub ch i m = (if i \<in> set (subscribers m ch) then m else mapPut ch (subscribers m ch @ [i]) m)"

definition removeSession :: "int list \<Rightarrow> int \<Rightarrow> int list" where
  "removeSession subs i = filter (\<lambda>x. x \<noteq> i) subs"

definition delSub :: "bytes \<Rightarrow> int \<Rightarrow> (bytes, int list) gomap \<Rightarrow> (bytes, int list) gomap" where
  "delSub ch i m =
     (let l = removeSession (subscribers m ch) i
      in if l = [] then mapDel ch m else mapPut ch l m)"

definition Subscribe :: "bytes \<Rightarrow> int \<Rightarrow> SubscriptionManager \<Rightarrow> SubscriptionManager" where
  "Subscribe ch i m = m\<lparr>chans := addSub ch i (chans m)\<rparr>"

definition Unsubscribe :: "bytes \<Rightarrow> int \<Rightarrow> SubscriptionManager \<Rightarrow> SubscriptionManager" where
  "Unsubscribe ch i m = m\<lparr>chans := delSub ch i (chans m)\<rparr>"

definition PSubscribe :: "bytes \<Rightarrow> int \<Rightarrow> SubscriptionManager \<Rightarrow> SubscriptionManager" where
  "PSubscribe pat i m = m\<lparr>psubs := addSub pat i (psubs m)\<rparr>"

definition PUnsubscribe :: "bytes \<Rightarrow> int \<Rightarrow> SubscriptionManager \<Rightarrow> SubscriptionManager" where
  "PUnsubscribe pat i m = m\<lparr>psubs := delSub pat i (psubs m)\<rparr>"

definition RemoveSessionFromAll :: "int \<Rightarrow> SubscriptionManager \<Rightarrow> SubscriptionManager" where
  "RemoveSessionFromAll i m =
     m\<lparr>chans := fold (\<lambda>ch. delSub ch i) (map fst (chans m)) (chans m),
       psubs := fold (\<lambda>pat. delSub pat i) (map fst (psubs m)) (psubs m)\<rparr>"

text \<open>The sessions a message goes to: each once, the subscribers of the channel first.  \<open>seen\<close> are those
  served already.\<close>

fun publishTo :: "rvalue \<Rightarrow> int list \<Rightarrow> int list \<Rightarrow> (int \<times> rvalue) list" where
  "publishTo v seen [] = []"
| "publishTo v seen (i # l) =
     (if i \<in> set seen then publishTo v seen l else (i, v) # publishTo v (i # seen) l)"

fun publishPatterns :: "bytes \<Rightarrow> bytes \<Rightarrow> int list \<Rightarrow> (bytes \<times> int list) list \<Rightarrow> (int \<times> rvalue) list" where
  "publishPatterns channel message seen [] = []"
| "publishPatterns channel message seen ((pat, subs) # ps) =
     (if pathMatch pat channel = Some True then
        (let out = publishTo (pMessage pat channel message) seen subs
         in out @ publishPatterns channel message (map fst out @ seen) ps)
      else publishPatterns channel message seen ps)"

definition Publish :: "SubscriptionManager \<Rightarrow> bytes \<Rightarrow> bytes \<Rightarrow> (int \<times> rvalue) list" where
  "Publish m channel message =
     (let out = publishTo (pubSubMessage channel message) [] (subscribers (chans m) channel)
      in out @ publishPatterns channel message (map fst out) (psubs m))"


section \<open>What the manager promises\<close>

text \<open>No channel is kept without subscribers, and nobody subscribes twice.\<close>

definition subsOk :: "(bytes, int list) gomap \<Rightarrow> bool" where
  "subsOk m \<longleftrightarrow> mapOk m \<and> (\<forall>(ch, l)\<in>set m. l \<noteq> [] \<and> distinct l)"

definition managerOk :: "SubscriptionManager \<Rightarrow> bool" where
  "managerOk m \<longleftrightarrow> subsOk (chans m) \<and> subsOk (psubs m)"

lemma subsOk_subscribers: "subsOk m \<Longrightarrow> distinct (subscribers m ch)"
  by (auto simp: subsOk_def subscribers_def dest!: map_of_SomeD split: option.split)

lemma set_mapPut_subset: "set (mapPut k v m) \<subseteq> insert (k, v) (set m)"
  by (induction m) (auto split: if_splits)

lemma set_mapDel_subset: "set (mapDel k m) \<subseteq> set m"
  by (auto simp: AList.delete_eq)

lemma subsOk_put: "subsOk m \<Longrightarrow> l \<noteq> [] \<Longrightarrow> distinct l \<Longrightarrow> subsOk (mapPut ch l m)"
  using set_mapPut_subset [of ch l m] by (fastforce simp: subsOk_def)

lemma subsOk_del: "subsOk m \<Longrightarrow> subsOk (mapDel ch m)"
  using set_mapDel_subset [of ch m] by (fastforce simp: subsOk_def)

lemma addSub_ok: "subsOk m \<Longrightarrow> subsOk (addSub ch i m)"
  by (auto simp: addSub_def intro!: subsOk_put subsOk_subscribers)

lemma delSub_ok: "subsOk m \<Longrightarrow> subsOk (delSub ch i m)"
  by (auto simp: delSub_def Let_def removeSession_def intro!: subsOk_put subsOk_del dest: subsOk_subscribers [of m ch])

lemma subscribers_addSub: "set (subscribers (addSub ch i m) c) = (if c = ch then insert i (set (subscribers m c)) else set (subscribers m c))"
  by (auto simp: addSub_def subscribers_def split: option.splits)

lemma subscribers_delSub: "set (subscribers (delSub ch i m) c) = (if c = ch then set (subscribers m c) - {i} else set (subscribers m c))"
  by (auto simp: delSub_def Let_def removeSession_def subscribers_def filter_empty_conv split: option.splits)

lemma delSub_fold:
  "subsOk m \<Longrightarrow> subsOk (fold (\<lambda>ch. delSub ch i) chs m) \<and>
     set (subscribers (fold (\<lambda>ch. delSub ch i) chs m) c) =
       (if c \<in> set chs then set (subscribers m c) - {i} else set (subscribers m c))"
  by (induction chs arbitrary: m) (auto simp: delSub_ok subscribers_delSub)

lemma subscribers_keys: "c \<notin> fst ` set m \<Longrightarrow> subscribers m c = []"
  by (auto simp: subscribers_def split: option.splits dest!: map_of_SomeD) (force)

lemma manager_ops_ok:
  assumes "managerOk m"
  shows "managerOk (Subscribe ch i m)" "managerOk (Unsubscribe ch i m)"
    "managerOk (PSubscribe ch i m)" "managerOk (PUnsubscribe ch i m)" "managerOk (RemoveSessionFromAll i m)"
  using assms delSub_fold [of "chans m" i] delSub_fold [of "psubs m" i]
  by (simp_all add: managerOk_def Subscribe_def Unsubscribe_def PSubscribe_def PUnsubscribe_def
      RemoveSessionFromAll_def addSub_ok delSub_ok)

lemma RemoveSessionFromAll_gone:
  assumes "managerOk m"
  shows "i \<notin> set (subscribers (chans (RemoveSessionFromAll i m)) c)"
    "i \<notin> set (subscribers (psubs (RemoveSessionFromAll i m)) c)"
  using assms delSub_fold [of "chans m" i "map fst (chans m)" c] delSub_fold [of "psubs m" i "map fst (psubs m)" c]
    subscribers_keys [of c "chans m"] subscribers_keys [of c "psubs m"]
  by (auto simp: managerOk_def RemoveSessionFromAll_def split: if_splits)

text \<open>Who gets a message: the subscribers of the channel and of the patterns that match it, each once.\<close>

lemma publishTo_spec:
  "distinct (map fst (publishTo v seen l)) \<and> fst ` set (publishTo v seen l) = set l - set seen \<and>
   (\<forall>(i, w)\<in>set (publishTo v seen l). w = v)"
  by (induction v seen l rule: publishTo.induct) auto

definition patternSubs :: "bytes \<Rightarrow> (bytes \<times> int list) list \<Rightarrow> int set" where
  "patternSubs channel ps = \<Union> {set subs |pat subs. (pat, subs) \<in> set ps \<and> pathMatch pat channel = Some True}"

lemma patternSubs_simps [simp]:
  "patternSubs channel [] = {}"
  "patternSubs channel ((pat, subs) # ps) =
     (if pathMatch pat channel = Some True then set subs else {}) \<union> patternSubs channel ps"
  by (auto simp: patternSubs_def)

lemma publishPatterns_spec:
  "distinct (map fst (publishPatterns channel message seen ps)) \<and>
   fst ` set (publishPatterns channel message seen ps) = patternSubs channel ps - set seen"
proof (induction channel message seen ps rule: publishPatterns.induct)
  case (2 channel message seen pat subs ps)
  show ?case
  proof (cases "pathMatch pat channel = Some True")
    case True
    let ?out = "publishTo (pMessage pat channel message) seen subs"
    have out: "distinct (map fst ?out)" "fst ` set ?out = set subs - set seen"
      using publishTo_spec [of "pMessage pat channel message" seen subs] by simp_all
    with "2.IH"(1) [OF True refl] True show ?thesis by (auto simp: Let_def image_Un)
  next
    case False
    with 2 show ?thesis by simp
  qed
qed simp

lemma Publish_spec:
  "distinct (map fst (Publish m channel message))"
  "fst ` set (Publish m channel message) = set (subscribers (chans m) channel) \<union> patternSubs channel (psubs m)"
  "length (Publish m channel message) = card (set (subscribers (chans m) channel) \<union> patternSubs channel (psubs m))"
proof -
  let ?out = "publishTo (pubSubMessage channel message) [] (subscribers (chans m) channel)"
  note to = publishTo_spec [of "pubSubMessage channel message" "[]" "subscribers (chans m) channel"]
  note pat = publishPatterns_spec [of channel message "map fst ?out" "psubs m"]
  show d: "distinct (map fst (Publish m channel message))" using to pat by (auto simp: Publish_def Let_def)
  show f: "fst ` set (Publish m channel message) = set (subscribers (chans m) channel) \<union> patternSubs channel (psubs m)"
    using to pat by (auto simp: Publish_def Let_def image_Un)
  show "length (Publish m channel message) = card (set (subscribers (chans m) channel) \<union> patternSubs channel (psubs m))"
    using distinct_card [OF d] f by simp
qed

end
