(* ===== verification/Cmd_Session.thy ===== *)
theory Cmd_Session
  imports Cmd_Keys Client
begin

unbundle bit_operations_syntax

text \<open>
  The commands that read or change more than the store: server and connection commands
  (\<^verbatim>\<open>src/internal/commands/server.go\<close>, and \<open>SELECT\<close> of \<^verbatim>\<open>generic.go\<close>), subscriptions
  (\<^verbatim>\<open>pubsub.go\<close>) and transactions (\<^verbatim>\<open>transaction.go\<close>).  They act on a \<open>world\<close>: the store, the
  session that sent the command and the subscriptions of the server.
\<close>


section \<open>Contexts\<close>

record world =
  wStore :: store
  wSession :: Session
  wPubSub :: SubscriptionManager

text \<open>\<open>CommandMeta\<close> without its handler, and the flags\<close>

record CommandMeta =
  metaName :: bytes
  Arity :: int
  Flags :: int
  FirstKey :: int
  LastKey :: int
  Step :: int

definition FlagRead :: int where "FlagRead = 1"
definition FlagWrite :: int where "FlagWrite = 2"
definition FlagAdmin :: int where "FlagAdmin = 4"
definition FlagDangerous :: int where "FlagDangerous = 8"

text \<open>What \<open>INFO\<close> reads: the metrics of the server, and the process and platform it runs on.\<close>

record InfoProvider =
  TCPPort :: int
  UptimeSeconds :: int
  ConnectedClients :: int
  TotalConnections :: int
  TotalCommands :: int
  OpsPerSec :: int
  KeyspaceHits :: int
  KeyspaceMisses :: int
  ConnectedPeers :: int
  PeerAddresses :: "bytes list"
  NodeID :: bytes
  BootstrapState :: bytes
  ReplicationDropped :: int
  ReplicationSendErrors :: int
  ReplicationMissedEvents :: int
  ServerVersion :: bytes
  osName :: bytes
  archName :: bytes
  processID :: int
  executablePath :: bytes

text \<open>The context of a command: the clock, the configuration, the metrics, the floating-point operations,
  \<^verbatim>\<open>strings.ToLower\<close> for texts that are shown, the metadata of the registry sorted by name, and the
  dispatch of a queued command.\<close>

record CommandContext =
  ctxNow :: time
  ctxConfig :: Config
  ctxInfo :: InfoProvider
  ctxFloat :: float_ops
  ctxLower :: "bytes \<Rightarrow> bytes"
  ctxCommands :: "CommandMeta list"
  ctxDispatch :: "rvalue \<Rightarrow> world \<Rightarrow> world \<times> effect"

type_synonym handler = "CommandContext \<Rightarrow> arg list \<Rightarrow> world \<Rightarrow> world \<times> effect"

definition onStore :: "store_cmd \<Rightarrow> handler" where
  "onStore h ctx args w = (case h (ctxNow ctx) args (wStore w) of (s, e) \<Rightarrow> (w\<lparr>wStore := s\<rparr>, e))"

definition onSession :: "(Session \<Rightarrow> Session) \<Rightarrow> world \<Rightarrow> world" where
  "onSession f w = w\<lparr>wSession := f (wSession w)\<rparr>"


section \<open>Connection commands\<close>

definition cmdPing :: handler where
  "cmdPing ctx args w =
     (w, if InSubscribeMode (wSession w) then
           (if length args = 1 then writeArray [bulkV ''pong'', bulkV []]
            else if length args = 2 then writeArray [bulkV ''pong'', bulkV (strArg args 1)]
            else writeErr (argErr ''PING''))
         else if length args = 1 then writeSimple ''PONG''
         else if length args = 2 then writeBulk (args ! 1)
         else writeErr (argErr ''PING''))"

definition cmdEcho :: handler where
  "cmdEcho ctx args w =
     (w, if length args \<noteq> 2 then writeErr (argErr ''ECHO'') else writeBulk (args ! 1))"

definition cmdAuth :: handler where
  "cmdAuth ctx args w =
     (let want = AuthPassword (ctxConfig ctx)
      in if want = [] then (w, writeErr errAuthNoPass)
         else if length args \<noteq> 2 then (w, writeErr (argErr ''AUTH''))
         else if strArg args 1 \<noteq> want then (w, writeErr errWrongPass)
         else (onSession (Authenticated_update (\<lambda>_. True)) w, writeOK))"

definition cmdSelect :: handler where
  "cmdSelect ctx args w =
     (if length args \<noteq> 2 then (w, writeErr (argErr ''SELECT''))
      else case ParseInt (args ! 1) of
             Inl _ \<Rightarrow> (w, writeErr errDBRange)
           | Inr n \<Rightarrow>
               if n \<noteq> 0 then (w, writeErr errDBRange)
               else (onSession (DB_update (\<lambda>_. n)) w, writeOK))"

text \<open>The nanoseconds of a time are counted from the second before it.\<close>

definition unixSeconds :: "time \<Rightarrow> int" where
  "unixSeconds t = t div durSecond"

definition cmdTime :: handler where
  "cmdTime ctx args w =
     (w, if length args \<noteq> 1 then writeErr (argErr ''TIME'')
         else writeArray [bulkV (formatInt (unixSeconds (ctxNow ctx))),
                          bulkV (formatInt (ctxNow ctx mod durSecond div 1000))])"

definition clientID :: "Session \<Rightarrow> int" where
  "clientID s = (if sessID s > 0 then sessID s else 1)"

definition cmdClient :: handler where
  "cmdClient ctx args w =
     (if length args < 2 then (w, writeErr (argErr ''CLIENT''))
      else
        let sub = upperName (strArg args 1); s = wSession w
        in if sub = ''ID'' then
             (w, if length args \<noteq> 2 then writeErr (argErr ''CLIENT'') else writeInt (clientID s))
           else if sub = ''LIST'' then
             (w, if length args \<noteq> 2 then writeErr (argErr ''CLIENT'')
                 else writeBulk (Some (''addr='' @ remoteAddr s @ '' id='' @ formatInt (clientID s) @
                        '' name='' @ sessName s @ '' cmd=client'' @ [LF])))
           else if sub = ''SETNAME'' then
             (if length args \<noteq> 3 then (w, writeErr (argErr ''CLIENT''))
              else (onSession (sessName_update (\<lambda>_. strArg args 2)) w, writeOK))
           else if sub = ''GETNAME'' then
             (w, if length args \<noteq> 2 then writeErr (argErr ''CLIENT'')
                 else if sessName s = [] then writeBulkNil
                 else writeBulk (Some (sessName s)))
           else (w, writeErr errSyntax))"

definition flushClusterDB :: "bytes \<Rightarrow> handler" where
  "flushClusterDB replOp ctx args w =
     (w\<lparr>wStore := FlushDB (wStore w)\<rparr>, replicating [payload replOp []] writeOK)"

definition cmdFlushDB :: handler where
  "cmdFlushDB = flushClusterDB ''FLUSHDB''"

definition cmdFlushAll :: handler where
  "cmdFlushAll = flushClusterDB ''FLUSHALL''"


section \<open>INFO\<close>

text \<open>\<^verbatim>\<open>float64(n)\<close> for a non-negative \<open>int64\<close>: 53 significant bits, ties to even.\<close>

definition roundEven :: "nat \<Rightarrow> nat \<Rightarrow> nat" where
  "roundEven n d =
     (let q = n div d; r = n mod d
      in if 2 * r < d then q else if 2 * r > d then q + 1 else if even q then q else q + 1)"

fun float64OfNat :: "nat \<Rightarrow> nat \<Rightarrow> nat" where
  "float64OfNat 0 n = n"
| "float64OfNat (Suc e) n =
     (if n < 9007199254740992 * 2 ^ e then float64OfNat e n
      else roundEven n (2 ^ Suc e) * 2 ^ Suc e)"

text \<open>\<^verbatim>\<open>%.2f\<close> of a float divided by a power of two, which is exact.\<close>

definition format2f :: "nat \<Rightarrow> nat \<Rightarrow> bytes" where
  "format2f f u =
     (let h = roundEven (f * 100) u
      in formatUint (h div 100) @ ''.'' @ formatUint (h mod 100 div 10) @ formatUint (h mod 10))"

definition humanBytes :: "int \<Rightarrow> bytes" where
  "humanBytes n =
     (let n = nat (if n < 0 then 0 else n); u = 1024; f = float64OfNat 11 n
      in if n < u then formatUint n @ ''B''
         else if n < u * u then format2f f u @ ''K''
         else if n < u * u * u then format2f f (u * u) @ ''M''
         else if n < u * u * u * u then format2f f (u * u * u) @ ''G''
         else format2f f (u * u * u * u) @ ''T'')"

definition boolInt :: "bool \<Rightarrow> int" where
  "boolInt b = (if b then 1 else 0)"

definition infoLine :: "bytes \<Rightarrow> bytes \<Rightarrow> bytes" where
  "infoLine k v = k @ '':'' @ v @ crlf"

definition infoNum :: "bytes \<Rightarrow> int \<Rightarrow> bytes" where
  "infoNum k n = infoLine k (formatInt n)"

definition infoServer :: "CommandContext \<Rightarrow> bytes" where
  "infoServer ctx =
     (let i = ctxInfo ctx; c = ctxConfig ctx
      in infoLine ''redis_version'' ''7.0.0-supercache'' @
         infoLine ''redis_mode'' ''cluster'' @
         infoLine ''supercache_version'' (ServerVersion i) @
         infoLine ''os'' (osName i @ '' '' @ archName i) @
         infoLine ''arch_bits'' ''64'' @
         infoNum ''process_id'' (processID i) @
         (if executablePath i \<noteq> [] then infoLine ''executable'' (filepathClean (executablePath i)) else []) @
         infoNum ''tcp_port'' (TCPPort i) @
         infoNum ''uptime_in_seconds'' (UptimeSeconds i) @
         infoNum ''uptime_in_days'' (goDiv (UptimeSeconds i) 86400) @
         infoLine ''hz'' ''10'' @
         infoNum ''lru_clock'' (goMod (unixSeconds (ctxNow ctx)) 16777216) @
         infoLine ''supercache_node_id'' (NodeID i) @
         infoLine ''supercache_bootstrap'' (BootstrapState i) @
         infoNum ''supercache_client_tls'' (boolInt (ClientTLSEnabled (Some c))) @
         infoNum ''supercache_peer_tls'' (boolInt (PeerTLSEnabled (Some c))))"

definition infoStats :: "InfoProvider \<Rightarrow> bytes" where
  "infoStats i =
     infoNum ''total_connections_received'' (TotalConnections i) @
     infoNum ''total_commands_processed'' (TotalCommands i) @
     infoNum ''instantaneous_ops_per_sec'' (OpsPerSec i) @
     infoNum ''keyspace_hits'' (KeyspaceHits i) @
     infoNum ''keyspace_misses'' (KeyspaceMisses i)"

definition infoReplication :: "InfoProvider \<Rightarrow> bytes" where
  "infoReplication i =
     infoLine ''role'' ''master'' @
     infoNum ''connected_peers'' (ConnectedPeers i) @
     infoLine ''peer_addresses'' (intercalate '','' (PeerAddresses i)) @
     infoNum ''replication_dropped'' (ReplicationDropped i) @
     infoNum ''replication_send_errors'' (ReplicationSendErrors i) @
     infoNum ''replication_missed_events'' (ReplicationMissedEvents i) @
     concat (map (\<lambda>(j, a). infoLine (''slave'' @ formatUint j) (''ip='' @ a @ '',state=online''))
       (enumerate 0 (PeerAddresses i)))"

definition infoMemory :: "CommandContext \<Rightarrow> store \<Rightarrow> bytes" where
  "infoMemory ctx s =
     (let mb = MemBytes s; c = ctxConfig ctx; pol = trimSpace (MaxMemoryPolicy c)
      in infoNum ''used_memory'' mb @
         infoLine ''used_memory_human'' (humanBytes mb) @
         (case MaxMemoryBytes c of
            Inl _ \<Rightarrow> []
          | Inr maxB \<Rightarrow>
              if maxB > 0 then
                infoLine ''maxmemory'' (formatUint (unat maxB)) @
                infoLine ''maxmemory_human'' (humanBytes (sint maxB))
              else []) @
         infoLine ''maxmemory_policy'' (if pol = [] then ''noeviction'' else pol))"

definition infoKeyspace :: "time \<Rightarrow> store \<Rightarrow> bytes" where
  "infoKeyspace now s =
     infoLine ''db0'' (''keys='' @ formatUint (DBSize now s) @ '',expires='' @ formatUint (ExpireKeyCount now s))"

definition infoSection :: "bytes \<Rightarrow> bytes \<Rightarrow> bytes \<Rightarrow> bytes" where
  "infoSection sec name body =
     (if sec \<noteq> [] \<and> sec \<noteq> ''all'' \<and> sec \<noteq> name then [] else ''# '' @ name @ crlf @ body)"

definition cmdInfo :: handler where
  "cmdInfo ctx args w =
     (let sec = (if length args > 1 then lowerName (strArg args 1) else []);
          i = ctxInfo ctx; s = wStore w
      in (w, writeBulk (Some
           (infoSection sec ''server'' (infoServer ctx) @
            infoSection sec ''clients'' (infoNum ''connected_clients'' (ConnectedClients i)) @
            infoSection sec ''stats'' (infoStats i) @
            infoSection sec ''replication'' (infoReplication i) @
            infoSection sec ''memory'' (infoMemory ctx s) @
            infoSection sec ''keyspace'' (infoKeyspace (ctxNow ctx) s)))))"


section \<open>COMMAND\<close>

definition commandKeyIndices :: "CommandMeta \<Rightarrow> int \<times> int \<times> int" where
  "commandKeyIndices m =
     (let step = (if Step m = 0 then 1 else Step m)
      in if FirstKey m \<noteq> 0 \<or> LastKey m \<noteq> 0 then (FirstKey m, LastKey m, step)
         else if Arity m = 1 then (0, 0, 0)
         else (2, 2, step))"

definition redisFlagList :: "CommandMeta \<Rightarrow> bytes list" where
  "redisFlagList m =
     (if Flags m AND FlagRead \<noteq> 0 \<and> Flags m AND FlagWrite = 0 then [''readonly''] else []) @
     (if Flags m AND FlagWrite \<noteq> 0 then [''write''] else []) @
     (if Flags m AND FlagAdmin \<noteq> 0 then [''admin''] else [])"

definition commandMetaToRESP :: "CommandMeta \<Rightarrow> rvalue" where
  "commandMetaToRESP m =
     (case commandKeyIndices m of (fk, lk, st) \<Rightarrow>
        arrayV [bulkV (lowerName (metaName m)), intV (Arity m), arrayV (map bulkV (redisFlagList m)),
                intV fk, intV lk, intV st])"

definition lookupMeta :: "CommandMeta list \<Rightarrow> bytes \<Rightarrow> CommandMeta option" where
  "lookupMeta ms name = find (\<lambda>m. lowerName (metaName m) = lowerName name) ms"

definition cmdCommand :: handler where
  "cmdCommand ctx args w =
     (w, if length args < 1 then writeErr (argErr ''COMMAND'')
         else if length args = 1 then writeArray (map commandMetaToRESP (ctxCommands ctx))
         else
           let sub = upperName (strArg args 1)
           in if sub = ''COUNT'' then
                (if length args \<noteq> 2 then writeErr (argErr ''COMMAND'')
                 else writeInt (int (length (ctxCommands ctx))))
              else if sub = ''INFO'' then
                (if length args < 3 then writeErr (argErr ''COMMAND'')
                 else writeArray (map (\<lambda>n. case lookupMeta (ctxCommands ctx) n of
                                             None \<Rightarrow> nullBulkV
                                           | Some m \<Rightarrow> commandMetaToRESP m) (strsFrom 2 args)))
              else writeErr (argErr ''COMMAND''))"


section \<open>Subscriptions\<close>

definition subscriptionCount :: "Session \<Rightarrow> int" where
  "subscriptionCount s = int (length (SubChannels s)) + int (length (PSubPatterns s))"

definition subscribeAck :: "bytes \<Rightarrow> bytes \<Rightarrow> int \<Rightarrow> rvalue" where
  "subscribeAck kind channel n = arrayV [bulkV kind, bulkV channel, intV n]"

text \<open>One round of each loop: the channel is added to or taken from the session and the manager, and the
  client gets an acknowledgement.\<close>

definition subscribeOne :: "bytes \<Rightarrow> world \<Rightarrow> world \<times> rvalue" where
  "subscribeOne ch w =
     (let s = (wSession w)\<lparr>SubChannels := List.insert ch (SubChannels (wSession w))\<rparr>
      in (w\<lparr>wSession := s, wPubSub := Subscribe ch (sessID s) (wPubSub w)\<rparr>,
          subscribeAck ''subscribe'' ch (subscriptionCount s)))"

definition psubscribeOne :: "bytes \<Rightarrow> world \<Rightarrow> world \<times> rvalue" where
  "psubscribeOne pat w =
     (let s = (wSession w)\<lparr>PSubPatterns := List.insert pat (PSubPatterns (wSession w))\<rparr>
      in (w\<lparr>wSession := s, wPubSub := PSubscribe pat (sessID s) (wPubSub w)\<rparr>,
          subscribeAck ''psubscribe'' pat (subscriptionCount s)))"

definition unsubscribeOne :: "bytes \<Rightarrow> world \<Rightarrow> world \<times> rvalue" where
  "unsubscribeOne ch w =
     (let s = (wSession w)\<lparr>SubChannels := removeAll ch (SubChannels (wSession w))\<rparr>
      in (w\<lparr>wSession := s, wPubSub := Unsubscribe ch (sessID s) (wPubSub w)\<rparr>,
          subscribeAck ''unsubscribe'' ch (subscriptionCount s)))"

definition punsubscribeOne :: "bytes \<Rightarrow> world \<Rightarrow> world \<times> rvalue" where
  "punsubscribeOne pat w =
     (let s = (wSession w)\<lparr>PSubPatterns := removeAll pat (PSubPatterns (wSession w))\<rparr>
      in (w\<lparr>wSession := s, wPubSub := PUnsubscribe pat (sessID s) (wPubSub w)\<rparr>,
          subscribeAck ''punsubscribe'' pat (subscriptionCount s)))"

fun ackLoop :: "(bytes \<Rightarrow> world \<Rightarrow> world \<times> rvalue) \<Rightarrow> bytes list \<Rightarrow> world \<Rightarrow> world \<times> rvalue list" where
  "ackLoop f [] w = (w, [])"
| "ackLoop f (c # cs) w = (case f c w of (w, v) \<Rightarrow> (case ackLoop f cs w of (w, vs) \<Rightarrow> (w, v # vs)))"

definition acks :: "(bytes \<Rightarrow> world \<Rightarrow> world \<times> rvalue) \<Rightarrow> bytes list \<Rightarrow> world \<Rightarrow> world \<times> effect" where
  "acks f cs w = (case ackLoop f cs w of (w, vs) \<Rightarrow> (w, silent\<lparr>replies := vs\<rparr>))"

definition cmdSubscribe :: handler where
  "cmdSubscribe ctx args w =
     (if length args < 2 then (w, writeErr (argErr ''SUBSCRIBE''))
      else acks subscribeOne (strsFrom 1 args) w)"

definition cmdPSubscribe :: handler where
  "cmdPSubscribe ctx args w =
     (if length args < 2 then (w, writeErr (argErr ''PSUBSCRIBE''))
      else acks psubscribeOne (strsFrom 1 args) w)"

text \<open>Without arguments all subscriptions go; a session without any gets no reply at all.\<close>

definition cmdUnsubscribe :: handler where
  "cmdUnsubscribe ctx args w =
     acks unsubscribeOne (if length args = 1 then SubChannels (wSession w) else strsFrom 1 args) w"

definition cmdPUnsubscribe :: handler where
  "cmdPUnsubscribe ctx args w =
     acks punsubscribeOne (if length args = 1 then PSubPatterns (wSession w) else strsFrom 1 args) w"

text \<open>Pushing a message takes the receiver's output lock.  The connection loop holds the lock of the session
  that runs the command, so a message to that session is never pushed and the command never
  returns.\<close>

definition cmdPublish :: handler where
  "cmdPublish ctx args w =
     (if length args \<noteq> 3 then (w, writeErr (argErr ''PUBLISH''))
      else
        let out = Publish (wPubSub w) (strArg args 1) (strArg args 2); me = sessID (wSession w)
        in if me \<in> fst ` set out then (w, silent\<lparr>pushed := takeWhile (\<lambda>(i, _). i \<noteq> me) out, exit := Deadlocked\<rparr>)
           else (w, (writeInt (int (length out)))\<lparr>pushed := out\<rparr>))"


section \<open>Transactions\<close>

definition cmdMulti :: handler where
  "cmdMulti ctx args w =
     (if length args \<noteq> 1 then (w, writeErr (argErr ''MULTI''))
      else if InMulti (wSession w) then (w, writeErr errMultiNested)
      else (onSession (\<lambda>s. s\<lparr>InMulti := True, MultiQueue := []\<rparr>) w, writeOK))"

definition cmdDiscard :: handler where
  "cmdDiscard ctx args w =
     (if length args \<noteq> 1 then (w, writeErr (argErr ''DISCARD''))
      else if \<not> InMulti (wSession w) then (w, writeErr errDiscardNoMulti)
      else (onSession (\<lambda>s. s\<lparr>InMulti := False, MultiQueue := []\<rparr>) w, writeOK))"

definition cmdWatch :: handler where
  "cmdWatch ctx args w =
     (if length args < 2 then (w, writeErr (argErr ''WATCH''))
      else (onSession (WatchedKeys_update
              (fold (\<lambda>k. mapPut k (WatchVersion (wStore w) k)) (strsFrom 1 args))) w, writeOK))"

definition cmdUnwatch :: handler where
  "cmdUnwatch ctx args w =
     (if length args \<noteq> 1 then (w, writeErr (argErr ''UNWATCH''))
      else (onSession (WatchedKeys_update (\<lambda>_. [])) w, writeOK))"

definition watchBroken :: "world \<Rightarrow> bool" where
  "watchBroken w \<longleftrightarrow> list_ex (\<lambda>(k, ver). WatchVersion (wStore w) k \<noteq> ver) (WatchedKeys (wSession w))"

text \<open>What has been written to the buffer of a queued command.\<close>

definition replyBytes :: "rvalue list \<Rightarrow> bytes" where
  "replyBytes vs = concat (map (\<lambda>v. case WriteValue v of Inl _ \<Rightarrow> [] | Inr b \<Rightarrow> b) vs)"

text \<open>Effects of one command after another, without the replies.\<close>

definition andThen :: "effect \<Rightarrow> effect \<Rightarrow> effect" where
  "andThen a b =
     \<lparr>replies = replies b, sent = sent a @ sent b, hits = hits a + hits b, misses = misses a + misses b,
      pushed = pushed a @ pushed b, exit = exit b\<rparr>"

text \<open>The loop of \<open>EXEC\<close>: \<open>elems\<close> are the values of the replies so far.  Of what a command wrote only the first
  value is taken.\<close>

fun execLoop :: "(rvalue \<Rightarrow> world \<Rightarrow> world \<times> effect) \<Rightarrow> rvalue list \<Rightarrow> rvalue list \<Rightarrow> world \<Rightarrow> world \<times> effect" where
  "execLoop disp elems [] w = (w, writeArray elems)"
| "execLoop disp elems (v # queue) w =
     (case disp v w of (w, e) \<Rightarrow>
        if exit e \<noteq> Done then (w, e\<lparr>replies := []\<rparr>)
        else case Parse (replyBytes (replies e)) of
               Inl _ \<Rightarrow> (w, e\<lparr>replies := [], exit := ReplyUnreadable\<rparr>)
             | Inr (val, _) \<Rightarrow>
                 (case execLoop disp (elems @ [val]) queue w of (w, e') \<Rightarrow> (w, andThen e e')))"

definition cmdExec :: handler where
  "cmdExec ctx args w =
     (if length args \<noteq> 1 then (w, writeErr (argErr ''EXEC''))
      else if \<not> InMulti (wSession w) then (w, writeErr errExecNoMulti)
      else
        let queue = MultiQueue (wSession w); broken = watchBroken w;
            w = onSession (\<lambda>s. s\<lparr>InMulti := False, MultiQueue := [], WatchedKeys := []\<rparr>) w
        in if broken then (w, reply nullArrayV)
           else execLoop (ctxDispatch ctx) [] queue w)"

end
