(* ===== verification/Cmd_Hash.thy ===== *)
theory Cmd_Hash
  imports Cmd_Strings
begin

text \<open>The hash commands (\<^verbatim>\<open>src/internal/commands/hashes.go\<close>).\<close>

definition badFields :: "arg list \<Rightarrow> bool" where
  "badFields args \<longleftrightarrow> length args < 4 \<or> (length args - 2) mod 2 \<noteq> 0"

definition cmdHSet :: store_cmd where
  "cmdHSet now args s =
     (if badFields args then (s, writeErr (argErr ''HSET''))
      else
        let key = strArg args 1; pairs = pairsOf [] (strsFrom 2 args)
        in case HSet now s key pairs of
             (s, Inl err) \<Rightarrow> (s, failWrongTypeOOM err)
           | (s, Inr n) \<Rightarrow> (s, replicating [ReplicateHash key pairs] (writeInt n)))"

definition cmdHMSet :: store_cmd where
  "cmdHMSet now args s =
     (if badFields args then (s, writeErr (argErr ''HMSET''))
      else
        let key = strArg args 1; pairs = pairsOf [] (strsFrom 2 args)
        in case HSet now s key pairs of
             (s, Inl err) \<Rightarrow> (s, failWrongTypeOOM err)
           | (s, Inr _) \<Rightarrow> (s, replicating [ReplicateHash key pairs] writeOK))"

text \<open>A missing field of a hash counts as a hit, a missing hash as a miss.\<close>

definition hitIfHash :: "time \<Rightarrow> store \<Rightarrow> bytes \<Rightarrow> effect \<Rightarrow> store \<times> effect" where
  "hitIfHash now s key e =
     (case Type now s key of (s, t) \<Rightarrow> (s, if t = ''hash'' then keyspaceHit 1 e else keyspaceMiss 1 e))"

definition cmdHGet :: store_cmd where
  "cmdHGet now args s =
     (if length args \<noteq> 3 then (s, writeErr (argErr ''HGET''))
      else
        let key = strArg args 1
        in case HGet now s key (strArg args 2) of
             (s, Inl err) \<Rightarrow> (s, failWrongType err)
           | (s, Inr None) \<Rightarrow> hitIfHash now s key writeBulkNil
           | (s, Inr (Some v)) \<Rightarrow> (s, keyspaceHit 1 (writeBulk (Some v))))"

fun hgetLoop :: "time \<Rightarrow> store \<Rightarrow> bytes \<Rightarrow> bytes list \<Rightarrow> store \<times> rvalue list res" where
  "hgetLoop now s key [] = (s, Inr [])"
| "hgetLoop now s key (f # fs) =
     (case HGet now s key f of
        (s, Inl err) \<Rightarrow> (s, Inl err)
      | (s, Inr v) \<Rightarrow>
          (case hgetLoop now s key fs of
             (s, Inl err) \<Rightarrow> (s, Inl err)
           | (s, Inr vs) \<Rightarrow> (s, Inr (bulkOrNull v # vs))))"

definition cmdHMGet :: store_cmd where
  "cmdHMGet now args s =
     (if length args < 3 then (s, writeErr (argErr ''HMGET''))
      else
        let key = strArg args 1; nFields = length args - 2
        in case Type now s key of (s, kt) \<Rightarrow>
             if kt \<noteq> ''none'' \<and> kt \<noteq> ''hash'' then (s, writeErr errWrongType)
             else if kt = ''none'' then
               (s, keyspaceMiss (int nFields) (writeArray (replicate nFields nullBulkV)))
             else
               (case hgetLoop now s key (strsFrom 2 args) of
                  (s, Inl err) \<Rightarrow> (s, keyspaceHit (int nFields) (failWrongType err))
                | (s, Inr arr) \<Rightarrow> (s, keyspaceHit (int nFields) (writeArray arr))))"

text \<open>\<open>HGETALL\<close>, \<open>HKEYS\<close> and \<open>HVALS\<close> differ in what they show of each field; the fields are sorted.\<close>

definition hashRows :: "bytes \<Rightarrow> (bytes \<Rightarrow> bytes \<Rightarrow> rvalue list) \<Rightarrow> store_cmd" where
  "hashRows name row now args s =
     (if length args \<noteq> 2 then (s, writeErr (argErr name))
      else case HGetAll now s (strArg args 1) of
             (s, Inl err) \<Rightarrow> (s, failWrongType err)
           | (s, Inr None) \<Rightarrow> (s, keyspaceMiss 1 writeArrayEmpty)
           | (s, Inr (Some m)) \<Rightarrow>
               (s, keyspaceHit 1 (writeArray (concat (map (\<lambda>k. row k (the (mapGet m k))) (sort (map fst m)))))))"

definition cmdHGetAll :: store_cmd where
  "cmdHGetAll = hashRows ''HGETALL'' (\<lambda>k v. [bulkV k, bulkV v])"

definition cmdHKeys :: store_cmd where
  "cmdHKeys = hashRows ''HKEYS'' (\<lambda>k v. [bulkV k])"

definition cmdHVals :: store_cmd where
  "cmdHVals = hashRows ''HVALS'' (\<lambda>k v. [bulkV v])"

definition cmdHDel :: store_cmd where
  "cmdHDel now args s =
     (if length args < 3 then (s, writeErr (argErr ''HDEL''))
      else
        let key = strArg args 1; fs = strsFrom 2 args
        in case HDel now s key fs of
             (s, Inl err) \<Rightarrow> (s, failWrongType err)
           | (s, Inr n) \<Rightarrow> (s, replicating (if n > 0 then [ReplicateHDel key fs] else []) (writeInt n)))"

definition cmdHExists :: store_cmd where
  "cmdHExists now args s =
     (if length args \<noteq> 3 then (s, writeErr (argErr ''HEXISTS''))
      else
        let key = strArg args 1
        in case HExists now s key (strArg args 2) of
             (s, Inl err) \<Rightarrow> (s, failWrongType err)
           | (s, Inr True) \<Rightarrow> (s, keyspaceHit 1 (writeInt 1))
           | (s, Inr False) \<Rightarrow> hitIfHash now s key (writeInt 0))"

definition cmdHLen :: store_cmd where
  "cmdHLen now args s =
     (if length args \<noteq> 2 then (s, writeErr (argErr ''HLEN''))
      else
        let key = strArg args 1
        in case HLen now s key of
             (s, Inl err) \<Rightarrow> (s, failWrongType err)
           | (s, Inr n) \<Rightarrow>
               (case Type now s key of (s, t) \<Rightarrow>
                  (s, if t = ''none'' then keyspaceMiss 1 (writeInt n) else keyspaceHit 1 (writeInt n))))"

definition failHIncr :: "store_error \<Rightarrow> effect" where
  "failHIncr err =
     (if isWrongType err then writeErr errWrongType
      else if saysNotInteger err then writeErr errNotInt
      else if saysOverflow err then writeErr errIncrOverflow
      else storeFail err)"

definition cmdHIncrBy :: store_cmd where
  "cmdHIncrBy now args s =
     (if length args \<noteq> 4 then (s, writeErr (argErr ''HINCRBY''))
      else case ParseInt (args ! 3) of
             Inl _ \<Rightarrow> (s, writeErr errNotInt)
           | Inr delta \<Rightarrow>
               let key = strArg args 1; field = strArg args 2
               in case HIncrBy now s key field delta of
                    (s, Inl err) \<Rightarrow> (s, failHIncr err)
                  | (s, Inr n) \<Rightarrow> (s, replicating [ReplicateHash key [(field, formatInt n)]] (writeInt n)))"

text \<open>\<^verbatim>\<open>strings.Contains(err.Error(), "not")\<close>, which the text of the memory error has, too.\<close>

definition saysNot :: "store_error \<Rightarrow> bool" where
  "saysNot err \<longleftrightarrow> (case err of ErrNotFloat _ \<Rightarrow> True | ErrOOM \<Rightarrow> True | _ \<Rightarrow> False)"

definition cmdHIncrByFloat :: "float_ops \<Rightarrow> store_cmd" where
  "cmdHIncrByFloat fo now args s =
     (if length args \<noteq> 4 then (s, writeErr (argErr ''HINCRBYFLOAT''))
      else case floatParse fo (strArg args 3) of
             None \<Rightarrow> (s, writeErr errNotInt)
           | Some delta \<Rightarrow>
               let key = strArg args 1; field = strArg args 2
               in case HIncrByFloat fo now s key field delta of
                    (s, Inl err) \<Rightarrow>
                      (s, if isWrongType err then writeErr errWrongType
                          else if saysNot err then writeErr errNotInt
                          else storeFail err)
                  | (s, Inr f) \<Rightarrow>
                      (let out = floatFormat fo f
                       in (s, replicating [ReplicateHash key [(field, out)]] (writeBulk (Some out)))))"

definition cmdHSetNX :: store_cmd where
  "cmdHSetNX now args s =
     (if length args \<noteq> 4 then (s, writeErr (argErr ''HSETNX''))
      else
        let key = strArg args 1; field = strArg args 2; val = strArg args 3
        in case HSetNX now s key field val of
             (s, Inl err) \<Rightarrow> (s, failWrongTypeOOM err)
           | (s, Inr n) \<Rightarrow>
               (s, replicating (if n = 1 then [ReplicateHash key [(field, val)]] else []) (writeInt n)))"

end
