(* ===== verification/Cmd_List.thy ===== *)
theory Cmd_List
  imports Cmd_Strings
begin

text \<open>The list commands (\<^verbatim>\<open>src/internal/commands/lists.go\<close>).\<close>

text \<open>\<open>LPUSH\<close> and \<open>RPUSH\<close>, and their variants for existing lists.\<close>

definition pushCmd ::
  "bytes \<Rightarrow> bool \<Rightarrow> (time \<Rightarrow> store \<Rightarrow> bytes \<Rightarrow> bytes list \<Rightarrow> store \<times> int res) \<Rightarrow> store_cmd" where
  "pushCmd name left push now args s =
     (if length args < 3 then (s, writeErr (argErr name))
      else
        let key = strArg args 1; vals = strsFrom 2 args
        in case push now s key vals of
             (s, Inl err) \<Rightarrow> (s, failWrongTypeOOM err)
           | (s, Inr n) \<Rightarrow> (s, replicating [ReplicateListPush key left vals] (writeInt n)))"

definition pushXCmd ::
  "bytes \<Rightarrow> bool \<Rightarrow> (time \<Rightarrow> store \<Rightarrow> bytes \<Rightarrow> bytes list \<Rightarrow> store \<times> int res) \<Rightarrow> store_cmd" where
  "pushXCmd name left push now args s =
     (if length args < 3 then (s, writeErr (argErr name))
      else
        let key = strArg args 1; vals = strsFrom 2 args
        in case push now s key vals of
             (s, Inl err) \<Rightarrow> (s, failWrongTypeOOM err)
           | (s, Inr n) \<Rightarrow>
               (s, replicating (if n > 0 then [ReplicateListPush key left vals] else []) (writeInt n)))"

definition cmdLPush :: store_cmd where
  "cmdLPush = pushCmd ''LPUSH'' True LPush"

definition cmdRPush :: store_cmd where
  "cmdRPush = pushCmd ''RPUSH'' False RPush"

definition cmdLPushX :: store_cmd where
  "cmdLPushX = pushXCmd ''LPUSHX'' True LPushX"

definition cmdRPushX :: store_cmd where
  "cmdRPushX = pushXCmd ''RPUSHX'' False RPushX"

text \<open>The count argument of the pops: one if it is missing.\<close>

definition popCount :: "arg list \<Rightarrow> int option" where
  "popCount args =
     (if length args = 3 then
        (case ParseInt (args ! 2) of Inl _ \<Rightarrow> None | Inr c \<Rightarrow> if c \<le> 0 then None else Some c)
      else Some 1)"

definition popReply :: "arg list \<Rightarrow> bytes list \<Rightarrow> effect" where
  "popReply args out =
     (if length args = 2 then (if out = [] then writeBulkNil else writeBulk (appendNil (hd out)))
      else writeArray (map bulkV out))"

definition popCmd ::
  "bytes \<Rightarrow> (time \<Rightarrow> store \<Rightarrow> bytes \<Rightarrow> int \<Rightarrow> store \<times> bytes list option res) \<Rightarrow>
   (bytes \<Rightarrow> nat \<Rightarrow> ReplicatePayload list) \<Rightarrow> store_cmd" where
  "popCmd name pop repl now args s =
     (if length args < 2 \<or> length args > 3 then (s, writeErr (argErr name))
      else case popCount args of
             None \<Rightarrow> (s, writeErr errNotInt)
           | Some cnt \<Rightarrow>
               let key = strArg args 1
               in case pop now s key cnt of
                    (s, Inl err) \<Rightarrow> (s, failWrongType err)
                  | (s, Inr out) \<Rightarrow>
                      (let out = (case out of None \<Rightarrow> [] | Some l \<Rightarrow> l)
                       in (s, replicating (if out \<noteq> [] then repl key (length out) else []) (popReply args out))))"

definition cmdLPop :: store_cmd where
  "cmdLPop = popCmd ''LPOP'' LPop ReplicateLPop"

definition cmdRPop :: store_cmd where
  "cmdRPop = popCmd ''RPOP'' RPop ReplicateRPop"

definition cmdLLen :: store_cmd where
  "cmdLLen now args s =
     (if length args \<noteq> 2 then (s, writeErr (argErr ''LLEN''))
      else case LLen now s (strArg args 1) of
             (s, Inl err) \<Rightarrow> (s, failWrongType err)
           | (s, Inr n) \<Rightarrow> (s, writeInt n))"

definition cmdLIndex :: store_cmd where
  "cmdLIndex now args s =
     (if length args \<noteq> 3 then (s, writeErr (argErr ''LINDEX''))
      else case ParseInt (args ! 2) of
             Inl _ \<Rightarrow> (s, writeErr errNotInt)
           | Inr idx \<Rightarrow>
               (case LIndex now s (strArg args 1) idx of
                  (s, Inl err) \<Rightarrow> (s, failWrongType err)
                | (s, Inr v) \<Rightarrow> (s, writeBulk v)))"

definition cmdLSet :: store_cmd where
  "cmdLSet now args s =
     (if length args \<noteq> 4 then (s, writeErr (argErr ''LSET''))
      else case ParseInt (args ! 2) of
             Inl _ \<Rightarrow> (s, writeErr errNotInt)
           | Inr idx \<Rightarrow>
               let key = strArg args 1; val = strArg args 3
               in case LSet now s key idx val of
                    (s, Some err) \<Rightarrow>
                      (s, if err = ErrKeyNotFound then writeErr errNoSuchKey
                          else if err = ErrListIndex then writeErr ''ERR index out of range''
                          else failWrongType err)
                  | (s, None) \<Rightarrow> (s, replicating [ReplicateLSet key idx val] writeOK))"

definition cmdLRem :: store_cmd where
  "cmdLRem now args s =
     (if length args \<noteq> 4 then (s, writeErr (argErr ''LREM''))
      else case ParseInt (args ! 2) of
             Inl _ \<Rightarrow> (s, writeErr errNotInt)
           | Inr cnt \<Rightarrow>
               let key = strArg args 1; elem = strArg args 3
               in case LRem now s key cnt elem of
                    (s, Inl err) \<Rightarrow> (s, failWrongType err)
                  | (s, Inr n) \<Rightarrow>
                      (s, replicating (if n > 0 then [ReplicateLRem key cnt elem] else []) (writeInt n)))"

definition cmdLRange :: store_cmd where
  "cmdLRange now args s =
     (if length args \<noteq> 4 then (s, writeErr (argErr ''LRANGE''))
      else case (ParseInt (args ! 2), ParseInt (args ! 3)) of
             (Inr start, Inr stop) \<Rightarrow>
               (case LRange now s (strArg args 1) start stop of
                  (s, Inl err) \<Rightarrow> (s, failWrongType err)
                | (s, Inr out) \<Rightarrow>
                    (s, writeArray (map bulkV (case out of None \<Rightarrow> [] | Some l \<Rightarrow> l))))
           | _ \<Rightarrow> (s, writeErr errNotInt))"

definition cmdLTrim :: store_cmd where
  "cmdLTrim now args s =
     (if length args \<noteq> 4 then (s, writeErr (argErr ''LTRIM''))
      else case (ParseInt (args ! 2), ParseInt (args ! 3)) of
             (Inr start, Inr stop) \<Rightarrow>
               (let key = strArg args 1
                in case LTrim now s key start stop of
                     (s, Some err) \<Rightarrow> (s, failWrongType err)
                   | (s, None) \<Rightarrow> (s, replicating [ReplicateLTrim key start stop] writeOK))
           | _ \<Rightarrow> (s, writeErr errNotInt))"

definition cmdLInsert :: store_cmd where
  "cmdLInsert now args s =
     (if length args \<noteq> 5 then (s, writeErr (argErr ''LINSERT''))
      else
        let side = upperName (strArg args 2); before = (side = ''BEFORE'');
            key = strArg args 1; pivot = strArg args 3; ins = strArg args 4
        in if side \<noteq> ''BEFORE'' \<and> side \<noteq> ''AFTER'' then (s, writeErr errSyntax)
           else case LInsert now s key before pivot ins of
                  (s, Inl err) \<Rightarrow> (s, failWrongType err)
                | (s, Inr n) \<Rightarrow>
                    (s, if n < 0 then writeInt (- 1)
                        else replicating [ReplicateLInsert key before pivot ins] (writeInt n)))"

end
