(* ===== verification/Cmd_Set.thy ===== *)
theory Cmd_Set
  imports Cmd_Strings
begin

text \<open>
  The set commands (\<^verbatim>\<open>src/internal/commands/sets.go\<close>).  A Go map used as a set is a list without
  repetitions in the order of insertion; the results are sorted before they are used.
\<close>

definition sortMemberBytes :: "bytes list \<Rightarrow> bytes list" where
  "sortMemberBytes members = sort members"

definition cmdSAdd :: store_cmd where
  "cmdSAdd now args s =
     (if length args < 3 then (s, writeErr (argErr ''SADD''))
      else
        let key = strArg args 1; members = strsFrom 2 args
        in case SAdd now s key members of
             (s, Inl err) \<Rightarrow> (s, failWrongTypeOOM err)
           | (s, Inr n) \<Rightarrow>
               (s, replicating (if n > 0 then [ReplicateSAdd key members] else []) (writeInt n)))"

definition cmdSRem :: store_cmd where
  "cmdSRem now args s =
     (if length args < 3 then (s, writeErr (argErr ''SREM''))
      else
        let key = strArg args 1; members = strsFrom 2 args
        in case SRem now s key members of
             (s, Inl err) \<Rightarrow> (s, failWrongType err)
           | (s, Inr n) \<Rightarrow>
               (s, replicating (if n > 0 then [ReplicateSRem key members] else []) (writeInt n)))"

definition writeMembers :: "bytes list \<Rightarrow> effect" where
  "writeMembers members = writeArray (map bulkV members)"

definition cmdSMembers :: store_cmd where
  "cmdSMembers now args s =
     (if length args \<noteq> 2 then (s, writeErr (argErr ''SMEMBERS''))
      else case SMembers now s (strArg args 1) of
             (s, Inl err) \<Rightarrow> (s, failWrongType err)
           | (s, Inr members) \<Rightarrow>
               (s, writeMembers (sortMemberBytes (case members of None \<Rightarrow> [] | Some ms \<Rightarrow> ms))))"

definition cmdSIsMember :: store_cmd where
  "cmdSIsMember now args s =
     (if length args \<noteq> 3 then (s, writeErr (argErr ''SISMEMBER''))
      else case SIsMember now s (strArg args 1) (strArg args 2) of
             (s, Inl err) \<Rightarrow> (s, failWrongType err)
           | (s, Inr ok) \<Rightarrow> (s, writeInt (if ok then 1 else 0)))"

definition cmdSCard :: store_cmd where
  "cmdSCard now args s =
     (if length args \<noteq> 2 then (s, writeErr (argErr ''SCARD''))
      else case SCard now s (strArg args 1) of
             (s, Inl err) \<Rightarrow> (s, failWrongType err)
           | (s, Inr n) \<Rightarrow> (s, writeInt n))"

fun unionLoop :: "time \<Rightarrow> store \<Rightarrow> bytes list \<Rightarrow> bytes list \<Rightarrow> store \<times> bytes list res" where
  "unionLoop now s acc [] = (s, Inr acc)"
| "unionLoop now s acc (k # ks) =
     (case SMembers now s k of
        (s, Inl err) \<Rightarrow> (s, Inl err)
      | (s, Inr None) \<Rightarrow> unionLoop now s acc ks
      | (s, Inr (Some ms)) \<Rightarrow> unionLoop now s (fold List.insert ms acc) ks)"

definition unionMembers :: "time \<Rightarrow> store \<Rightarrow> bytes list \<Rightarrow> store \<times> bytes list res" where
  "unionMembers now s keys =
     (case unionLoop now s [] keys of
        (s, Inl err) \<Rightarrow> (s, Inl err)
      | (s, Inr acc) \<Rightarrow> (s, Inr (sortMemberBytes acc)))"

text \<open>The loop stops at the first set that is missing or leaves nothing; the sets after it are not
  looked at.\<close>

fun interLoop :: "time \<Rightarrow> store \<Rightarrow> bytes list \<Rightarrow> bytes list \<Rightarrow> store \<times> bytes list res" where
  "interLoop now s cand [] = (s, Inr cand)"
| "interLoop now s cand (k # ks) =
     (case SMembers now s k of
        (s, Inl err) \<Rightarrow> (s, Inl err)
      | (s, Inr None) \<Rightarrow> (s, Inr [])
      | (s, Inr (Some ms)) \<Rightarrow>
          (let nxt = fold (\<lambda>m acc. if m \<in> set cand then List.insert m acc else acc) ms []
           in if nxt = [] then (s, Inr []) else interLoop now s nxt ks))"

definition interMembers :: "time \<Rightarrow> store \<Rightarrow> bytes list \<Rightarrow> store \<times> bytes list res" where
  "interMembers now s keys =
     (case keys of
        [] \<Rightarrow> (s, Inr [])
      | k # ks \<Rightarrow>
          (case SMembers now s k of
             (s, Inl err) \<Rightarrow> (s, Inl err)
           | (s, Inr None) \<Rightarrow> (s, Inr [])
           | (s, Inr (Some ms)) \<Rightarrow>
               (case interLoop now s (fold List.insert ms []) ks of
                  (s, Inl err) \<Rightarrow> (s, Inl err)
                | (s, Inr cand) \<Rightarrow> (s, Inr (sortMemberBytes cand)))))"

fun diffLoop :: "time \<Rightarrow> store \<Rightarrow> bytes list \<Rightarrow> bytes list \<Rightarrow> store \<times> bytes list res" where
  "diffLoop now s acc [] = (s, Inr acc)"
| "diffLoop now s acc (k # ks) =
     (case SMembers now s k of
        (s, Inl err) \<Rightarrow> (s, Inl err)
      | (s, Inr None) \<Rightarrow> diffLoop now s acc ks
      | (s, Inr (Some ms)) \<Rightarrow> diffLoop now s (fold removeAll ms acc) ks)"

definition diffMembers :: "time \<Rightarrow> store \<Rightarrow> bytes list \<Rightarrow> store \<times> bytes list res" where
  "diffMembers now s keys =
     (case keys of
        [] \<Rightarrow> (s, Inr [])
      | k # ks \<Rightarrow>
          (case SMembers now s k of
             (s, Inl err) \<Rightarrow> (s, Inl err)
           | (s, Inr None) \<Rightarrow> (s, Inr [])
           | (s, Inr (Some ms)) \<Rightarrow>
               (case diffLoop now s (fold List.insert ms []) ks of
                  (s, Inl err) \<Rightarrow> (s, Inl err)
                | (s, Inr acc) \<Rightarrow> (s, Inr (sortMemberBytes acc)))))"

text \<open>A set command that shows the combination of its keys, and one that stores it.\<close>

definition combineCmd ::
  "bytes \<Rightarrow> (time \<Rightarrow> store \<Rightarrow> bytes list \<Rightarrow> store \<times> bytes list res) \<Rightarrow> store_cmd" where
  "combineCmd name comb now args s =
     (if length args < 2 then (s, writeErr (argErr name))
      else case comb now s (strsFrom 1 args) of
             (s, Inl err) \<Rightarrow> (s, failWrongType err)
           | (s, Inr members) \<Rightarrow> (s, writeMembers members))"

definition storeCmd ::
  "bytes \<Rightarrow> (time \<Rightarrow> store \<Rightarrow> bytes list \<Rightarrow> store \<times> bytes list res) \<Rightarrow> store_cmd" where
  "storeCmd name comb now args s =
     (if length args < 3 then (s, writeErr (argErr name))
      else
        let dest = strArg args 1
        in case comb now s (strsFrom 2 args) of
             (s, Inl err) \<Rightarrow> (s, failWrongType err)
           | (s, Inr members) \<Rightarrow>
               (case ReplaceSet now s dest members of
                  (s, Some err) \<Rightarrow> (s, failOOM err)
                | (s, None) \<Rightarrow>
                    (s, replicating [ReplicateReplaceSet dest members] (writeInt (int (length members))))))"

definition cmdSUnion :: store_cmd where
  "cmdSUnion = combineCmd ''SUNION'' unionMembers"

definition cmdSUnionStore :: store_cmd where
  "cmdSUnionStore = storeCmd ''SUNIONSTORE'' unionMembers"

definition cmdSInter :: store_cmd where
  "cmdSInter = combineCmd ''SINTER'' interMembers"

definition cmdSInterStore :: store_cmd where
  "cmdSInterStore = storeCmd ''SINTERSTORE'' interMembers"

definition cmdSDiff :: store_cmd where
  "cmdSDiff = combineCmd ''SDIFF'' diffMembers"

definition cmdSDiffStore :: store_cmd where
  "cmdSDiffStore = storeCmd ''SDIFFSTORE'' diffMembers"

end
