(* ===== verification/Cmd_Registry.thy ===== *)
theory Cmd_Registry
  imports Cmd_Session Cmd_Hash Cmd_List Cmd_Set
begin

text \<open>
  The table of commands and the dispatch of a request (\<^verbatim>\<open>src/internal/commands/registry.go\<close> and the
  \<open>register\<close> functions of the command files).

  \<open>EXEC\<close> dispatches the commands it has queued, which is a recursion through the registry.  The fuel
  of \<open>DispatchN\<close> counts its depth; \<open>Dispatch\<close> supplies two, because a command that is dispatched by
  \<open>EXEC\<close> finds no queue.
\<close>

type_synonym registry = "(bytes, CommandMeta \<times> handler) gomap"

definition reg :: "bytes \<Rightarrow> int \<Rightarrow> int \<Rightarrow> handler \<Rightarrow> CommandMeta \<times> handler" where
  "reg name arity flags h =
     (\<lparr>metaName = name, Arity = arity, Flags = flags, FirstKey = 0, LastKey = 0, Step = 0\<rparr>, h)"

definition registerStringCommands :: "(CommandMeta \<times> handler) list" where
  "registerStringCommands =
     [reg ''GET'' 2 FlagRead (onStore cmdGet),
      reg ''SET'' 0 FlagWrite (onStore cmdSet),
      reg ''SETNX'' 3 FlagWrite (onStore cmdSetNX),
      reg ''SETEX'' 4 FlagWrite (onStore cmdSetEX),
      reg ''PSETEX'' 4 FlagWrite (onStore cmdPSetEX),
      reg ''GETSET'' 3 FlagWrite (onStore cmdGetSet),
      reg ''GETDEL'' 2 FlagWrite (onStore cmdGetDel),
      reg ''GETEX'' 0 (FlagRead + FlagWrite) (onStore cmdGetEx),
      reg ''MGET'' (- 2) FlagRead (onStore cmdMGet),
      reg ''MSET'' 0 FlagWrite (onStore cmdMSet),
      reg ''MSETNX'' 0 FlagWrite (onStore cmdMSetNX),
      reg ''DEL'' (- 2) FlagWrite (onStore cmdDel),
      reg ''INCR'' 2 FlagWrite (onStore cmdIncr),
      reg ''DECR'' 2 FlagWrite (onStore cmdDecr),
      reg ''INCRBY'' 3 FlagWrite (onStore cmdIncrBy),
      reg ''DECRBY'' 3 FlagWrite (onStore cmdDecrBy),
      reg ''INCRBYFLOAT'' 3 FlagWrite (\<lambda>ctx. onStore (cmdIncrByFloat (ctxFloat ctx)) ctx),
      reg ''APPEND'' 3 FlagWrite (onStore cmdAppend),
      reg ''STRLEN'' 2 FlagRead (onStore cmdStrLen),
      reg ''GETRANGE'' 4 FlagRead (onStore cmdGetRange),
      reg ''SETRANGE'' 4 FlagWrite (onStore cmdSetRange)]"

definition registerHashCommands :: "(CommandMeta \<times> handler) list" where
  "registerHashCommands =
     [reg ''HSET'' 0 FlagWrite (onStore cmdHSet),
      reg ''HMSET'' 0 FlagWrite (onStore cmdHMSet),
      reg ''HGET'' 3 FlagRead (onStore cmdHGet),
      reg ''HMGET'' (- 3) FlagRead (onStore cmdHMGet),
      reg ''HGETALL'' 2 FlagRead (onStore cmdHGetAll),
      reg ''HDEL'' (- 3) FlagWrite (onStore cmdHDel),
      reg ''HEXISTS'' 3 FlagRead (onStore cmdHExists),
      reg ''HLEN'' 2 FlagRead (onStore cmdHLen),
      reg ''HKEYS'' 2 FlagRead (onStore cmdHKeys),
      reg ''HVALS'' 2 FlagRead (onStore cmdHVals),
      reg ''HINCRBY'' 4 FlagWrite (onStore cmdHIncrBy),
      reg ''HINCRBYFLOAT'' 4 FlagWrite (\<lambda>ctx. onStore (cmdHIncrByFloat (ctxFloat ctx)) ctx),
      reg ''HSETNX'' 4 FlagWrite (onStore cmdHSetNX)]"

definition registerListCommands :: "(CommandMeta \<times> handler) list" where
  "registerListCommands =
     [reg ''LPUSH'' (- 3) FlagWrite (onStore cmdLPush),
      reg ''RPUSH'' (- 3) FlagWrite (onStore cmdRPush),
      reg ''LPUSHX'' (- 3) FlagWrite (onStore cmdLPushX),
      reg ''RPUSHX'' (- 3) FlagWrite (onStore cmdRPushX),
      reg ''LPOP'' 0 FlagWrite (onStore cmdLPop),
      reg ''RPOP'' 0 FlagWrite (onStore cmdRPop),
      reg ''LLEN'' 2 FlagRead (onStore cmdLLen),
      reg ''LINDEX'' 3 FlagRead (onStore cmdLIndex),
      reg ''LSET'' 4 FlagWrite (onStore cmdLSet),
      reg ''LREM'' 4 FlagWrite (onStore cmdLRem),
      reg ''LRANGE'' 4 FlagRead (onStore cmdLRange),
      reg ''LTRIM'' 4 FlagWrite (onStore cmdLTrim),
      reg ''LINSERT'' 5 FlagWrite (onStore cmdLInsert)]"

definition registerSetCommands :: "(CommandMeta \<times> handler) list" where
  "registerSetCommands =
     [reg ''SADD'' (- 3) FlagWrite (onStore cmdSAdd),
      reg ''SREM'' (- 3) FlagWrite (onStore cmdSRem),
      reg ''SMEMBERS'' 2 FlagRead (onStore cmdSMembers),
      reg ''SISMEMBER'' 3 FlagRead (onStore cmdSIsMember),
      reg ''SCARD'' 2 FlagRead (onStore cmdSCard),
      reg ''SUNION'' (- 2) FlagRead (onStore cmdSUnion),
      reg ''SUNIONSTORE'' (- 3) FlagWrite (onStore cmdSUnionStore),
      reg ''SINTER'' (- 2) FlagRead (onStore cmdSInter),
      reg ''SINTERSTORE'' (- 3) FlagWrite (onStore cmdSInterStore),
      reg ''SDIFF'' (- 2) FlagRead (onStore cmdSDiff),
      reg ''SDIFFSTORE'' (- 3) FlagWrite (onStore cmdSDiffStore)]"

definition registerGenericCommands :: "(CommandMeta \<times> handler) list" where
  "registerGenericCommands =
     [reg ''EXISTS'' (- 2) FlagRead (onStore cmdExists),
      reg ''TYPE'' 2 FlagRead (onStore cmdType),
      reg ''TTL'' 2 FlagRead (onStore cmdTTL),
      reg ''PTTL'' 2 FlagRead (onStore cmdPTTL),
      reg ''EXPIRE'' 3 FlagWrite (onStore cmdExpire),
      reg ''EXPIREAT'' 3 FlagWrite (onStore cmdExpireAt),
      reg ''PEXPIRE'' 3 FlagWrite (onStore cmdPExpire),
      reg ''PEXPIREAT'' 3 FlagWrite (onStore cmdPExpireAt),
      reg ''PERSIST'' 2 FlagWrite (onStore cmdPersist),
      reg ''KEYS'' 2 FlagRead (onStore cmdKeys),
      reg ''SCAN'' 0 FlagRead (onStore cmdScan),
      reg ''RENAME'' 3 FlagWrite (onStore cmdRename),
      reg ''RENAMENX'' 3 FlagWrite (onStore cmdRenameNX),
      reg ''RANDOMKEY'' 1 FlagRead (onStore cmdRandomKey),
      reg ''SELECT'' 2 FlagWrite cmdSelect,
      reg ''DBSIZE'' 1 FlagRead (onStore cmdDBSize)]"

definition registerServerCommands :: "(CommandMeta \<times> handler) list" where
  "registerServerCommands =
     [reg ''PING'' 0 FlagRead cmdPing,
      reg ''ECHO'' 2 FlagRead cmdEcho,
      reg ''AUTH'' 0 (FlagWrite + FlagAdmin) cmdAuth,
      reg ''INFO'' 0 FlagRead cmdInfo,
      reg ''FLUSHDB'' 1 (FlagWrite + FlagDangerous) cmdFlushDB,
      reg ''FLUSHALL'' 1 (FlagWrite + FlagDangerous) cmdFlushAll,
      reg ''TIME'' 1 FlagRead cmdTime,
      reg ''CLIENT'' 0 (FlagRead + FlagWrite) cmdClient,
      reg ''COMMAND'' (- 1) FlagRead cmdCommand]"

definition registerPubSubCommands :: "(CommandMeta \<times> handler) list" where
  "registerPubSubCommands =
     [reg ''SUBSCRIBE'' (- 2) FlagRead cmdSubscribe,
      reg ''PSUBSCRIBE'' (- 2) FlagRead cmdPSubscribe,
      reg ''UNSUBSCRIBE'' 0 FlagRead cmdUnsubscribe,
      reg ''PUNSUBSCRIBE'' 0 FlagRead cmdPUnsubscribe,
      reg ''PUBLISH'' 3 FlagWrite cmdPublish]"

definition registerTransactionCommands :: "(CommandMeta \<times> handler) list" where
  "registerTransactionCommands =
     [reg ''MULTI'' 1 FlagWrite cmdMulti,
      reg ''EXEC'' 1 (FlagRead + FlagWrite) cmdExec,
      reg ''DISCARD'' 1 FlagWrite cmdDiscard,
      reg ''WATCH'' (- 2) FlagWrite cmdWatch,
      reg ''UNWATCH'' 1 FlagWrite cmdUnwatch]"

definition Register :: "CommandMeta \<times> handler \<Rightarrow> registry \<Rightarrow> registry" where
  "Register mh r = mapPut (lowerName (metaName (fst mh))) mh r"

definition builtins :: "(CommandMeta \<times> handler) list" where
  "builtins = registerStringCommands @ registerHashCommands @ registerListCommands @ registerSetCommands @
     registerGenericCommands @ registerServerCommands @ registerPubSubCommands @ registerTransactionCommands"

definition NewRegistry :: registry where
  "NewRegistry = fold Register builtins []"

definition Lookup :: "registry \<Rightarrow> bytes \<Rightarrow> (CommandMeta \<times> handler) option" where
  "Lookup r name = mapGet r (lowerName name)"

definition Commands :: "registry \<Rightarrow> CommandMeta list" where
  "Commands r = sort_key (\<lambda>m. lowerName (metaName m)) (map (fst \<circ> snd) r)"

definition unknownCommand :: "CommandContext \<Rightarrow> bytes \<Rightarrow> bytes" where
  "unknownCommand ctx name =
     ''ERR unknown command `'' @ ctxLower ctx name @ ''`, with args beginning with: ''"

primrec DispatchN :: "nat \<Rightarrow> CommandContext \<Rightarrow> rvalue \<Rightarrow> world \<Rightarrow> world \<times> effect" where
  "DispatchN 0 ctx v w = (w, ends OutOfFuel)"
| "DispatchN (Suc n) ctx v w =
     (case ValueToArgs v of
        None \<Rightarrow> (w, ends BadRequest)
      | Some args \<Rightarrow>
          if args = [] then (w, ends BadRequest)
          else
            let name = bytesToStr (hd args)
            in case Lookup NewRegistry name of
                 None \<Rightarrow> (w, writeErr (unknownCommand ctx name))
               | Some (meta, h) \<Rightarrow>
                   (case (if Arity meta \<noteq> 0 then CheckArity (Arity meta) args else None) of
                      Some msg \<Rightarrow> (w, writeErr msg)
                    | None \<Rightarrow> h (ctx\<lparr>ctxCommands := Commands NewRegistry, ctxDispatch := DispatchN n ctx\<rparr>) args w))"

definition Dispatch :: "CommandContext \<Rightarrow> rvalue \<Rightarrow> world \<Rightarrow> world \<times> effect" where
  "Dispatch = DispatchN 2"

end
