(* ===== verification/Server_Conn.thy ===== *)
theory Server_Conn
  imports Cmd_Registry
begin

text \<open>
  The loop of a client connection (\<^verbatim>\<open>src/internal/server/conn.go\<close>): authentication, queueing inside a
  transaction, the commands allowed while subscribed, and when the connection ends.  Deadlines, the
  closing handshake and the statistics counters are not part of it.
\<close>

definition errWatchInsideMulti :: bytes where
  "errWatchInsideMulti = ''ERR WATCH inside MULTI is not allowed''"

definition subscribeAllowed :: "bytes list" where
  "subscribeAllowed = [''SUBSCRIBE'', ''PSUBSCRIBE'', ''UNSUBSCRIBE'', ''PUNSUBSCRIBE'', ''PING'', ''QUIT'']"

definition maxMultiQueueLen :: nat where
  "maxMultiQueueLen = 10000"

definition needAuth :: "Config \<Rightarrow> Session \<Rightarrow> bool" where
  "needAuth cfg s \<longleftrightarrow> trimSpace (AuthPassword cfg) \<noteq> [] \<and> \<not> Authenticated s"

definition writeQueued :: effect where
  "writeQueued = writeSimple ''QUEUED''"

definition serverDispatch :: "CommandContext \<Rightarrow> rvalue \<Rightarrow> world \<Rightarrow> world \<times> effect" where
  "serverDispatch ctx v w =
     (case ValueToArgs v of
        None \<Rightarrow> (w, ends BadRequest)
      | Some args \<Rightarrow>
          if args = [] then (w, ends BadRequest)
          else
            let cmd = upperName (bytesToStr (hd args)); s = wSession w
            in if cmd = ''QUIT'' then (w, writeOK\<lparr>exit := Quit\<rparr>)
               else if needAuth (ctxConfig ctx) s \<and> cmd \<noteq> ''AUTH'' then (w, writeErr errNoAuth)
               else if InMulti s then
                 (if cmd = ''WATCH'' then (w, writeErr errWatchInsideMulti)
                  else if cmd \<in> {''UNWATCH'', ''MULTI'', ''EXEC'', ''DISCARD''} then Dispatch ctx v w
                  else if length (MultiQueue s) \<ge> maxMultiQueueLen then
                    (w, writeErr ''ERR MULTI queue length exceeded'')
                  else (onSession (MultiQueue_update (\<lambda>q. q @ [v])) w, writeQueued))
               else if InSubscribeMode s \<and> cmd \<notin> set subscribeAllowed then
                 (w, writeErr ''ERR only (P)SUBSCRIBE / (P)UNSUBSCRIBE / PING / QUIT are allowed in this context'')
               else Dispatch ctx v w)"

text \<open>The flags of the server a connection looks at between commands.\<close>

record server_flags =
  clientReady :: bool
  shuttingDown :: bool

text \<open>One round of the loop for a value that has been read: the new world, what was written and done, and
  whether the connection stays open.\<close>

definition serveValue :: "server_flags \<Rightarrow> CommandContext \<Rightarrow> rvalue \<Rightarrow> world \<Rightarrow> world \<times> effect \<times> bool" where
  "serveValue fl ctx v w =
     (if \<not> clientReady fl then
        (w, writeErr ''LOADING Super-Cache is loading the dataset in memory'', True)
      else
        case serverDispatch ctx v w of (w, e) \<Rightarrow>
          if exit e \<noteq> Done then (w, e, False)
          else
            let w = onSession (\<lambda>s. s\<lparr>LastCmdAt := ctxNow ctx, CmdCount := CmdCount s + 1\<rparr>) w
            in if shuttingDown fl
               then (w, e\<lparr>replies := replies e @ [errorV ''LOADING server is shutting down'']\<rparr>, False)
               else (w, e, True))"

text \<open>The loop over the bytes a client sends; \<open>env n\<close> are the flags and the context of the \<open>n\<close>th round.  A round
  consumes at least one byte, so as many rounds as there are bytes are enough.  When the connection
  ends, the session's subscriptions go; a command that never returns keeps them.\<close>

fun serveLoop ::
  "nat \<Rightarrow> (nat \<Rightarrow> server_flags \<times> CommandContext) \<Rightarrow> nat \<Rightarrow> bytes \<Rightarrow> world \<Rightarrow> effect list \<Rightarrow> world \<times> effect list" where
  "serveLoop 0 env n inp w es = (w, es)"
| "serveLoop (Suc f) env n inp w es =
     (case Parse inp of
        Inl _ \<Rightarrow> (w, es)
      | Inr (v, rest) \<Rightarrow>
          (case env n of (fl, ctx) \<Rightarrow>
             (case serveValue fl ctx v w of
                (w, e, True) \<Rightarrow> serveLoop f env (Suc n) rest w (es @ [e])
              | (w, e, False) \<Rightarrow> (w, es @ [e]))))"

definition serveConn :: "(nat \<Rightarrow> server_flags \<times> CommandContext) \<Rightarrow> bytes \<Rightarrow> world \<Rightarrow> world \<times> effect list" where
  "serveConn env inp w =
     (case serveLoop (Suc (length inp)) env 0 inp w [] of
        (w, es) \<Rightarrow>
          if es \<noteq> [] \<and> exit (last es) = Deadlocked then (w, es)
          else (w\<lparr>wPubSub := RemoveSessionFromAll (sessID (wSession w)) (wPubSub w)\<rparr>, es))"

end
