(* ===== verification/Cmd_Steps.thy ===== *)
theory Cmd_Steps
  imports Server_Conn
begin

text \<open>
  Every command is a sequence of calls of the store: the stores it can leave behind are those the
  store itself can reach.
\<close>

definition reached :: "store \<Rightarrow> store \<Rightarrow> bool" where
  "reached s s' \<longleftrightarrow> (\<exists>evs. s' = runEvents evs s)"

lemma reached_refl [intro!]: "reached s s"
  unfolding reached_def by (rule exI [of _ "[]"]) (simp add: runEvents_def)

lemma reached_trans [trans]: "reached s s' \<Longrightarrow> reached s' s'' \<Longrightarrow> reached s s''"
  unfolding reached_def runEvents_def by (metis fold_append o_apply)

lemma reached_step: "reached s0 s \<Longrightarrow> reached s0 (storeStep ev s)"
  by (rule reached_trans) (auto simp: reached_def runEvents_def intro: exI [of _ "[ev]"])

lemma reached_call: "reached s0 s \<Longrightarrow> reached s0 (call now c s)"
  using reached_step [of s0 s "Call now c"] by simp

lemma reached_inv: "reached s s' \<Longrightarrow> storeInv s \<Longrightarrow> storeInv s'"
  by (auto simp: reached_def runEvents_inv)

lemma reach_strings:
  assumes "reached s0 s"
  shows "Get now s k = (s', r1) \<Longrightarrow> reached s0 s'"
    "Set now s k v t = (s', r2) \<Longrightarrow> reached s0 s'"
    "SetNX now s k v t = (s', r3) \<Longrightarrow> reached s0 s'"
    "SetXX now s k v t = (s', r3) \<Longrightarrow> reached s0 s'"
    "GetSet now s k v t = (s', r4) \<Longrightarrow> reached s0 s'"
    "Append now s k v = (s', r5) \<Longrightarrow> reached s0 s'"
    "IncrBy now s k d = (s', r5) \<Longrightarrow> in_int64 d \<Longrightarrow> reached s0 s'"
    "DecrBy now s k d = (s', r5) \<Longrightarrow> in_int64 d \<Longrightarrow> reached s0 s'"
    "MGet now s ks = (s', r6) \<Longrightarrow> reached s0 s'"
    "MSet now s ps = (s', r2) \<Longrightarrow> mapOk ps \<Longrightarrow> reached s0 s'"
    "MSetNX now s ps = (s', r3) \<Longrightarrow> mapOk ps \<Longrightarrow> reached s0 s'"
  using assms reached_call [OF assms, of now "StringCall (CGet k)"]
    reached_call [OF assms, of now "StringCall (CSet k v t)"]
    reached_call [OF assms, of now "StringCall (CSetNX k v t)"]
    reached_call [OF assms, of now "StringCall (CSetXX k v t)"]
    reached_call [OF assms, of now "StringCall (CGetSet k v t)"]
    reached_call [OF assms, of now "StringCall (CAppend k v)"]
    reached_call [OF assms, of now "StringCall (CIncrBy k d)"]
    reached_call [OF assms, of now "StringCall (CDecrBy k d)"]
    reached_call [OF assms, of now "StringCall (CMGet ks)"]
    reached_call [OF assms, of now "StringCall (CMSet ps)"]
    reached_call [OF assms, of now "StringCall (CMSetNX ps)"]
  by (simp_all add: wrap64_id mapFrom_def fold_mapPut_Nil)

lemma reach_keys:
  assumes "reached s0 s"
  shows "Del now s ks = (s', r1) \<Longrightarrow> reached s0 s'"
    "Exists now s ks = (s', r1) \<Longrightarrow> reached s0 s'"
    "Type now s k = (s', r2) \<Longrightarrow> reached s0 s'"
    "Rename now s a b = (s', r3) \<Longrightarrow> reached s0 s'"
    "RenameNX now s a b = (s', r4) \<Longrightarrow> reached s0 s'"
    "Expire now s k n = (s', r5) \<Longrightarrow> reached s0 s'"
    "ExpireAt now s k t = (s', r4) \<Longrightarrow> reached s0 s'"
    "TTL now s k = (s', n') \<Longrightarrow> reached s0 s'"
    "TTLMs now s k = (s', n') \<Longrightarrow> reached s0 s'"
    "Persist now s k = (s', r4) \<Longrightarrow> reached s0 s'"
    "Scan now s c p n w = (s', r6) \<Longrightarrow> reached s0 s'"
    "reached s0 (FlushDB s)" "reached s0 (fst (ExpireAt now s k t))" "reached s0 (fst (Persist now s k))"
    "randIntN s m = (i, s') \<Longrightarrow> reached s0 s'"
  using reached_call [OF assms, of now "KeyCall (CDel ks)"]
    reached_call [OF assms, of now "KeyCall (CExists ks)"]
    reached_call [OF assms, of now "KeyCall (CType k)"]
    reached_call [OF assms, of now "KeyCall (CRename a b)"]
    reached_call [OF assms, of now "KeyCall (CRenameNX a b)"]
    reached_call [OF assms, of now "KeyCall (CExpire k n)"]
    reached_call [OF assms, of now "KeyCall (CExpireAt k t)"]
    reached_call [OF assms, of now "KeyCall (CTTL k)"]
    reached_call [OF assms, of now "KeyCall (CTTLMs k)"]
    reached_call [OF assms, of now "KeyCall (CPersist k)"]
    reached_call [OF assms, of now "KeyCall (CScan c p n w)"]
    reached_step [OF assms, of Flush] reached_step [OF assms, of "Draw m"]
  by simp_all

lemma reach_hash:
  assumes "reached s0 s"
  shows "HSet now s k ps = (s', r1) \<Longrightarrow> mapOk ps \<Longrightarrow> reached s0 s'"
    "HGet now s k f = (s', r2) \<Longrightarrow> reached s0 s'"
    "HGetAll now s k = (s', r3) \<Longrightarrow> reached s0 s'"
    "HDel now s k fs = (s', r1) \<Longrightarrow> reached s0 s'"
    "HExists now s k f = (s', r4) \<Longrightarrow> reached s0 s'"
    "HLen now s k = (s', r1) \<Longrightarrow> reached s0 s'"
    "HSetNX now s k f v = (s', r1) \<Longrightarrow> reached s0 s'"
    "HIncrBy now s k f d = (s', r1) \<Longrightarrow> in_int64 d \<Longrightarrow> reached s0 s'"
    "HIncrByFloat fo now s k f x = (s', r5) \<Longrightarrow> reached s0 s'"
  using reached_call [OF assms, of now "HashCall (CHSet k ps)"]
    reached_call [OF assms, of now "HashCall (CHGet k f)"]
    reached_call [OF assms, of now "HashCall (CHGetAll k)"]
    reached_call [OF assms, of now "HashCall (CHDel k fs)"]
    reached_call [OF assms, of now "HashCall (CHExists k f)"]
    reached_call [OF assms, of now "HashCall (CHLen k)"]
    reached_call [OF assms, of now "HashCall (CHSetNX k f v)"]
    reached_call [OF assms, of now "HashCall (CHIncrBy k f d)"]
    reached_call [OF assms, of now "HashCall (CHIncrByFloat fo k f x)"]
  by (simp_all add: wrap64_id mapFrom_def fold_mapPut_Nil)

lemma reach_list:
  assumes "reached s0 s"
  shows "LPush now s k vs = (s', r1) \<Longrightarrow> reached s0 s'"
    "RPush now s k vs = (s', r1) \<Longrightarrow> reached s0 s'"
    "LPushX now s k vs = (s', r1) \<Longrightarrow> reached s0 s'"
    "RPushX now s k vs = (s', r1) \<Longrightarrow> reached s0 s'"
    "LPop now s k n = (s', r2) \<Longrightarrow> reached s0 s'"
    "RPop now s k n = (s', r2) \<Longrightarrow> reached s0 s'"
    "LLen now s k = (s', r1) \<Longrightarrow> reached s0 s'"
    "LRange now s k a b = (s', r2) \<Longrightarrow> reached s0 s'"
    "LIndex now s k i = (s', r3) \<Longrightarrow> reached s0 s'"
    "LSet now s k i v = (s', r4) \<Longrightarrow> reached s0 s'"
    "LRem now s k n v = (s', r1) \<Longrightarrow> reached s0 s'"
    "LTrim now s k a b = (s', r4) \<Longrightarrow> reached s0 s'"
    "LInsert now s k c p v = (s', r1) \<Longrightarrow> reached s0 s'"
  using reached_call [OF assms, of now "ListCall (CLPush k vs)"]
    reached_call [OF assms, of now "ListCall (CRPush k vs)"]
    reached_call [OF assms, of now "ListCall (CLPushX k vs)"]
    reached_call [OF assms, of now "ListCall (CRPushX k vs)"]
    reached_call [OF assms, of now "ListCall (CLPop k n)"]
    reached_call [OF assms, of now "ListCall (CRPop k n)"]
    reached_call [OF assms, of now "ListCall (CLLen k)"]
    reached_call [OF assms, of now "ListCall (CLRange k a b)"]
    reached_call [OF assms, of now "ListCall (CLIndex k i)"]
    reached_call [OF assms, of now "ListCall (CLSet k i v)"]
    reached_call [OF assms, of now "ListCall (CLRem k n v)"]
    reached_call [OF assms, of now "ListCall (CLTrim k a b)"]
    reached_call [OF assms, of now "ListCall (CLInsert k c p v)"]
  by simp_all

lemma reach_set:
  assumes "reached s0 s"
  shows "SAdd now s k ms = (s', r1) \<Longrightarrow> reached s0 s'"
    "SRem now s k ms = (s', r1) \<Longrightarrow> reached s0 s'"
    "SMembers now s k = (s', r2) \<Longrightarrow> reached s0 s'"
    "SIsMember now s k m = (s', r3) \<Longrightarrow> reached s0 s'"
    "SCard now s k = (s', r1) \<Longrightarrow> reached s0 s'"
    "ReplaceSet now s k ms = (s', r4) \<Longrightarrow> reached s0 s'"
  using reached_call [OF assms, of now "SetCall (CSAdd k ms)"]
    reached_call [OF assms, of now "SetCall (CSRem k ms)"]
    reached_call [OF assms, of now "SetCall (CSMembers k)"]
    reached_call [OF assms, of now "SetCall (CSIsMember k m)"]
    reached_call [OF assms, of now "SetCall (CSCard k)"]
    reached_call [OF assms, of now "SetCall (CReplaceSet k ms)"]
  by simp_all

text \<open>As introduction rules the call comes first: it names the store before it.\<close>

lemmas reach = reach_strings [rotated] reach_keys [rotated] reach_hash [rotated] reach_list [rotated] reach_set [rotated]


section \<open>Replies\<close>

text \<open>A command on the store answers with exactly one value, or it ends with an error or a panic and writes
  nothing; it pushes nothing to other sessions.\<close>

definition oneReply :: "effect \<Rightarrow> bool" where
  "oneReply e \<longleftrightarrow> pushed e = [] \<and>
     (exit e = Done \<and> length (replies e) = 1 \<or>
      replies e = [] \<and> (exit e = Panicked \<or> (\<exists>err. exit e = Failed err)))"

lemma oneReply_simps [simp]:
  "oneReply (writeErr m)" "oneReply (writeSimple m)" "oneReply writeOK" "oneReply writeBulkNil" "oneReply (writeBulk b)"
  "oneReply (writeInt n)" "oneReply (writeArray vs)" "oneReply writeArrayEmpty"
  "oneReply (replicating ps e) = oneReply e" "oneReply (keyspaceHit n e) = oneReply e" "oneReply (keyspaceMiss n e) = oneReply e"
  "oneReply (storeFail err)" "oneReply (failWrongType err)" "oneReply (failWrongTypeOOM err)" "oneReply (failOOM err)"
  "oneReply (failIncr err)" "oneReply (failHIncr err)" "oneReply (ends Panicked)"
  "oneReply (getReply r)" "oneReply (popReply args out)" "oneReply (writeMembers ms)"
  by (simp_all add: oneReply_def writeErr_def writeSimple_def writeOK_def writeBulkNil_def writeBulk_def writeInt_def writeArray_def
      writeArrayEmpty_def replicating_def keyspaceHit_def keyspaceMiss_def storeFail_def failWrongType_def failWrongTypeOOM_def
      failOOM_def failIncr_def failHIncr_def getReply_def popReply_def writeMembers_def reply_def ends_def silent_def
      split: option.split sum.split)

definition goodResult :: "store \<Rightarrow> store \<times> effect \<Rightarrow> bool" where
  "goodResult s r \<longleftrightarrow> reached s (fst r) \<and> oneReply (snd r)"

lemma goodResult_pair [simp]: "goodResult s (s', e) \<longleftrightarrow> reached s s' \<and> oneReply e"
  by (simp add: goodResult_def)

definition goodCmd :: "store_cmd \<Rightarrow> bool" where
  "goodCmd h \<longleftrightarrow> (\<forall>now args s. goodResult s (h now args s))"

lemma goodCmdI: "(\<And>now args s. goodResult s (h now args s)) \<Longrightarrow> goodCmd h"
  by (simp add: goodCmd_def)

text \<open>The loops of the handlers.\<close>

lemma reach_existing: "existingKeys now s acc ks = (s', r) \<Longrightarrow> reached s0 s \<Longrightarrow> reached s0 s'"
proof (induction ks arbitrary: s acc s' r)
  case (Cons k ks)
  from Cons.prems show ?case
    by (auto simp del: Exists.simps split: prod.splits intro: reach Cons.IH)
qed simp

lemma getExOptions_Cons:
  "getExOptions now s key ps exp (a # l) = (s', r) \<Longrightarrow>
   s' = s \<or> (\<exists>ps' exp' l' s1. (s1 = s \<or> s1 = fst (Persist now s key)) \<and> length l' \<le> length l \<and>
     getExOptions now s1 key ps' exp' l' = (s', r))"
  unfolding getExOptions.simps(2) Let_def
  by (split if_split_asm, blast, split if_split_asm, split list.split_asm, blast, split sum.split_asm, blast,
      split if_split_asm, blast, metis le_SucI length_Cons order_refl, blast)

lemma reach_getEx: "getExOptions now s key ps exp args = (s', r) \<Longrightarrow> reached s0 s \<Longrightarrow> reached s0 s'"
proof (induction "length args" arbitrary: args s ps exp rule: less_induct)
  case less
  show ?case
  proof (cases args)
    case (Cons a l)
    from getExOptions_Cons [OF less.prems(1) [unfolded Cons]]
    consider "s' = s" | ps' exp' l' s1 where "s1 = s \<or> s1 = fst (Persist now s key)" "length l' \<le> length l"
        "getExOptions now s1 key ps' exp' l' = (s', r)" by blast
    then show ?thesis
    proof cases
      case 2
      then have "reached s0 s1" using less.prems(2) by (auto intro: reach)
      with less.hyps [OF _ 2(3)] 2(2) Cons show ?thesis by simp
    qed (use less.prems in simp)
  qed (use less.prems in simp)
qed

lemma reach_hget: "hgetLoop now s key ks = (s', r) \<Longrightarrow> reached s0 s \<Longrightarrow> reached s0 s'"
proof (induction ks arbitrary: s s' r)
  case (Cons k ks)
  from Cons.prems show ?case
    by (auto simp: Let_def split: prod.splits sum.splits intro: reach Cons.IH)
qed simp

lemma reach_union: "unionLoop now s acc ks = (s', r) \<Longrightarrow> reached s0 s \<Longrightarrow> reached s0 s'"
proof (induction ks arbitrary: s acc s' r)
  case (Cons k ks)
  from Cons.prems show ?case
    by (auto simp: Let_def split: prod.splits sum.splits option.splits intro: reach Cons.IH)
qed simp

lemma reach_inter: "interLoop now s acc ks = (s', r) \<Longrightarrow> reached s0 s \<Longrightarrow> reached s0 s'"
proof (induction ks arbitrary: s acc s' r)
  case (Cons k ks)
  from Cons.prems show ?case
    by (auto simp: Let_def split: prod.splits sum.splits option.splits if_splits intro: reach Cons.IH)
qed simp

lemma reach_diff: "diffLoop now s acc ks = (s', r) \<Longrightarrow> reached s0 s \<Longrightarrow> reached s0 s'"
proof (induction ks arbitrary: s acc s' r)
  case (Cons k ks)
  from Cons.prems show ?case
    by (auto simp: Let_def split: prod.splits sum.splits option.splits intro: reach Cons.IH)
qed simp

lemma reach_combine:
  "unionMembers now s ks = (s', r) \<Longrightarrow> reached s0 s \<Longrightarrow> reached s0 s'"
  "interMembers now s ks = (s', r) \<Longrightarrow> reached s0 s \<Longrightarrow> reached s0 s'"
  "diffMembers now s ks = (s', r) \<Longrightarrow> reached s0 s \<Longrightarrow> reached s0 s'"
  by (auto simp: unionMembers_def interMembers_def diffMembers_def
      split: prod.splits sum.splits option.splits list.splits intro: reach reach_union reach_inter reach_diff)

lemma reach_keep: "keepExpiry now s key o1 = (s', t) \<Longrightarrow> reached s0 s \<Longrightarrow> reached s0 s'"
  by (auto simp: keepExpiry_def split: if_splits prod.splits intro: reach)

lemma reach_applySet: "applySet now s key val exp a b = (s', r) \<Longrightarrow> reached s0 s \<Longrightarrow> reached s0 s'"
  by (auto simp: applySet_def split: if_splits prod.splits sum.splits bool.splits option.splits intro: reach)

lemmas reach_loops = reach_existing reach_getEx reach_hget reach_combine reach_keep reach_applySet

lemma ParseInt_range: "ParseInt a = Inr n \<Longrightarrow> in_int64 n"
  by (auto simp: ParseInt_def dest: parseInt_range)


named_theorems good

lemma int64_one: "in_int64 1" "in_int64 (- 1)"
  by (simp_all add: int64_defs)

lemma mapOk_Nil: "mapOk []"
  by simp

text \<open>How a handler's definition is taken apart: into the stores of its branches, each reached by the calls
  before it.\<close>

lemmas cmd_splits = prod.split sum.split option.split bool.split
lemmas reach_elims = reach reach_loops ParseInt_range
lemmas reach_intros = reached_refl pairsOf_ok mapOk_Nil int64_one reach_keys(12-14)

lemma good_strings [good]:
  shows "goodCmd cmdGet" "goodCmd cmdSetNX" "goodCmd cmdGetSet" "goodCmd cmdGetDel" "goodCmd cmdMGet"
    "goodCmd cmdAppend" "goodCmd cmdStrLen" "goodCmd cmdGetRange" "goodCmd cmdSetRange" "goodCmd cmdSet"
    "goodCmd cmdDel" "goodCmd cmdGetEx" "goodCmd cmdMSet" "goodCmd cmdMSetNX" "goodCmd cmdSetEX"
    "goodCmd cmdPSetEX" "goodCmd cmdIncrBy" "goodCmd cmdDecrBy" "goodCmd cmdIncr" "goodCmd cmdDecr"
  by (rule goodCmdI; simp add: cmdGet_def cmdSetNX_def cmdGetSet_def cmdGetDel_def cmdMGet_def cmdAppend_def cmdStrLen_def
        cmdGetRange_def cmdSetRange_def cmdSet_def cmdDel_def cmdGetEx_def cmdMSet_def cmdMSetNX_def
        cmdSetEX_def cmdPSetEX_def cmdIncrBy_def cmdDecrBy_def cmdIncr_def cmdDecr_def setWithTTL_def
        incrReply_def doIncr_def
        Let_def del: Del.simps Exists.simps split: cmd_splits;
      (safe; (rule reach_intros | erule reach_elims)+)?)+

lemma good_keys [good]:
  shows "goodCmd cmdExists" "goodCmd cmdType" "goodCmd cmdTTL" "goodCmd cmdPTTL" "goodCmd cmdExpire"
    "goodCmd cmdExpireAt" "goodCmd cmdPExpire" "goodCmd cmdPExpireAt" "goodCmd cmdPersist"
    "goodCmd cmdKeys" "goodCmd cmdScan" "goodCmd cmdRename" "goodCmd cmdRenameNX" "goodCmd cmdRandomKey"
    "goodCmd cmdDBSize"
  by (rule goodCmdI; simp add: cmdExists_def cmdType_def cmdTTL_def cmdPTTL_def cmdExpire_def cmdExpireAt_def cmdPExpire_def
        cmdPExpireAt_def cmdPersist_def cmdKeys_def cmdScan_def cmdRename_def cmdRenameNX_def
        cmdRandomKey_def cmdDBSize_def expireReply_def
        Let_def del: Del.simps Exists.simps split: cmd_splits;
      (safe; (rule reach_intros | erule reach_elims)+)?)+

lemma good_hashes [good]:
  shows "goodCmd cmdHSet" "goodCmd cmdHMSet" "goodCmd cmdHGet" "goodCmd cmdHMGet" "goodCmd cmdHDel"
    "goodCmd cmdHExists" "goodCmd cmdHLen" "goodCmd cmdHIncrBy" "goodCmd cmdHSetNX" "goodCmd cmdHGetAll"
    "goodCmd cmdHKeys" "goodCmd cmdHVals"
  by (rule goodCmdI; simp add: cmdHSet_def cmdHMSet_def cmdHGet_def cmdHMGet_def cmdHDel_def cmdHExists_def cmdHLen_def
        cmdHIncrBy_def cmdHSetNX_def cmdHGetAll_def cmdHKeys_def cmdHVals_def hitIfHash_def
        hashRows_def
        Let_def del: Del.simps Exists.simps split: cmd_splits;
      (safe; (rule reach_intros | erule reach_elims)+)?)+

lemma good_lists [good]:
  shows "goodCmd cmdLPush" "goodCmd cmdRPush" "goodCmd cmdLPushX" "goodCmd cmdRPushX" "goodCmd cmdLPop"
    "goodCmd cmdRPop" "goodCmd cmdLLen" "goodCmd cmdLIndex" "goodCmd cmdLSet" "goodCmd cmdLRem"
    "goodCmd cmdLRange" "goodCmd cmdLTrim" "goodCmd cmdLInsert"
  by (rule goodCmdI; simp add: cmdLPush_def cmdRPush_def cmdLPushX_def cmdRPushX_def cmdLPop_def cmdRPop_def cmdLLen_def
        cmdLIndex_def cmdLSet_def cmdLRem_def cmdLRange_def cmdLTrim_def cmdLInsert_def pushCmd_def
        pushXCmd_def popCmd_def
        Let_def del: Del.simps Exists.simps split: cmd_splits;
      (safe; (rule reach_intros | erule reach_elims)+)?)+

lemma good_sets [good]:
  shows "goodCmd cmdSAdd" "goodCmd cmdSRem" "goodCmd cmdSMembers" "goodCmd cmdSIsMember" "goodCmd cmdSCard"
    "goodCmd cmdSUnion" "goodCmd cmdSInter" "goodCmd cmdSDiff" "goodCmd cmdSUnionStore"
    "goodCmd cmdSInterStore" "goodCmd cmdSDiffStore"
  by (rule goodCmdI; simp add: cmdSAdd_def cmdSRem_def cmdSMembers_def cmdSIsMember_def cmdSCard_def cmdSUnion_def
        cmdSInter_def cmdSDiff_def cmdSUnionStore_def cmdSInterStore_def cmdSDiffStore_def
        combineCmd_def storeCmd_def
        Let_def del: Del.simps Exists.simps split: cmd_splits;
      (safe; (rule reach_intros | erule reach_elims)+)?)+

lemma good_floats [good]:
  shows "goodCmd (cmdIncrByFloat fo)" "goodCmd (cmdHIncrByFloat fo)"
  by (rule goodCmdI; simp add: cmdIncrByFloat_def cmdHIncrByFloat_def Let_def split: cmd_splits;
      (safe; (rule reach_intros | erule reach_elims)+)?)+

end
