(* ===== verification/Server_Inv.thy ===== *)
theory Server_Inv
  imports Cmd_Steps
begin

text \<open>
  What a client connection keeps, whatever bytes it is sent: the store stays well formed, the
  session and the subscription manager agree, and a queue of commands exists only inside a
  transaction.
\<close>


section \<open>The invariant\<close>

definition sessionOk :: "Session \<Rightarrow> SubscriptionManager \<Rightarrow> bool" where
  "sessionOk s m \<longleftrightarrow>
     distinct (SubChannels s) \<and> distinct (PSubPatterns s) \<and>
     (\<forall>ch. ch \<in> set (SubChannels s) \<longleftrightarrow> sessID s \<in> set (subscribers (chans m) ch)) \<and>
     (\<forall>pat. pat \<in> set (PSubPatterns s) \<longleftrightarrow> sessID s \<in> set (subscribers (psubs m) pat)) \<and>
     mapOk (WatchedKeys s) \<and> (InMulti s \<or> MultiQueue s = []) \<and> length (MultiQueue s) \<le> maxMultiQueueLen"

definition worldInv :: "world \<Rightarrow> bool" where
  "worldInv w \<longleftrightarrow> storeInv (wStore w) \<and> managerOk (wPubSub w) \<and> sessionOk (wSession w) (wPubSub w)"

text \<open>What a command may do to a world: it keeps the invariant and the identity of the session, it changes the store
  by calls only, and it leaves the queue or empties it.\<close>

definition worldStep :: "world \<Rightarrow> world \<Rightarrow> bool" where
  "worldStep w w' \<longleftrightarrow> worldInv w' \<and> reached (wStore w) (wStore w') \<and> sessID (wSession w') = sessID (wSession w) \<and>
     (MultiQueue (wSession w') = [] \<or> MultiQueue (wSession w') = MultiQueue (wSession w))"

definition okResult :: "world \<Rightarrow> world \<times> effect \<Rightarrow> bool" where
  "okResult w r \<longleftrightarrow> worldStep w (fst r) \<and> exit (snd r) \<noteq> OutOfFuel"

lemma okResult_pair [simp]: "okResult w (w', e) \<longleftrightarrow> worldStep w w' \<and> exit e \<noteq> OutOfFuel"
  by (simp add: okResult_def)

lemma worldStep_refl: "worldInv w \<Longrightarrow> worldStep w w"
  by (auto simp: worldStep_def)

lemma worldStep_trans: "worldStep w w' \<Longrightarrow> worldStep w' w'' \<Longrightarrow> worldStep w w''"
  by (auto simp: worldStep_def intro: reached_trans)

text \<open>A change of the session that does not concern the subscriptions.\<close>

lemma worldStep_session:
  assumes "worldInv w" and "sessID s' = sessID (wSession w)" "SubChannels s' = SubChannels (wSession w)"
    "PSubPatterns s' = PSubPatterns (wSession w)" "mapOk (WatchedKeys s')"
    "MultiQueue s' = [] \<or> InMulti s' = InMulti (wSession w) \<and> MultiQueue s' = MultiQueue (wSession w)"
  shows "worldStep w (w\<lparr>wSession := s'\<rparr>)"
  using assms by (auto simp: worldStep_def worldInv_def sessionOk_def)

lemma worldInv_watched: "worldInv w \<Longrightarrow> mapOk (WatchedKeys (wSession w))"
  by (simp add: worldInv_def sessionOk_def)

lemma oneReply_fuel: "oneReply e \<Longrightarrow> exit e \<noteq> OutOfFuel"
  by (auto simp: oneReply_def)

definition goodHandler :: "handler \<Rightarrow> bool" where
  "goodHandler h \<longleftrightarrow> (\<forall>ctx args w. worldInv w \<longrightarrow> okResult w (h ctx args w))"

lemma goodHandlerI: "(\<And>ctx args w. worldInv w \<Longrightarrow> okResult w (h ctx args w)) \<Longrightarrow> goodHandler h"
  by (simp add: goodHandler_def)

lemma goodHandlerD: "goodHandler h \<Longrightarrow> worldInv w \<Longrightarrow> okResult w (h ctx args w)"
  by (simp add: goodHandler_def)

lemma onStore_good:
  assumes "goodCmd h" and "worldInv w"
  shows "okResult w (onStore h ctx args w)"
proof -
  obtain s e where h: "h (ctxNow ctx) args (wStore w) = (s, e)" by (cases "h (ctxNow ctx) args (wStore w)")
  then have "reached (wStore w) s" "oneReply e" using assms(1) unfolding goodCmd_def by (metis goodResult_pair)+
  with assms(2) h show ?thesis
    by (auto simp: onStore_def worldStep_def worldInv_def oneReply_fuel intro: reached_inv)
qed

lemma goodHandler_onStore: "goodCmd h \<Longrightarrow> goodHandler (onStore h)"
  by (simp add: goodHandler_def onStore_good)

lemma goodHandler_float:
  "goodHandler (\<lambda>ctx. onStore (cmdIncrByFloat (ctxFloat ctx)) ctx)"
  "goodHandler (\<lambda>ctx. onStore (cmdHIncrByFloat (ctxFloat ctx)) ctx)"
  by (simp_all add: goodHandler_def onStore_good good_floats)


section \<open>Handlers\<close>

lemma exit_simps [simp]:
  "exit (writeErr m) = Done" "exit (writeSimple m) = Done" "exit writeOK = Done" "exit writeBulkNil = Done"
  "exit (writeBulk b) = Done" "exit (writeInt n) = Done" "exit (writeArray vs) = Done" "exit (reply v) = Done"
  "exit (replicating ps e) = exit e" "exit (ends x) = x" "exit silent = Done" "exit (andThen e1 e2) = exit e2"
  by (simp_all add: writeErr_def writeSimple_def writeOK_def writeBulkNil_def writeBulk_def writeInt_def writeArray_def
      replicating_def reply_def ends_def silent_def andThen_def split: option.split)

lemma good_plain:
  shows "goodHandler cmdPing" "goodHandler cmdEcho" "goodHandler cmdTime" "goodHandler cmdInfo" "goodHandler cmdCommand"
    "goodHandler cmdPublish"
  by (rule goodHandlerI; simp add: cmdPing_def cmdEcho_def cmdTime_def cmdInfo_def cmdCommand_def cmdPublish_def
      Let_def worldStep_refl)+

lemma good_session:
  shows "goodHandler cmdAuth" "goodHandler cmdSelect" "goodHandler cmdClient" "goodHandler cmdMulti" "goodHandler cmdDiscard"
    "goodHandler cmdUnwatch"
  by (rule goodHandlerI; simp add: cmdAuth_def cmdSelect_def cmdClient_def cmdMulti_def cmdDiscard_def cmdUnwatch_def
      onSession_def Let_def worldStep_refl worldStep_session worldInv_watched split: sum.split)+


lemma fold_mapPut_ok: "mapOk m \<Longrightarrow> mapOk (fold (\<lambda>k. mapPut k (f k)) ks m)"
  by (induction ks arbitrary: m) auto

lemma good_watch: "goodHandler cmdWatch"
  by (rule goodHandlerI)
    (simp add: cmdWatch_def onSession_def worldStep_refl worldStep_session worldInv_watched fold_mapPut_ok)

lemma good_flush: "goodHandler cmdFlushDB" "goodHandler cmdFlushAll"
  by (rule goodHandlerI;
      auto simp: cmdFlushDB_def cmdFlushAll_def flushClusterDB_def worldStep_def worldInv_def FlushDB_spec(1) intro: reach)+

text \<open>The subscription commands change session and manager together.\<close>

lemma subscribe_steps:
  assumes "worldInv w"
  shows "worldStep w (fst (subscribeOne c w))" "worldStep w (fst (psubscribeOne c w))"
    "worldStep w (fst (unsubscribeOne c w))" "worldStep w (fst (punsubscribeOne c w))"
  using assms
  by (auto simp: worldStep_def worldInv_def sessionOk_def subscribeOne_def psubscribeOne_def unsubscribeOne_def punsubscribeOne_def
      Let_def manager_ops_ok Subscribe_def PSubscribe_def Unsubscribe_def PUnsubscribe_def subscribers_addSub subscribers_delSub
      managerOk_def addSub_ok delSub_ok distinct_removeAll)

lemma ackLoop_step:
  "(\<And>c w. worldInv w \<Longrightarrow> worldStep w (fst (f c w))) \<Longrightarrow> worldInv w \<Longrightarrow> worldStep w (fst (ackLoop f cs w))"
proof (induction cs arbitrary: w)
  case (Cons c cs)
  obtain w1 v where f: "f c w = (w1, v)" by (cases "f c w")
  then have "worldStep w w1" using Cons.prems(1) [OF Cons.prems(2), of c] by simp
  moreover from this have "worldStep w1 (fst (ackLoop f cs w1))"
    using Cons.IH [OF Cons.prems(1)] by (simp add: worldStep_def)
  ultimately show ?case using worldStep_trans by (auto simp: f split: prod.split)
qed (simp add: worldStep_refl)

lemma acks_ok:
  assumes "\<And>c w. worldInv w \<Longrightarrow> worldStep w (fst (f c w))" and "worldInv w"
  shows "okResult w (acks f cs w)"
  using ackLoop_step [where f = f, OF assms(1,2), of cs] by (auto simp: acks_def split: prod.split)

lemma good_subscribe:
  shows "goodHandler cmdSubscribe" "goodHandler cmdPSubscribe" "goodHandler cmdUnsubscribe" "goodHandler cmdPUnsubscribe"
  by (rule goodHandlerI; simp add: cmdSubscribe_def cmdPSubscribe_def cmdUnsubscribe_def cmdPUnsubscribe_def
      acks_ok subscribe_steps worldStep_refl)+


section \<open>Transactions\<close>

text \<open>A dispatcher that is good for worlds without a queue.\<close>

definition okDispatch :: "(rvalue \<Rightarrow> world \<Rightarrow> world \<times> effect) \<Rightarrow> bool" where
  "okDispatch d \<longleftrightarrow> (\<forall>v w. worldInv w \<longrightarrow> MultiQueue (wSession w) = [] \<longrightarrow> okResult w (d v w))"

lemma execLoop_ok:
  "okDispatch d \<Longrightarrow> worldInv w \<Longrightarrow> MultiQueue (wSession w) = [] \<Longrightarrow> okResult w (execLoop d elems queue w)"
proof (induction queue arbitrary: elems w)
  case (Cons v queue)
  obtain w1 e where d: "d v w = (w1, e)" by (cases "d v w")
  have "okResult w (d v w)" using Cons.prems by (simp add: okDispatch_def)
  then have step: "worldStep w w1" "exit e \<noteq> OutOfFuel" by (simp_all add: d)
  then have "worldInv w1" "MultiQueue (wSession w1) = []" using Cons.prems(3) by (auto simp: worldStep_def)
  from Cons.IH [OF Cons.prems(1) this] step worldStep_trans [OF step(1)] show ?case
    by (auto simp: d okResult_def split_beta split: sum.split)
qed (simp add: worldStep_refl)

lemma cmdExec_ok:
  assumes "worldInv w" and "MultiQueue (wSession w) = [] \<or> okDispatch (ctxDispatch ctx)"
  shows "okResult w (cmdExec ctx args w)"
proof -
  let ?w = "onSession (\<lambda>s. s\<lparr>InMulti := False, MultiQueue := [], WatchedKeys := []\<rparr>) w"
  have st: "worldStep w ?w" unfolding onSession_def by (rule worldStep_session [OF assms(1)]) simp_all
  then have inv: "worldInv ?w" "MultiQueue (wSession ?w) = []" by (simp_all add: worldStep_def onSession_def)
  have "okResult ?w (execLoop (ctxDispatch ctx) [] (MultiQueue (wSession w)) ?w)"
  proof (cases "MultiQueue (wSession w) = []")
    case True
    then show ?thesis using inv by (simp add: worldStep_refl)
  next
    case False
    with assms(2) show ?thesis using execLoop_ok [OF _ inv] by simp
  qed
  then show ?thesis
    using st worldStep_trans [OF st] assms(1)
    by (auto simp: cmdExec_def Let_def worldStep_refl okResult_def)
qed

lemma builtins_good: "\<forall>(meta, h)\<in>set builtins. h = cmdExec \<or> goodHandler h"
  by (simp add: builtins_def registerStringCommands_def registerHashCommands_def registerListCommands_def
      registerSetCommands_def registerGenericCommands_def registerServerCommands_def registerPubSubCommands_def
      registerTransactionCommands_def reg_def goodHandler_onStore good goodHandler_float good_plain good_session
      good_watch good_flush good_subscribe)

section \<open>Dispatch\<close>

lemma lookup_registered:
  "mapGet (fold Register ms r) k =
     (case find (\<lambda>mh. lowerName (metaName (fst mh)) = k) (rev ms) of Some mh \<Rightarrow> Some mh | None \<Rightarrow> mapGet r k)"
proof (induction ms rule: rev_induct)
  case (snoc mh ms)
  then show ?case by (auto simp: Register_def)
qed simp

lemma Lookup_builtin: "Lookup NewRegistry name = Some mh \<Longrightarrow> mh \<in> set builtins"
  by (auto simp: Lookup_def NewRegistry_def lookup_registered find_Some_iff split: option.splits)
    (metis in_set_conv_nth length_rev set_rev)

lemma DispatchN_ok:
  assumes "worldInv w" and "MultiQueue (wSession w) = [] \<or> okDispatch (DispatchN n ctx)"
  shows "okResult w (DispatchN (Suc n) ctx v w)"
proof -
  have h: "okResult w (h (ctx\<lparr>ctxCommands := c, ctxDispatch := DispatchN n ctx\<rparr>) args w)"
    if "Lookup NewRegistry name = Some (meta, h)" for name meta h c args
    using builtins_good Lookup_builtin [OF that] assms cmdExec_ok [of w "ctx\<lparr>ctxCommands := c, ctxDispatch := DispatchN n ctx\<rparr>" args]
    by (auto simp: goodHandler_def)
  show ?thesis
    using assms(1) h by (auto simp: worldStep_refl Let_def split: option.split)
qed

lemma okDispatch_one: "okDispatch (DispatchN 1 ctx)"
  by (simp add: okDispatch_def DispatchN_ok del: DispatchN.simps)

lemma Dispatch_ok: "worldInv w \<Longrightarrow> okResult w (Dispatch ctx v w)"
  using DispatchN_ok [of w 1 ctx v] okDispatch_one [of ctx] by (simp add: Dispatch_def numeral_2_eq_2 del: DispatchN.simps)


section \<open>The connection\<close>

lemma queue_step:
  assumes "worldInv w" "InMulti (wSession w)" "length (MultiQueue (wSession w)) < maxMultiQueueLen"
  shows "worldInv (onSession (MultiQueue_update (\<lambda>q. q @ [v])) w)"
  using assms by (auto simp: worldInv_def sessionOk_def onSession_def)

text \<open>One request: the invariant and the identity of the session stay, the store moves by calls only.\<close>

definition connStep :: "world \<Rightarrow> world \<Rightarrow> bool" where
  "connStep w w' \<longleftrightarrow> worldInv w' \<and> reached (wStore w) (wStore w') \<and> sessID (wSession w') = sessID (wSession w)"

lemma connStep_refl: "worldInv w \<Longrightarrow> connStep w w"
  by (auto simp: connStep_def)

lemma connStep_trans: "connStep w w' \<Longrightarrow> connStep w' w'' \<Longrightarrow> connStep w w''"
  by (auto simp: connStep_def intro: reached_trans)

lemma serverDispatch_ok:
  assumes inv: "worldInv w"
  shows "connStep w (fst (serverDispatch ctx v w)) \<and> exit (snd (serverDispatch ctx v w)) \<noteq> OutOfFuel"
proof -
  have d: "connStep w (fst (Dispatch ctx v w))" "exit (snd (Dispatch ctx v w)) \<noteq> OutOfFuel"
    using Dispatch_ok [OF inv, of ctx v] by (simp_all add: okResult_def worldStep_def connStep_def)
  have q: "connStep w (onSession (MultiQueue_update (\<lambda>q. q @ [v])) w)"
    if "InMulti (wSession w)" "length (MultiQueue (wSession w)) < maxMultiQueueLen"
    using queue_step [OF inv that] by (auto simp: connStep_def onSession_def)
  show ?thesis
    using d q connStep_refl [OF inv]
    by (auto simp: serverDispatch_def Let_def writeQueued_def split: option.split)
qed

lemma serveValue_ok:
  assumes inv: "worldInv w"
  shows "connStep w (fst (serveValue fl ctx v w))"
proof -
  have "connStep w' (onSession (\<lambda>s. s\<lparr>LastCmdAt := t, CmdCount := n\<rparr>) w')" if "worldInv w'" for w' t n
    using that by (auto simp: connStep_def worldInv_def sessionOk_def onSession_def)
  then have "connStep w (onSession (\<lambda>s. s\<lparr>LastCmdAt := t, CmdCount := f s\<rparr>) w')" if "connStep w w'" for w' t f
    using that connStep_trans by (fastforce simp: connStep_def onSession_def)
  then show ?thesis
    using serverDispatch_ok [OF inv, of ctx v] connStep_refl [OF inv]
    by (auto simp: serveValue_def Let_def split: prod.split)
qed

lemma serveLoop_ok: "worldInv w \<Longrightarrow> connStep w (fst (serveLoop f env n inp w es))"
proof (induction f arbitrary: n inp w es)
  case (Suc f)
  obtain fl ctx where env: "env n = (fl, ctx)" by (cases "env n")
  have step: "connStep w w1" if "serveValue fl ctx v w = (w1, e, b)" for v w1 e b
    using serveValue_ok [OF Suc.prems, of fl ctx v] that by simp
  have "connStep w (fst (serveLoop f env (Suc n) rest w1 es'))" if "serveValue fl ctx v w = (w1, e, b)" for v rest w1 e b es'
    using step [OF that] Suc.IH [of w1 "Suc n" rest es'] connStep_trans by (auto simp: connStep_def)
  with step connStep_refl [OF Suc.prems] show ?case
    by (auto simp: env split: sum.split prod.split bool.split)
qed (simp add: connStep_refl)

lemma remove_step:
  assumes "worldInv w" "m = RemoveSessionFromAll (sessID (wSession w)) (wPubSub w)"
  shows "storeInv (wStore w)" "managerOk m" "\<forall>ch. sessID (wSession w) \<notin> set (subscribers (chans m) ch)"
    "\<forall>pat. sessID (wSession w) \<notin> set (subscribers (psubs m) pat)"
  using assms manager_ops_ok(5) [of "wPubSub w"] RemoveSessionFromAll_gone [of "wPubSub w"]
  by (auto simp: worldInv_def)

text \<open>As many rounds as there are bytes are enough: more change nothing.\<close>

lemma serveLoop_enough:
  "length inp < f \<Longrightarrow> serveLoop f env n inp w es = serveLoop (Suc (length inp)) env n inp w es"
proof (induction f arbitrary: n inp w es rule: less_induct)
  case (less f)
  obtain g where f: "f = Suc g" using less.prems by (cases f) auto
  have "serveLoop g env m rest w1 es1 = serveLoop (length inp) env m rest w1 es1"
    if "Parse inp = Inr (v, rest)" for v rest m w1 es1
  proof -
    have l: "length rest < length inp" using Parse_accepts [OF that] by auto
    with less.prems f have "serveLoop g env m rest w1 es1 = serveLoop (Suc (length rest)) env m rest w1 es1"
      by (intro less.IH) auto
    moreover have "serveLoop (length inp) env m rest w1 es1 = serveLoop (Suc (length rest)) env m rest w1 es1"
      using less.prems l by (intro less.IH) auto
    ultimately show ?thesis by simp
  qed
  then show ?case by (auto simp: f split: sum.split prod.split bool.split)
qed

end
