(* ===== verification/Server_Safety.thy ===== *)
theory Server_Safety
  imports Server_Inv
begin

text \<open>
  What a client may rely on: nothing happens before authentication, a transaction whose watched keys have
  changed does nothing, one that runs is the sequence of its commands, requests are answered one by one in their
  order, and whatever a client sends the invariant of the server stays.
\<close>


section \<open>Finding a command\<close>

lemma lowerName_ascii_Cons: "is_ascii c \<Longrightarrow> lowerName (c # r) = toLowerChar c # lowerName r"
  by (simp add: is_ascii_def)

lemma toUpperChar_ascii: "is_ascii (toUpperChar c) \<longleftrightarrow> is_ascii c"
  by (auto simp: is_ascii_def toUpperChar_def Let_def)

lemma upperName_ascii_Cons:
  assumes "upperName (c # r) = d # t" and "is_ascii d" "d \<noteq> CHR ''S''" "d \<noteq> CHR ''I''"
  shows "is_ascii c \<and> toUpperChar c = d \<and> upperName r = t"
  using assms toUpperChar_ascii [of c] by (auto simp del: upperName.simps simp: upperName.simps(2) [of c r] split: if_split_asm)

lemma upperName_ascii_eq:
  assumes "upperName s = t" and "\<forall>c\<in>set t. is_ascii c \<and> c \<noteq> CHR ''S'' \<and> c \<noteq> CHR ''I''"
  shows "lowerName s = map toLowerChar t"
  using assms
proof (induction s arbitrary: t)
  case (Cons c r)
  obtain d t' where t: "t = d # t'" using Cons.prems(1) by (cases t) (auto split: if_split_asm)
  have d: "is_ascii d" "d \<noteq> CHR ''S''" "d \<noteq> CHR ''I''" using Cons.prems(2) by (auto simp: t)
  note c = upperName_ascii_Cons [OF Cons.prems(1) [unfolded t] d]
  have "lowerName r = map toLowerChar t'" using Cons.IH [of t'] c Cons.prems(2) t by simp
  moreover have "toLowerChar c = toLowerChar d" using c toLower_toUpperChar [of c] by metis
  ultimately show ?case using c by (simp add: t lowerName_ascii_Cons del: lowerName.simps)
qed simp

lemma builtin_names:
  "map (\<lambda>mh. metaName (fst mh)) builtins =
     [''GET'', ''SET'', ''SETNX'', ''SETEX'', ''PSETEX'', ''GETSET'', ''GETDEL'', ''GETEX'', ''MGET'',
      ''MSET'', ''MSETNX'', ''DEL'', ''INCR'', ''DECR'', ''INCRBY'', ''DECRBY'', ''INCRBYFLOAT'', ''APPEND'',
      ''STRLEN'', ''GETRANGE'', ''SETRANGE'', ''HSET'', ''HMSET'', ''HGET'', ''HMGET'', ''HGETALL'',
      ''HDEL'', ''HEXISTS'', ''HLEN'', ''HKEYS'', ''HVALS'', ''HINCRBY'', ''HINCRBYFLOAT'', ''HSETNX'',
      ''LPUSH'', ''RPUSH'', ''LPUSHX'', ''RPUSHX'', ''LPOP'', ''RPOP'', ''LLEN'', ''LINDEX'', ''LSET'',
      ''LREM'', ''LRANGE'', ''LTRIM'', ''LINSERT'', ''SADD'', ''SREM'', ''SMEMBERS'', ''SISMEMBER'',
      ''SCARD'', ''SUNION'', ''SUNIONSTORE'', ''SINTER'', ''SINTERSTORE'', ''SDIFF'', ''SDIFFSTORE'',
      ''EXISTS'', ''TYPE'', ''TTL'', ''PTTL'', ''EXPIRE'', ''EXPIREAT'', ''PEXPIRE'', ''PEXPIREAT'',
      ''PERSIST'', ''KEYS'', ''SCAN'', ''RENAME'', ''RENAMENX'', ''RANDOMKEY'', ''SELECT'', ''DBSIZE'',
      ''PING'', ''ECHO'', ''AUTH'', ''INFO'', ''FLUSHDB'', ''FLUSHALL'', ''TIME'', ''CLIENT'', ''COMMAND'',
      ''SUBSCRIBE'', ''PSUBSCRIBE'', ''UNSUBSCRIBE'', ''PUNSUBSCRIBE'', ''PUBLISH'', ''MULTI'', ''EXEC'',
      ''DISCARD'', ''WATCH'', ''UNWATCH'']"
  by (simp add: builtins_def registerStringCommands_def registerHashCommands_def registerListCommands_def
      registerSetCommands_def registerGenericCommands_def registerServerCommands_def registerPubSubCommands_def
      registerTransactionCommands_def reg_def)

lemma toLower_letters:
  shows "toLowerChar (CHR ''A'') = CHR ''a''" "toLowerChar (CHR ''B'') = CHR ''b''" "toLowerChar (CHR ''C'') = CHR ''c''"
    "toLowerChar (CHR ''D'') = CHR ''d''" "toLowerChar (CHR ''E'') = CHR ''e''" "toLowerChar (CHR ''F'') = CHR ''f''"
    "toLowerChar (CHR ''G'') = CHR ''g''" "toLowerChar (CHR ''H'') = CHR ''h''" "toLowerChar (CHR ''I'') = CHR ''i''"
    "toLowerChar (CHR ''J'') = CHR ''j''" "toLowerChar (CHR ''K'') = CHR ''k''" "toLowerChar (CHR ''L'') = CHR ''l''"
    "toLowerChar (CHR ''M'') = CHR ''m''" "toLowerChar (CHR ''N'') = CHR ''n''" "toLowerChar (CHR ''O'') = CHR ''o''"
    "toLowerChar (CHR ''P'') = CHR ''p''" "toLowerChar (CHR ''Q'') = CHR ''q''" "toLowerChar (CHR ''R'') = CHR ''r''"
    "toLowerChar (CHR ''S'') = CHR ''s''" "toLowerChar (CHR ''T'') = CHR ''t''" "toLowerChar (CHR ''U'') = CHR ''u''"
    "toLowerChar (CHR ''V'') = CHR ''v''" "toLowerChar (CHR ''W'') = CHR ''w''" "toLowerChar (CHR ''X'') = CHR ''x''"
    "toLowerChar (CHR ''Y'') = CHR ''y''" "toLowerChar (CHR ''Z'') = CHR ''z''"
  by code_simp+

lemma lower_names:
  "map lowerName
     [''GET'', ''SET'', ''SETNX'', ''SETEX'', ''PSETEX'', ''GETSET'', ''GETDEL'', ''GETEX'', ''MGET'',
      ''MSET'', ''MSETNX'', ''DEL'', ''INCR'', ''DECR'', ''INCRBY'', ''DECRBY'', ''INCRBYFLOAT'', ''APPEND'',
      ''STRLEN'', ''GETRANGE'', ''SETRANGE'', ''HSET'', ''HMSET'', ''HGET'', ''HMGET'', ''HGETALL'',
      ''HDEL'', ''HEXISTS'', ''HLEN'', ''HKEYS'', ''HVALS'', ''HINCRBY'', ''HINCRBYFLOAT'', ''HSETNX'',
      ''LPUSH'', ''RPUSH'', ''LPUSHX'', ''RPUSHX'', ''LPOP'', ''RPOP'', ''LLEN'', ''LINDEX'', ''LSET'',
      ''LREM'', ''LRANGE'', ''LTRIM'', ''LINSERT'', ''SADD'', ''SREM'', ''SMEMBERS'', ''SISMEMBER'',
      ''SCARD'', ''SUNION'', ''SUNIONSTORE'', ''SINTER'', ''SINTERSTORE'', ''SDIFF'', ''SDIFFSTORE'',
      ''EXISTS'', ''TYPE'', ''TTL'', ''PTTL'', ''EXPIRE'', ''EXPIREAT'', ''PEXPIRE'', ''PEXPIREAT'',
      ''PERSIST'', ''KEYS'', ''SCAN'', ''RENAME'', ''RENAMENX'', ''RANDOMKEY'', ''SELECT'', ''DBSIZE'',
      ''PING'', ''ECHO'', ''AUTH'', ''INFO'', ''FLUSHDB'', ''FLUSHALL'', ''TIME'', ''CLIENT'', ''COMMAND'',
      ''SUBSCRIBE'', ''PSUBSCRIBE'', ''UNSUBSCRIBE'', ''PUNSUBSCRIBE'', ''PUBLISH'', ''MULTI'', ''EXEC'',
      ''DISCARD'', ''WATCH'', ''UNWATCH''] =
     [''get'', ''set'', ''setnx'', ''setex'', ''psetex'', ''getset'', ''getdel'', ''getex'', ''mget'',
      ''mset'', ''msetnx'', ''del'', ''incr'', ''decr'', ''incrby'', ''decrby'', ''incrbyfloat'', ''append'',
      ''strlen'', ''getrange'', ''setrange'', ''hset'', ''hmset'', ''hget'', ''hmget'', ''hgetall'',
      ''hdel'', ''hexists'', ''hlen'', ''hkeys'', ''hvals'', ''hincrby'', ''hincrbyfloat'', ''hsetnx'',
      ''lpush'', ''rpush'', ''lpushx'', ''rpushx'', ''lpop'', ''rpop'', ''llen'', ''lindex'', ''lset'',
      ''lrem'', ''lrange'', ''ltrim'', ''linsert'', ''sadd'', ''srem'', ''smembers'', ''sismember'',
      ''scard'', ''sunion'', ''sunionstore'', ''sinter'', ''sinterstore'', ''sdiff'', ''sdiffstore'',
      ''exists'', ''type'', ''ttl'', ''pttl'', ''expire'', ''expireat'', ''pexpire'', ''pexpireat'',
      ''persist'', ''keys'', ''scan'', ''rename'', ''renamenx'', ''randomkey'', ''select'', ''dbsize'',
      ''ping'', ''echo'', ''auth'', ''info'', ''flushdb'', ''flushall'', ''time'', ''client'', ''command'',
      ''subscribe'', ''psubscribe'', ''unsubscribe'', ''punsubscribe'', ''publish'', ''multi'', ''exec'',
      ''discard'', ''watch'', ''unwatch'']"
  by (simp add: lowerName_ascii is_ascii_def toLower_letters del: lowerName.simps)

lemma builtin_keys:
  "map (\<lambda>mh. lowerName (metaName (fst mh))) builtins =
     [''get'', ''set'', ''setnx'', ''setex'', ''psetex'', ''getset'', ''getdel'', ''getex'', ''mget'',
      ''mset'', ''msetnx'', ''del'', ''incr'', ''decr'', ''incrby'', ''decrby'', ''incrbyfloat'', ''append'',
      ''strlen'', ''getrange'', ''setrange'', ''hset'', ''hmset'', ''hget'', ''hmget'', ''hgetall'',
      ''hdel'', ''hexists'', ''hlen'', ''hkeys'', ''hvals'', ''hincrby'', ''hincrbyfloat'', ''hsetnx'',
      ''lpush'', ''rpush'', ''lpushx'', ''rpushx'', ''lpop'', ''rpop'', ''llen'', ''lindex'', ''lset'',
      ''lrem'', ''lrange'', ''ltrim'', ''linsert'', ''sadd'', ''srem'', ''smembers'', ''sismember'',
      ''scard'', ''sunion'', ''sunionstore'', ''sinter'', ''sinterstore'', ''sdiff'', ''sdiffstore'',
      ''exists'', ''type'', ''ttl'', ''pttl'', ''expire'', ''expireat'', ''pexpire'', ''pexpireat'',
      ''persist'', ''keys'', ''scan'', ''rename'', ''renamenx'', ''randomkey'', ''select'', ''dbsize'',
      ''ping'', ''echo'', ''auth'', ''info'', ''flushdb'', ''flushall'', ''time'', ''client'', ''command'',
      ''subscribe'', ''psubscribe'', ''unsubscribe'', ''punsubscribe'', ''publish'', ''multi'', ''exec'',
      ''discard'', ''watch'', ''unwatch'']"
proof -
  have "map (\<lambda>mh. lowerName (metaName (fst mh))) builtins = map lowerName (map (\<lambda>mh. metaName (fst mh)) builtins)"
    by simp
  then show ?thesis unfolding builtin_names lower_names .
qed

lemma builtin_distinct: "distinct (map (\<lambda>mh. lowerName (metaName (fst mh))) builtins)"
  unfolding builtin_keys by simp

lemma find_distinct:
  "distinct (map f xs) \<Longrightarrow> x \<in> set xs \<Longrightarrow> find (\<lambda>y. f y = f x) xs = Some x"
  by (induction xs) auto

lemma Lookup_registered:
  assumes "mh \<in> set builtins" "lowerName (metaName (fst mh)) = lowerName name"
  shows "Lookup NewRegistry name = Some mh"
proof -
  have "distinct (map (\<lambda>mh. lowerName (metaName (fst mh))) (rev builtins))" using builtin_distinct by (simp add: rev_map [symmetric])
  from find_distinct [OF this, of mh] assms show ?thesis
    by (simp add: Lookup_def NewRegistry_def lookup_registered)
qed

text \<open>Commands the server treats specially.\<close>

lemma Lookup_special:
  shows "lowerName name = ''auth'' \<Longrightarrow> Lookup NewRegistry name = Some (reg ''AUTH'' 0 (FlagWrite + FlagAdmin) cmdAuth)"
    "lowerName name = ''exec'' \<Longrightarrow> Lookup NewRegistry name = Some (reg ''EXEC'' 1 (FlagRead + FlagWrite) cmdExec)"
  by (rule Lookup_registered;
      simp add: builtins_def registerServerCommands_def registerTransactionCommands_def;
      simp add: reg_def lowerName_ascii is_ascii_def toLower_letters del: lowerName.simps)+


text \<open>The context the handler of a dispatched command gets, and its dispatch.\<close>

definition inner :: "CommandContext \<Rightarrow> CommandContext" where
  "inner ctx = ctx\<lparr>ctxCommands := Commands NewRegistry, ctxDispatch := DispatchN 1 ctx\<rparr>"

lemma Dispatch_found:
  "ValueToArgs v = Some (a # args) \<Longrightarrow> Lookup NewRegistry (bytesToStr a) = Some (meta, h) \<Longrightarrow>
   Dispatch ctx v w =
     (case (if Arity meta \<noteq> 0 then CheckArity (Arity meta) (a # args) else None) of
        Some msg \<Rightarrow> (w, writeErr msg) | None \<Rightarrow> h (inner ctx) (a # args) w)"
  by (simp add: Dispatch_def inner_def numeral_2_eq_2 split: option.split)


section \<open>Requests in their order\<close>

text \<open>The requests in a stream of bytes, and a connection that is handed the requests one by one.\<close>

fun requestsN :: "nat \<Rightarrow> bytes \<Rightarrow> rvalue list" where
  "requestsN 0 inp = []"
| "requestsN (Suc f) inp = (case Parse inp of Inl _ \<Rightarrow> [] | Inr (v, rest) \<Rightarrow> v # requestsN f rest)"

definition requests :: "bytes \<Rightarrow> rvalue list" where
  "requests inp = requestsN (Suc (length inp)) inp"

fun serveAll ::
  "(nat \<Rightarrow> server_flags \<times> CommandContext) \<Rightarrow> nat \<Rightarrow> rvalue list \<Rightarrow> world \<Rightarrow> effect list \<Rightarrow> world \<times> effect list" where
  "serveAll env n [] w es = (w, es)"
| "serveAll env n (v # vs) w es =
     (case env n of (fl, ctx) \<Rightarrow>
        (case serveValue fl ctx v w of
           (w, e, True) \<Rightarrow> serveAll env (Suc n) vs w (es @ [e])
         | (w, e, False) \<Rightarrow> (w, es @ [e])))"

lemma serveLoop_requests: "serveLoop f env n inp w es = serveAll env n (requestsN f inp) w es"
proof (induction f arbitrary: n inp w es)
  case (Suc f)
  then show ?case by (auto split: sum.split prod.split bool.split)
qed simp

lemma requestsN_written:
  assumes "list_all wfValue vs" and "Parse inp = Inl err" and "length vs < f"
  shows "requestsN f (replyBytes vs @ inp) = vs"
  using assms(1,3)
proof (induction vs arbitrary: f)
  case Nil
  then show ?case using assms(2) by (cases f) (auto simp: replyBytes_def)
next
  case (Cons v vs)
  obtain g where f: "f = Suc g" "length vs < g" using Cons.prems by (cases f) auto
  obtain out where out: "WriteValue v = Inr out" using wf_written(1) [of v] Cons.prems by auto
  then have "replyBytes (v # vs) @ inp = out @ (replyBytes vs @ inp)" by (simp add: replyBytes_def)
  moreover have "Parse (out @ (replyBytes vs @ inp)) = Inr (v, replyBytes vs @ inp)"
    using Parse_written [OF _ out] Cons.prems by simp
  ultimately show ?case using Cons.IH [of g] Cons.prems f by simp
qed

lemma replyBytes_length: "list_all wfValue vs \<Longrightarrow> length vs \<le> length (replyBytes vs)"
proof (induction vs)
  case (Cons v vs)
  obtain out where out: "WriteValue v = Inr out" using wf_written(1) [of v] Cons.prems by auto
  have "Parse out = Inr (v, [])" using Parse_written [OF _ out, of "[]"] Cons.prems by simp
  then have "out \<noteq> []" using Parse_accepts(2) [of out v "[]"] by auto
  with Cons out show ?case by (cases out) (auto simp: replyBytes_def)
qed simp

lemma requests_written: "list_all wfValue vs \<Longrightarrow> requests (replyBytes vs) = vs"
proof -
  assume vs: "list_all wfValue vs"
  obtain err where "Parse [] = Inl err" by (cases "Parse []") (auto dest: Parse_accepts(2))
  from requestsN_written [OF vs this, of "Suc (length (replyBytes vs))"] replyBytes_length [OF vs]
  show ?thesis by (simp add: requests_def)
qed


section \<open>Authentication\<close>

text \<open>What a request does before the client has authenticated: at most the session changes, and it is
  authenticated only by the password.\<close>

lemma Dispatch_auth:
  assumes "ValueToArgs v = Some (a # args)" and "upperName (bytesToStr a) = ''AUTH''"
  shows "Dispatch ctx v w = cmdAuth (inner ctx) (a # args) w"
proof -
  have "lowerName (bytesToStr a) = ''auth''"
    using upperName_ascii_eq [OF assms(2)] by (simp add: is_ascii_def toLower_letters)
  from Lookup_special(1) [OF this] assms(1) show ?thesis
    by (simp add: Dispatch_found reg_def)
qed

lemma serverDispatch_unauthenticated:
  assumes "needAuth (ctxConfig ctx) (wSession w)" and "serverDispatch ctx v w = (w', e)"
  shows "wStore w' = wStore w \<and> wPubSub w' = wPubSub w \<and> sent e = [] \<and> pushed e = [] \<and>
    (Authenticated (wSession w') \<longrightarrow> (\<exists>a b. ValueToArgs v = Some [a, b] \<and> bytesToStr b = AuthPassword (ctxConfig ctx)))"
proof (cases "ValueToArgs v")
  case None
  with assms show ?thesis by (auto simp: serverDispatch_def ends_def silent_def needAuth_def)
next
  case (Some args)
  show ?thesis
  proof (cases "args \<noteq> [] \<and> upperName (bytesToStr (hd args)) = ''AUTH'' \<and> \<not> InMulti (wSession w) \<and>
      \<not> (InSubscribeMode (wSession w) \<and> ''AUTH'' \<notin> set subscribeAllowed)")
    case True
    then obtain a as where a: "args = a # as" by (cases args) auto
    have "serverDispatch ctx v w = cmdAuth (inner ctx) (a # as) w"
      using True Some a assms(1) Dispatch_auth [of v a as ctx w] by (auto simp: serverDispatch_def Let_def)
    with assms Some a show ?thesis
      by (auto simp: inner_def cmdAuth_def Let_def writeErr_def writeOK_def writeSimple_def reply_def silent_def onSession_def needAuth_def
          length_Suc_conv split: if_splits)
  next
    case False
    with assms Some show ?thesis
      by (auto simp: serverDispatch_def Let_def writeErr_def writeOK_def writeSimple_def reply_def silent_def onSession_def needAuth_def
          ends_def writeQueued_def split: if_splits)
  qed
qed

lemma serveValue_unauthenticated:
  assumes "needAuth (ctxConfig ctx) (wSession w)" and "serveValue fl ctx v w = (w', e, b)"
  shows "wStore w' = wStore w \<and> sent e = [] \<and> pushed e = [] \<and>
    (Authenticated (wSession w') \<longrightarrow> (\<exists>a b. ValueToArgs v = Some [a, b] \<and> bytesToStr b = AuthPassword (ctxConfig ctx)))"
proof (cases "clientReady fl")
  case True
  obtain w1 e1 where d: "serverDispatch ctx v w = (w1, e1)" by (cases "serverDispatch ctx v w")
  have "wStore w' = wStore w1 \<and> sent e = sent e1 \<and> pushed e = pushed e1 \<and> Authenticated (wSession w') = Authenticated (wSession w1)"
    using assms(2) True d by (auto simp: serveValue_def Let_def onSession_def split: if_splits)
  with serverDispatch_unauthenticated [OF assms(1) d] show ?thesis by simp
qed (use assms in \<open>auto simp: serveValue_def writeErr_def reply_def silent_def needAuth_def\<close>)

lemma serveAll_unauthenticated:
  assumes "\<forall>n. AuthPassword (ctxConfig (snd (env n))) = pw" and "trimSpace pw \<noteq> []"
    and "\<forall>v\<in>set vs. \<forall>a. ValueToArgs v \<noteq> Some [a, Some pw]"
    and "\<not> Authenticated (wSession w)" and "serveAll env n vs w es = (w', es')"
  shows "wStore w' = wStore w \<and> (\<forall>e\<in>set es' - set es. sent e = [] \<and> pushed e = [])"
  using assms(3-)
proof (induction vs arbitrary: n w es)
  case (Cons v vs)
  obtain fl ctx where env: "env n = (fl, ctx)" by (cases "env n")
  obtain w1 e b where v: "serveValue fl ctx v w = (w1, e, b)" by (cases "serveValue fl ctx v w")
  have pw: "AuthPassword (ctxConfig ctx) = pw" using assms(1) env by (metis snd_conv)
  have "needAuth (ctxConfig ctx) (wSession w)" using assms(2) Cons.prems(2) by (simp add: needAuth_def pw)
  note n = serveValue_unauthenticated [OF this v]
  have "\<not> Authenticated (wSession w1)"
  proof
    assume "Authenticated (wSession w1)"
    with n obtain a b where "ValueToArgs v = Some [a, b]" "bytesToStr b = pw" by (auto simp: pw)
    moreover have "pw \<noteq> []" using assms(2) by auto
    ultimately show False using Cons.prems(1) by (cases b) (auto simp: bytesToStr_def)
  qed
  with n Cons.IH [of w1 "Suc n" "es @ [e]"] Cons.prems env v show ?case
    by (cases b) auto
qed simp


section \<open>The depth of a dispatch\<close>

text \<open>Only \<open>EXEC\<close> dispatches, and only what is in the queue.\<close>

definition selfContained :: "handler \<Rightarrow> bool" where
  "selfContained h \<longleftrightarrow> (\<forall>ctx d args w. h (ctx\<lparr>ctxDispatch := d\<rparr>) args w = h ctx args w)"

lemma selfContained_onStore: "selfContained (onStore h)"
  by (simp add: selfContained_def onStore_def)

lemma selfContained_others:
  shows "selfContained (\<lambda>ctx. onStore (cmdIncrByFloat (ctxFloat ctx)) ctx)"
    "selfContained (\<lambda>ctx. onStore (cmdHIncrByFloat (ctxFloat ctx)) ctx)"
    "selfContained cmdPing" "selfContained cmdEcho" "selfContained cmdTime" "selfContained cmdInfo" "selfContained cmdCommand"
    "selfContained cmdPublish" "selfContained cmdAuth" "selfContained cmdSelect" "selfContained cmdClient"
    "selfContained cmdMulti" "selfContained cmdDiscard" "selfContained cmdUnwatch" "selfContained cmdWatch"
    "selfContained cmdFlushDB" "selfContained cmdFlushAll" "selfContained cmdSubscribe" "selfContained cmdPSubscribe"
    "selfContained cmdUnsubscribe" "selfContained cmdPUnsubscribe"
  by (simp_all add: selfContained_def onStore_def cmdPing_def cmdEcho_def cmdTime_def cmdInfo_def cmdCommand_def cmdPublish_def
      cmdAuth_def cmdSelect_def cmdClient_def cmdMulti_def cmdDiscard_def cmdUnwatch_def cmdWatch_def cmdFlushDB_def cmdFlushAll_def
      flushClusterDB_def cmdSubscribe_def cmdPSubscribe_def cmdUnsubscribe_def cmdPUnsubscribe_def infoServer_def
      infoMemory_def Let_def)

lemma builtins_selfContained: "\<forall>(meta, h)\<in>set builtins. h = cmdExec \<or> selfContained h"
  by (simp add: builtins_def registerStringCommands_def registerHashCommands_def registerListCommands_def
      registerSetCommands_def registerGenericCommands_def registerServerCommands_def registerPubSubCommands_def
      registerTransactionCommands_def reg_def selfContained_onStore selfContained_others)

lemma execLoop_cong:
  assumes "\<And>v w. worldInv w \<Longrightarrow> MultiQueue (wSession w) = [] \<Longrightarrow> d v w = d' v w" and "okDispatch d'"
    and "worldInv w" "MultiQueue (wSession w) = []"
  shows "execLoop d elems queue w = execLoop d' elems queue w"
  using assms(3,4)
proof (induction queue arbitrary: elems w)
  case (Cons v queue)
  obtain w1 e where d: "d' v w = (w1, e)" by (cases "d' v w")
  have "worldStep w w1" using assms(2) Cons.prems d by (metis okDispatch_def okResult_pair)
  then have "worldInv w1" "MultiQueue (wSession w1) = []" using Cons.prems(2) by (auto simp: worldStep_def)
  with Cons.IH show ?case using assms(1) [OF Cons.prems] by (simp add: d split: sum.split)
qed simp

lemma DispatchN_cong:
  assumes "worldInv w" and "MultiQueue (wSession w) = [] \<or>
      okDispatch (DispatchN m ctx) \<and>
      (\<forall>v w. worldInv w \<longrightarrow> MultiQueue (wSession w) = [] \<longrightarrow> DispatchN n ctx v w = DispatchN m ctx v w)"
  shows "DispatchN (Suc n) ctx v w = DispatchN (Suc m) ctx v w"
proof -
  let ?n = "ctx\<lparr>ctxCommands := Commands NewRegistry, ctxDispatch := DispatchN n ctx\<rparr>"
  let ?m = "ctx\<lparr>ctxCommands := Commands NewRegistry, ctxDispatch := DispatchN m ctx\<rparr>"
  let ?w = "onSession (\<lambda>s. s\<lparr>InMulti := False, MultiQueue := [], WatchedKeys := []\<rparr>) w"
  have inv: "worldInv ?w" "MultiQueue (wSession ?w) = []"
    using assms(1) by (auto simp: worldInv_def sessionOk_def onSession_def)
  have "execLoop (DispatchN n ctx) [] (MultiQueue (wSession w)) ?w = execLoop (DispatchN m ctx) [] (MultiQueue (wSession w)) ?w"
    using assms(2) execLoop_cong [OF _ _ inv, of "DispatchN n ctx" "DispatchN m ctx"] by auto
  then have e: "cmdExec ?n args w = cmdExec ?m args w" for args by (simp add: cmdExec_def Let_def)
  have "h ?n args w = h ?m args w" if l: "Lookup NewRegistry name = Some (meta, h)" for name meta h args
  proof -
    consider "h = cmdExec" | "selfContained h"
      using builtins_selfContained Lookup_builtin [OF l] by auto
    then show ?thesis
    proof cases
      case 2
      then have "h (ctx\<lparr>ctxCommands := c, ctxDispatch := d\<rparr>) args w = h (ctx\<lparr>ctxCommands := c\<rparr>) args w" for c d
        unfolding selfContained_def by blast
      then show ?thesis by simp
    qed (simp add: e)
  qed
  then show ?thesis by (auto simp: Let_def split: option.split)
qed

text \<open>Without a queue one level is enough, with a queue two are.\<close>

lemma DispatchN_one:
  "worldInv w \<Longrightarrow> MultiQueue (wSession w) = [] \<Longrightarrow> DispatchN (Suc n) ctx v w = DispatchN 1 ctx v w"
  using DispatchN_cong [of w 0 ctx n v] by simp



section \<open>Transactions\<close>

definition leaveMulti :: "world \<Rightarrow> world" where
  "leaveMulti = onSession (\<lambda>s. s\<lparr>InMulti := False, MultiQueue := [], WatchedKeys := []\<rparr>)"

lemma leaveMulti_inv: "worldInv w \<Longrightarrow> worldInv (leaveMulti w)" "MultiQueue (wSession (leaveMulti w)) = []"
  "wStore (leaveMulti w) = wStore w"
  by (auto simp: leaveMulti_def worldInv_def sessionOk_def onSession_def)

text \<open>The commands of a queue one after the other, up to the first that ends the connection.\<close>

fun runQueue :: "(rvalue \<Rightarrow> world \<Rightarrow> world \<times> effect) \<Rightarrow> rvalue list \<Rightarrow> world \<Rightarrow> world \<times> effect list" where
  "runQueue d [] w = (w, [])"
| "runQueue d (v # queue) w =
     (case d v w of (w, e) \<Rightarrow>
        if exit e \<noteq> Done then (w, [e])
        else (case runQueue d queue w of (w, es) \<Rightarrow> (w, e # es)))"

text \<open>A command that has been answered in a way the transaction can read back.\<close>

definition answered :: "effect \<Rightarrow> bool" where
  "answered e \<longleftrightarrow> exit e = Done \<and> replies e \<noteq> [] \<and> wfValue (hd (replies e))"

definition execEffect :: "rvalue list \<Rightarrow> effect list \<Rightarrow> effect" where
  "execEffect elems es =
     \<lparr>replies = [arrayV (elems @ map (hd \<circ> replies) es)], sent = concat (map sent es), hits = sum_list (map hits es),
      misses = sum_list (map misses es), pushed = concat (map pushed es), exit = Done\<rparr>"

lemma Parse_replies:
  assumes "answered e"
  shows "\<exists>rest. Parse (replyBytes (replies e)) = Inr (hd (replies e), rest)"
proof -
  obtain r rs where r: "replies e = r # rs" "wfValue r" using assms by (cases "replies e") (auto simp: answered_def)
  obtain out where out: "WriteValue r = Inr out" using wf_written(1) [OF r(2)] by auto
  then show ?thesis using Parse_written [OF r(2) out] r(1) by (auto simp: replyBytes_def)
qed

lemma execLoop_runQueue:
  assumes "runQueue d queue w = (w', es)" and "list_all answered es"
  shows "execLoop d elems queue w = (w', execEffect elems es)"
  using assms
proof (induction queue arbitrary: elems w es)
  case Nil
  then show ?case by (auto simp: execEffect_def writeArray_def reply_def silent_def)
next
  case (Cons v queue)
  obtain w1 e where d: "d v w = (w1, e)" by (cases "d v w")
  obtain es' where es: "es = e # es'" using Cons.prems d by (auto split: if_splits prod.splits)
  then have e: "exit e = Done" "answered e" using Cons.prems by (auto simp: answered_def)
  then have q: "runQueue d queue w1 = (w', es')" using Cons.prems(1) d es by (auto split: prod.splits)
  obtain rest where p: "Parse (replyBytes (replies e)) = Inr (hd (replies e), rest)" using Parse_replies [OF e(2)] by auto
  show ?case
    using Cons.IH [OF q, of "elems @ [hd (replies e)]"] Cons.prems(2)
    by (simp add: d e p es execEffect_def andThen_def)
qed

lemma runQueue_cong:
  assumes "\<And>v w. worldInv w \<Longrightarrow> MultiQueue (wSession w) = [] \<Longrightarrow> d v w = d' v w" and "okDispatch d'"
    and "worldInv w" "MultiQueue (wSession w) = []"
  shows "runQueue d queue w = runQueue d' queue w"
  using assms(3,4)
proof (induction queue arbitrary: w)
  case (Cons v queue)
  obtain w1 e where d: "d' v w = (w1, e)" by (cases "d' v w")
  have "worldStep w w1" using assms(2) Cons.prems d by (metis okDispatch_def okResult_pair)
  then have "worldInv w1" "MultiQueue (wSession w1) = []" using Cons.prems(2) by (auto simp: worldStep_def)
  with Cons.IH show ?case using assms(1) [OF Cons.prems] by (simp add: d)
qed simp

lemma serverDispatch_exec:
  assumes "ValueToArgs v = Some [a]" and "upperName (bytesToStr a) = ''EXEC''"
    and "\<not> needAuth (ctxConfig ctx) (wSession w)" and "InMulti (wSession w)"
  shows "serverDispatch ctx v w =
    (if watchBroken w then (leaveMulti w, reply nullArrayV)
     else execLoop (DispatchN 1 ctx) [] (MultiQueue (wSession w)) (leaveMulti w))"
proof -
  have "lowerName (bytesToStr a) = ''exec''"
    using upperName_ascii_eq [OF assms(2)] by (simp add: is_ascii_def toLower_letters)
  from Lookup_special(2) [OF this] have "Dispatch ctx v w = cmdExec (inner ctx) [a] w"
    by (simp add: Dispatch_found [OF assms(1)] reg_def CheckArity_def)
  with assms show ?thesis
    by (simp add: serverDispatch_def cmdExec_def inner_def leaveMulti_def Let_def)
qed

section \<open>Queueing\<close>

text \<open>A request a transaction queues, whatever it may be.\<close>

definition queueable :: "rvalue \<Rightarrow> bool" where
  "queueable v \<longleftrightarrow>
     (case ValueToArgs v of
        Some (a # _) \<Rightarrow> upperName (bytesToStr a) \<notin> {''QUIT'', ''WATCH'', ''UNWATCH'', ''MULTI'', ''EXEC'', ''DISCARD''}
      | _ \<Rightarrow> False)"

lemma serverDispatch_queues:
  assumes "queueable v" "\<not> needAuth (ctxConfig ctx) (wSession w)" "InMulti (wSession w)"
    "length (MultiQueue (wSession w)) < maxMultiQueueLen"
  shows "serverDispatch ctx v w = (onSession (MultiQueue_update (\<lambda>q. q @ [v])) w, writeQueued)"
  using assms by (auto simp: queueable_def serverDispatch_def Let_def split: option.splits list.splits)

lemma queue_all:
  assumes "list_all queueable vs" "\<not> needAuth (ctxConfig ctx) (wSession w)" "InMulti (wSession w)"
    "length (MultiQueue (wSession w)) + length vs \<le> maxMultiQueueLen"
  shows "runQueue (serverDispatch ctx) vs w =
    (onSession (MultiQueue_update (\<lambda>q. q @ vs)) w, replicate (length vs) writeQueued)"
  using assms
proof (induction vs arbitrary: w)
  case (Cons v vs)
  let ?w = "onSession (MultiQueue_update (\<lambda>q. q @ [v])) w"
  have "serverDispatch ctx v w = (?w, writeQueued)" using Cons.prems by (intro serverDispatch_queues) auto
  moreover have "runQueue (serverDispatch ctx) vs ?w =
      (onSession (MultiQueue_update (\<lambda>q. q @ vs)) ?w, replicate (length vs) writeQueued)"
    using Cons.prems by (intro Cons.IH) (auto simp: onSession_def needAuth_def)
  ultimately show ?case by (simp add: writeQueued_def onSession_def)
qed (simp add: onSession_def)

lemma runQueue_append:
  "runQueue d (vs @ us) w =
     (case runQueue d vs w of (w1, es) \<Rightarrow>
        if list_all (\<lambda>e. exit e = Done) es then (case runQueue d us w1 of (w2, fs) \<Rightarrow> (w2, es @ fs)) else (w1, es))"
  by (induction vs arbitrary: w) (auto split: prod.split)

text \<open>Requests by name.\<close>

definition request :: "bytes list \<Rightarrow> rvalue" where
  "request ws = arrayV (map bulkV ws)"

lemma ValueToArgs_request [simp]: "ValueToArgs (request ws) = Some (map Some ws)"
proof -
  have "those (map (valueToArg \<circ> bulkV) ws) = Some (map Some ws)" by (induction ws) simp_all
  then show ?thesis by (simp add: request_def)
qed

lemma serverDispatch_multi:
  assumes "\<not> needAuth (ctxConfig ctx) (wSession w)" "\<not> InMulti (wSession w)" "\<not> InSubscribeMode (wSession w)"
  shows "serverDispatch ctx (request [''MULTI'']) w =
    (onSession (\<lambda>s. s\<lparr>InMulti := True, MultiQueue := []\<rparr>) w, writeOK)"
proof -
  have u: "upperName ''MULTI'' = ''MULTI''" by code_simp
  have l: "Lookup NewRegistry ''MULTI'' = Some (reg ''MULTI'' 1 FlagWrite cmdMulti)"
    by (rule Lookup_registered; simp add: builtins_def registerTransactionCommands_def; simp add: reg_def)
  show ?thesis
    using assms Dispatch_found [of "request [''MULTI'']" "Some ''MULTI''" "[]" _ _ ctx w] l
    by (simp add: serverDispatch_def u bytesToStr_def Let_def reg_def CheckArity_def cmdMulti_def)
qed

lemma transaction_runs:
  assumes inv: "worldInv w" and op: "\<not> needAuth (ctxConfig ctx) (wSession w)" "\<not> InMulti (wSession w)" "\<not> InSubscribeMode (wSession w)"
    and vs: "list_all queueable vs" "length vs \<le> maxMultiQueueLen"
  shows "runQueue (serverDispatch ctx) (request [''MULTI''] # vs @ [request [''EXEC'']]) w =
    (let (w', e) = (if watchBroken w then (leaveMulti w, reply nullArrayV)
                    else execLoop (DispatchN 1 ctx) [] vs (leaveMulti w))
     in (w', writeOK # replicate (length vs) writeQueued @ [e]))"
proof -
  let ?w1 = "onSession (\<lambda>s. s\<lparr>InMulti := True, MultiQueue := []\<rparr>) w"
  let ?w2 = "onSession (MultiQueue_update (\<lambda>q. q @ vs)) ?w1"
  have q: "runQueue (serverDispatch ctx) vs ?w1 = (?w2, replicate (length vs) writeQueued)"
    using vs op by (intro queue_all) (auto simp: onSession_def needAuth_def)
  have u: "upperName ''EXEC'' = ''EXEC''" by code_simp
  have "serverDispatch ctx (request [''EXEC'']) ?w2 =
      (if watchBroken ?w2 then (leaveMulti ?w2, reply nullArrayV)
       else execLoop (DispatchN 1 ctx) [] (MultiQueue (wSession ?w2)) (leaveMulti ?w2))"
    using op by (intro serverDispatch_exec) (auto simp: u bytesToStr_def onSession_def needAuth_def simp del: upperName.simps)
  moreover have "watchBroken ?w2 = watchBroken w" "leaveMulti ?w2 = leaveMulti w" "MultiQueue (wSession ?w2) = vs"
    by (simp_all add: watchBroken_def leaveMulti_def onSession_def)
  ultimately have e: "runQueue (serverDispatch ctx) [request [''EXEC'']] ?w2 =
      (case (if watchBroken w then (leaveMulti w, reply nullArrayV)
             else execLoop (DispatchN 1 ctx) [] vs (leaveMulti w)) of (w', e) \<Rightarrow> (w', [e]))"
    by (auto split: prod.split)
  have m: "serverDispatch ctx (request [''MULTI'']) w = (?w1, writeOK)" using serverDispatch_multi [OF op] .
  have "runQueue (serverDispatch ctx) (vs @ [request [''EXEC'']]) ?w1 =
      (case runQueue (serverDispatch ctx) [request [''EXEC'']] ?w2 of (w', es) \<Rightarrow> (w', replicate (length vs) writeQueued @ es))"
    unfolding runQueue_append q by (simp add: list_all_iff writeQueued_def)
  then have "runQueue (serverDispatch ctx) (request [''MULTI''] # vs @ [request [''EXEC'']]) w =
      (case runQueue (serverDispatch ctx) [request [''EXEC'']] ?w2 of (w', es) \<Rightarrow>
         (w', writeOK # replicate (length vs) writeQueued @ es))"
    by (simp only: runQueue.simps(2) m) (simp split: prod.split)
  then show ?thesis unfolding e by (simp split: prod.split)
qed

lemma runQueue_Dispatch:
  assumes "worldInv w" "MultiQueue (wSession w) = []"
  shows "runQueue (DispatchN 1 ctx) vs w = runQueue (Dispatch ctx) vs w"
  using runQueue_cong [of "Dispatch ctx" "DispatchN 1 ctx" w vs] DispatchN_one [of _ 1 ctx] okDispatch_one [of ctx] assms
  by (simp add: Dispatch_def numeral_2_eq_2 del: DispatchN.simps)


section \<open>Answers\<close>

definition answers :: "handler \<Rightarrow> bool" where
  "answers h \<longleftrightarrow> (\<forall>ctx args w. exit (snd (h ctx args w)) = Done \<longrightarrow> length (replies (snd (h ctx args w))) = 1)"

lemma goodCmd_answers:
  "goodCmd h \<Longrightarrow> exit (snd (h now args s)) = Done \<Longrightarrow> length (replies (snd (h now args s))) = 1"
proof -
  assume "goodCmd h" and d: "exit (snd (h now args s)) = Done"
  then have "oneReply (snd (h now args s))" unfolding goodCmd_def by (metis goodResult_pair prod.collapse)
  with d show ?thesis by (auto simp: oneReply_def)
qed

lemma answers_onStore: "goodCmd h \<Longrightarrow> answers (onStore h)"
  by (simp add: answers_def onStore_def goodCmd_answers split_beta)

lemma answers_float:
  "answers (\<lambda>ctx. onStore (cmdIncrByFloat (ctxFloat ctx)) ctx)"
  "answers (\<lambda>ctx. onStore (cmdHIncrByFloat (ctxFloat ctx)) ctx)"
  by (simp_all add: answers_def onStore_def goodCmd_answers good_floats split_beta)

lemma replies_simps [simp]:
  "length (replies (writeErr m)) = 1" "length (replies (writeSimple m)) = 1" "length (replies writeOK) = 1"
  "length (replies writeBulkNil) = 1" "length (replies (writeBulk b)) = 1" "length (replies (writeInt n)) = 1"
  "length (replies (writeArray vs)) = 1" "length (replies (reply v)) = 1" "replies (replicating ps e) = replies e"
  "replies (andThen e1 e2) = replies e2"
  by (simp_all add: writeErr_def writeSimple_def writeOK_def writeBulkNil_def writeBulk_def writeInt_def writeArray_def
      replicating_def reply_def silent_def andThen_def split: option.split)

lemma answers_others:
  shows "answers cmdPing" "answers cmdEcho" "answers cmdTime" "answers cmdInfo" "answers cmdCommand"
    "answers cmdPublish" "answers cmdAuth" "answers cmdSelect" "answers cmdClient"
    "answers cmdMulti" "answers cmdDiscard" "answers cmdUnwatch" "answers cmdWatch" "answers cmdFlushDB" "answers cmdFlushAll"
  by (auto simp: answers_def cmdPing_def cmdEcho_def cmdTime_def cmdInfo_def cmdCommand_def cmdPublish_def
      cmdAuth_def cmdSelect_def cmdClient_def cmdMulti_def cmdDiscard_def cmdUnwatch_def cmdWatch_def cmdFlushDB_def cmdFlushAll_def
      flushClusterDB_def Let_def split: sum.split)

lemma execLoop_answers:
  "exit (snd (execLoop d elems queue w)) = Done \<Longrightarrow> length (replies (snd (execLoop d elems queue w))) = 1"
  by (induction queue arbitrary: elems w) (auto simp: split_beta split: sum.splits if_splits)

lemma answers_exec: "answers cmdExec"
  by (auto simp: answers_def cmdExec_def Let_def execLoop_answers)

definition subscriptionNames :: "bytes list" where
  "subscriptionNames = [''subscribe'', ''psubscribe'', ''unsubscribe'', ''punsubscribe'']"

lemma builtins_answer: "\<forall>(meta, h)\<in>set builtins. lowerName (metaName meta) \<in> set subscriptionNames \<or> answers h"
  by (simp add: builtins_def registerStringCommands_def registerHashCommands_def registerListCommands_def
      registerSetCommands_def registerGenericCommands_def registerServerCommands_def registerPubSubCommands_def
      registerTransactionCommands_def reg_def answers_onStore good answers_float answers_others answers_exec
      subscriptionNames_def lowerName_ascii is_ascii_def toLower_letters del: lowerName.simps)

lemma Lookup_name: "Lookup NewRegistry name = Some mh \<Longrightarrow> lowerName (metaName (fst mh)) = lowerName name"
  by (auto simp: Lookup_def NewRegistry_def lookup_registered find_Some_iff split: option.splits)

lemma Dispatch_answers:
  assumes "ValueToArgs v = Some (a # args)" "lowerName (bytesToStr a) \<notin> set subscriptionNames"
    and "exit (snd (Dispatch ctx v w)) = Done"
  shows "length (replies (snd (Dispatch ctx v w))) = 1"
proof (cases "Lookup NewRegistry (bytesToStr a)")
  case None
  with assms(1) show ?thesis by (simp add: Dispatch_def numeral_2_eq_2)
next
  case (Some mh)
  obtain meta h where mh: "mh = (meta, h)" by (cases mh)
  have "lowerName (metaName meta) = lowerName (bytesToStr a)" using Lookup_name [OF Some] mh by simp
  then have "answers h" using builtins_answer Lookup_builtin [OF Some] assms(2) mh by auto
  then show ?thesis
    using assms(1,3) Dispatch_found [OF assms(1) Some [unfolded mh], of ctx w] by (auto simp: answers_def split: option.splits)
qed









section \<open>What a client may rely on\<close>

text \<open>A server without data and its first client.\<close>

definition sampleInfo :: InfoProvider where
  "sampleInfo =
     \<lparr>TCPPort = 6379, UptimeSeconds = 0, ConnectedClients = 1, TotalConnections = 1, TotalCommands = 0, OpsPerSec = 0,
      KeyspaceHits = 0, KeyspaceMisses = 0, ConnectedPeers = 0, PeerAddresses = [], NodeID = ''n1'', BootstrapState = ''ready'',
      ReplicationDropped = 0, ReplicationSendErrors = 0, ReplicationMissedEvents = 0, ServerVersion = ''1.0'', osName = ''linux'',
      archName = ''amd64'', processID = 1, executablePath = ''/supercache''\<rparr>"

definition sampleContext :: "bytes \<Rightarrow> CommandContext" where
  "sampleContext pw =
     \<lparr>ctxNow = 7, ctxConfig = zeroConfig\<lparr>AuthPassword := pw\<rparr>, ctxInfo = sampleInfo,
      ctxFloat = \<lparr>floatParse = \<lambda>_. None, floatAdd = (+), floatFormat = \<lambda>_. []\<rparr>,
      ctxLower = lowerName, ctxCommands = [], ctxDispatch = \<lambda>v w. (w, silent)\<rparr>"

definition sampleEnv :: "bytes \<Rightarrow> nat \<Rightarrow> server_flags \<times> CommandContext" where
  "sampleEnv pw n = (\<lparr>clientReady = True, shuttingDown = False\<rparr>, sampleContext pw)"

definition freshWorld :: world where
  "freshWorld = \<lparr>wStore = freshStore, wSession = NewSession 0 1 ''10.0.0.9:4000'', wPubSub = NewSubscriptionManager\<rparr>"

lemma freshWorld_facts:
  shows "worldInv freshWorld" "\<not> Authenticated (wSession freshWorld)" "\<not> InMulti (wSession freshWorld)"
    "\<not> InSubscribeMode (wSession freshWorld)" "MultiQueue (wSession freshWorld) = []" "\<not> watchBroken freshWorld"
    "\<not> needAuth (ctxConfig (sampleContext [])) (wSession freshWorld)" "wStore freshWorld = freshStore"
    "sessID (wSession freshWorld) = 1" "wPubSub freshWorld = NewSubscriptionManager"
  using freshStore_facts(1)
  by (auto simp: freshWorld_def worldInv_def managerOk_def subsOk_def sessionOk_def NewSession_def NewSubscriptionManager_def
      subscribers_def InSubscribeMode_def watchBroken_def needAuth_def sampleContext_def trimSpace_def zeroConfig_def)

lemma wfValue_request: "wfValue (request ws) \<longleftrightarrow> int (length ws) \<le> MaxArrayElements \<and> (\<forall>x\<in>set ws. int (length x) \<le> MaxBulkBytes)"
  by (auto simp: request_def)

lemma serveValue_exit:
  assumes "worldInv w" and "serveValue fl ctx v w = (w', e, b)"
  shows "exit e \<noteq> OutOfFuel \<and> (b \<longrightarrow> exit e = Done)"
  using serverDispatch_ok [OF assms(1), of ctx v] assms(2)
  by (auto simp: serveValue_def Let_def split: if_splits prod.splits)

lemma serveAll_exits:
  "worldInv w \<Longrightarrow> list_all (\<lambda>e. exit e = Done) es \<Longrightarrow> serveAll env n vs w es = (w', es') \<Longrightarrow>
   list_all (\<lambda>e. exit e = Done) (butlast es') \<and> (es' \<noteq> [] \<longrightarrow> exit (last es') \<noteq> OutOfFuel)"
proof (induction vs arbitrary: n w es)
  case Nil
  then show ?case by (auto simp: list_all_iff in_set_butlastD)
next
  case (Cons v vs)
  obtain fl ctx where env: "env n = (fl, ctx)" by (cases "env n")
  obtain w1 e b where v: "serveValue fl ctx v w = (w1, e, b)" by (cases "serveValue fl ctx v w")
  have "worldInv w1" using serveValue_ok [OF Cons.prems(1), of fl ctx v] v by (simp add: connStep_def)
  with Cons.IH [of w1 "es @ [e]" "Suc n"] serveValue_exit [OF Cons.prems(1) v] Cons.prems env v show ?case
    by (cases b) auto
qed

lemma serveConn_cases:
  assumes "serveConn env inp w = (w', es)"
  obtains w1 where "serveAll env 0 (requests inp) w [] = (w1, es)"
    "wStore w' = wStore w1" "es \<noteq> [] \<and> exit (last es) = Deadlocked \<Longrightarrow> w' = w1"
    "\<not> (es \<noteq> [] \<and> exit (last es) = Deadlocked) \<Longrightarrow> wPubSub w' = RemoveSessionFromAll (sessID (wSession w1)) (wPubSub w1)"
proof -
  obtain w1 es1 where "serveAll env 0 (requests inp) w [] = (w1, es1)" by (cases "serveAll env 0 (requests inp) w []")
  with assms show ?thesis
    by (intro that [of w1]) (auto simp: serveConn_def serveLoop_requests requests_def split: if_splits)
qed

text \<open>C1. Whatever bytes a client sends, the server stays in order: the store stays well formed and has
  changed by calls only, no subscription list is empty or has duplicates, every request but the last
  returned normally, no dispatch ran out of its depth, and when the connection is over the client is
  subscribed to nothing, unless its last command is stuck.\<close>

theorem connection_invariant:
  assumes "worldInv w" and "serveConn env inp w = (w', es)"
  shows "storeInv (wStore w') \<and> reached (wStore w) (wStore w') \<and> managerOk (wPubSub w') \<and>
    list_all (\<lambda>e. exit e = Done) (butlast es) \<and> (es \<noteq> [] \<longrightarrow> exit (last es) \<noteq> OutOfFuel) \<and>
    (es = [] \<or> exit (last es) \<noteq> Deadlocked \<longrightarrow>
       (\<forall>ch. sessID (wSession w) \<notin> set (subscribers (chans (wPubSub w')) ch) \<and>
             sessID (wSession w) \<notin> set (subscribers (psubs (wPubSub w')) ch)))"
proof -
  obtain w1 where a: "serveAll env 0 (requests inp) w [] = (w1, es)" "wStore w' = wStore w1"
    "es \<noteq> [] \<and> exit (last es) = Deadlocked \<Longrightarrow> w' = w1"
    "\<not> (es \<noteq> [] \<and> exit (last es) = Deadlocked) \<Longrightarrow> wPubSub w' = RemoveSessionFromAll (sessID (wSession w1)) (wPubSub w1)"
    using serveConn_cases [OF assms(2)] by metis
  have s: "connStep w w1"
    using serveLoop_ok [OF assms(1), of "Suc (length inp)" env 0 inp "[]"] a(1) by (simp add: serveLoop_requests requests_def)
  then have i: "worldInv w1" "reached (wStore w) (wStore w1)" "sessID (wSession w1) = sessID (wSession w)"
    by (simp_all add: connStep_def)
  note e = serveAll_exits [OF assms(1) _ a(1)]
  show ?thesis
  proof (cases "es \<noteq> [] \<and> exit (last es) = Deadlocked")
    case True
    then show ?thesis using i a(2) a(3) [OF True] e by (auto simp: worldInv_def)
  next
    case False
    then show ?thesis using i a(2) a(4) [OF False] e remove_step [OF i(1) refl] by (auto simp: worldInv_def)
  qed
qed

theorem connection_invariant_witness:
  "storeInv (wStore (fst (serveConn (sampleEnv []) (replyBytes [request [''SET'', ''k'', ''v''], request [''MULTI'']]) freshWorld)))"
  using connection_invariant [OF freshWorld_facts(1), of "sampleEnv []" "replyBytes [request [''SET'', ''k'', ''v''], request [''MULTI'']]"]
  by (metis prod.collapse)

text \<open>C3. Without the password nothing can be done: while a password is set, a client whose requests never
  are of the form \<^verbatim>\<open>command password\<close> leaves the store as it is, replicates nothing and
  publishes nothing.\<close>

theorem auth_required:
  assumes "\<forall>n. AuthPassword (ctxConfig (snd (env n))) = pw" and "trimSpace pw \<noteq> []"
    and "\<not> Authenticated (wSession w)" and "serveConn env inp w = (w', es)"
    and "\<forall>v\<in>set (requests inp). \<forall>a. ValueToArgs v \<noteq> Some [a, Some pw]"
  shows "wStore w' = wStore w \<and> (\<forall>e\<in>set es. sent e = [] \<and> pushed e = [])"
proof -
  obtain w1 where a: "serveAll env 0 (requests inp) w [] = (w1, es)" "wStore w' = wStore w1"
    using serveConn_cases [OF assms(4)] by metis
  show ?thesis using serveAll_unauthenticated [OF assms(1,2,5,3) a(1)] a(2) by simp
qed

lemma requests_two:
  "requests (replyBytes [request [''SET'', ''k'', ''v''], request [''AUTH'', ''guess'']]) =
     [request [''SET'', ''k'', ''v''], request [''AUTH'', ''guess'']]"
  by (rule requests_written) (simp add: wfValue_request MaxArrayElements_def MaxBulkBytes_def)

theorem auth_required_witness:
  "wStore (fst (serveConn (sampleEnv ''secret'') (replyBytes [request [''SET'', ''k'', ''v''], request [''AUTH'', ''guess'']]) freshWorld)) =
     freshStore"
proof -
  have "trimSpace ''secret'' \<noteq> []" using trimSpace_graph [of "''secret''"] by (simp add: is_graph_def)
  moreover have "\<forall>n. AuthPassword (ctxConfig (snd (sampleEnv ''secret'' n))) = ''secret''"
    by (simp add: sampleEnv_def sampleContext_def)
  ultimately show ?thesis
    using auth_required [of "sampleEnv ''secret''" "''secret''" freshWorld
        "replyBytes [request [''SET'', ''k'', ''v''], request [''AUTH'', ''guess'']]", OF _ _ freshWorld_facts(2) prod.collapse [symmetric]]
      freshWorld_facts(8)
    by (simp add: requests_two)
qed

text \<open>C4. A transaction is the sequence of its commands.  A client that sends \<^verbatim>\<open>MULTI\<close>, then any commands that
  may be queued, and \<^verbatim>\<open>EXEC\<close>, gets \<^verbatim>\<open>OK\<close>, \<^verbatim>\<open>QUEUED\<close> for every command, and at the end the array of the
  replies the commands give when they are dispatched one after the other; the server is left as those
  dispatches leave it, and exactly what they replicate and push is replicated and pushed, in their
  order.  The watched keys must be unchanged and the replies such as the parser reads back; of a command
  that writes several values \<^verbatim>\<open>EXEC\<close> returns the first.\<close>

theorem transaction_is_sequence:
  assumes "worldInv w" and "\<not> needAuth (ctxConfig ctx) (wSession w)" "\<not> InMulti (wSession w)" "\<not> InSubscribeMode (wSession w)"
    and "\<not> watchBroken w" and "list_all queueable vs" "length vs \<le> maxMultiQueueLen"
    and "runQueue (Dispatch ctx) vs (leaveMulti w) = (w', es)" and "list_all answered es"
  shows "runQueue (serverDispatch ctx) (request [''MULTI''] # vs @ [request [''EXEC'']]) w =
    (w', writeOK # replicate (length vs) writeQueued @ [execEffect [] es])"
proof -
  have "runQueue (DispatchN 1 ctx) vs (leaveMulti w) = (w', es)"
    using runQueue_Dispatch [OF leaveMulti_inv(1) [OF assms(1)] leaveMulti_inv(2)] assms(8) by simp
  from execLoop_runQueue [OF this assms(9), of "[]"] transaction_runs [OF assms(1-4,6,7)] assms(5)
  show ?thesis by simp
qed

lemma Lookup_own: "mh \<in> set builtins \<Longrightarrow> metaName (fst mh) = name \<Longrightarrow> Lookup NewRegistry name = Some mh"
  by (rule Lookup_registered) simp_all

lemma Lookup_ping: "Lookup NewRegistry ''PING'' = Some (reg ''PING'' 0 FlagRead cmdPing)"
  by (rule Lookup_own; simp add: builtins_def registerServerCommands_def reg_def)

lemma Dispatch_ping:
  "\<not> InSubscribeMode (wSession w) \<Longrightarrow> Dispatch ctx (request [''PING'']) w = (w, writeSimple ''PONG'')"
  using Dispatch_found [of "request [''PING'']" "Some ''PING''" "[]" _ _ ctx w] Lookup_ping
  by (simp add: bytesToStr_def reg_def cmdPing_def)

lemma queueable_ping: "queueable (request [''PING''])"
proof -
  have "upperName ''PING'' = ''PING''" by code_simp
  then show ?thesis by (simp add: queueable_def bytesToStr_def del: upperName.simps)
qed

lemma leave_fresh: "\<not> InSubscribeMode (wSession (leaveMulti freshWorld))"
  using freshWorld_facts(4) by (simp add: leaveMulti_def onSession_def InSubscribeMode_def)

lemma answered_pong: "answered (writeSimple ''PONG'')"
  by (simp add: answered_def writeSimple_def reply_def silent_def maxLineBytes_def)

theorem transaction_is_sequence_witness:
  "runQueue (serverDispatch (sampleContext [])) [request [''MULTI''], request [''PING''], request [''EXEC'']] freshWorld =
     (leaveMulti freshWorld, [writeOK, writeQueued, execEffect [] [writeSimple ''PONG'']])"
  using transaction_is_sequence [OF freshWorld_facts(1,7,3,4,6), of "[request [''PING'']]" "leaveMulti freshWorld" "[writeSimple ''PONG'']"]
    Dispatch_ping [OF leave_fresh, of "sampleContext []"]
  by (simp add: queueable_ping maxMultiQueueLen_def answered_pong)

text \<open>C12. A transaction whose watched keys have changed does nothing: if the version of a key the client watches
  is not the one it saw, \<^verbatim>\<open>EXEC\<close> answers with the null array, dispatches none of the commands, leaves the
  store and the subscriptions as they are, and the client is no longer in a transaction.\<close>

theorem changed_watch_aborts:
  assumes "\<not> needAuth (ctxConfig ctx) (wSession w)" and "InMulti (wSession w)"
    and "(k, ver) \<in> set (WatchedKeys (wSession w))" and "WatchVersion (wStore w) k \<noteq> ver"
    and "serverDispatch ctx (request [''EXEC'']) w = (w', e)"
  shows "e = reply nullArrayV \<and> wStore w' = wStore w \<and> wPubSub w' = wPubSub w \<and>
    \<not> InMulti (wSession w') \<and> MultiQueue (wSession w') = [] \<and> WatchedKeys (wSession w') = []"
proof -
  have u: "upperName ''EXEC'' = ''EXEC''" by code_simp
  have "watchBroken w" using assms(3,4) by (auto simp: watchBroken_def list_ex_iff)
  moreover have "serverDispatch ctx (request [''EXEC'']) w = (leaveMulti w, reply nullArrayV)"
    using serverDispatch_exec [of "request [''EXEC'']" "Some ''EXEC''" ctx w] assms(1,2) calculation
    by (simp add: u bytesToStr_def del: upperName.simps)
  ultimately show ?thesis using assms(5) by (auto simp: leaveMulti_def onSession_def)
qed

definition watchingWorld :: world where
  "watchingWorld = freshWorld\<lparr>wSession := (wSession freshWorld)\<lparr>InMulti := True, WatchedKeys := [(''k'', WatchVersion freshStore ''k'' + 1)]\<rparr>\<rparr>"

theorem changed_watch_aborts_witness:
  "snd (serverDispatch (sampleContext []) (request [''EXEC'']) watchingWorld) = reply nullArrayV"
proof -
  have "\<not> needAuth (ctxConfig (sampleContext [])) (wSession watchingWorld)"
    using freshWorld_facts(7) by (simp add: watchingWorld_def needAuth_def)
  from changed_watch_aborts [OF this _ _ _ prod.collapse [symmetric], of "''k''" "WatchVersion freshStore ''k'' + 1"] show ?thesis
    using freshWorld_facts(8) by (simp add: watchingWorld_def)
qed

text \<open>C14. Pipelining.  However many requests a client has sent before it reads, the connection loop serves them one
  by one, in their order, each in the world the one before has left, until one ends the connection;
  nothing between two requests is lost or read twice, and as many rounds as there are bytes are enough.\<close>

theorem pipelined_in_order:
  assumes "list_all wfValue vs" and "length (replyBytes vs) < f"
  shows "serveLoop f env 0 (replyBytes vs) w [] = serveAll env 0 vs w []"
  using serveLoop_enough [OF assms(2), of env 0 w "[]"] requests_written [OF assms(1)]
  by (simp add: serveLoop_requests requests_def)

theorem pipelined_in_order_witness:
  "serveLoop (Suc (length (replyBytes [request [''PING''], request [''ECHO'', ''x'']]))) (sampleEnv []) 0 (replyBytes [request [''PING''], request [''ECHO'', ''x'']]) freshWorld [] =
     serveAll (sampleEnv []) 0 [request [''PING''], request [''ECHO'', ''x'']] freshWorld []"
proof (rule pipelined_in_order)
  show "list_all wfValue [request [''PING''], request [''ECHO'', ''x'']]"
    by (simp add: wfValue_request MaxArrayElements_def MaxBulkBytes_def)
qed simp

text \<open>C13. Every request is answered.  When the connection stays open after a request, exactly one value has been
  handed to the writer for it, whatever the command and its arguments, known or not, queued or refused; only the
  commands that subscribe and unsubscribe answer once for every channel.\<close>

theorem every_request_answered:
  assumes "serveValue fl ctx v w = (w', e, True)" and "ValueToArgs v = Some (a # args)"
    and "lowerName (bytesToStr a) \<notin> set subscriptionNames"
  shows "length (replies e) = 1"
proof (cases "clientReady fl")
  case True
  obtain w1 e1 where d: "serverDispatch ctx v w = (w1, e1)" by (cases "serverDispatch ctx v w")
  then have "e = e1" "exit e1 = Done" using assms(1) True by (auto simp: serveValue_def Let_def split: if_splits)
  moreover have "length (replies e1) = 1" if "Dispatch ctx v w = (w1, e1)"
    using Dispatch_answers [OF assms(2,3), of ctx w] that calculation by simp
  ultimately show ?thesis
    using d assms(2) by (auto simp: serverDispatch_def Let_def writeQueued_def split: if_splits)
qed (use assms in \<open>auto simp: serveValue_def\<close>)

theorem every_request_answered_witness:
  "length (replies (fst (snd (serveValue \<lparr>clientReady = False, shuttingDown = False\<rparr> (sampleContext []) (request [''PING'']) freshWorld)))) = 1"
proof -
  have "lowerName ''PING'' = ''ping''" by code_simp
  then show ?thesis
    using every_request_answered [of "\<lparr>clientReady = False, shuttingDown = False\<rparr>" "sampleContext []" "request [''PING'']" freshWorld
        freshWorld "writeErr ''LOADING Super-Cache is loading the dataset in memory''" "Some ''PING''" "[]"]
    by (simp add: serveValue_def subscriptionNames_def bytesToStr_def del: lowerName.simps)
qed




lemma publishPatterns_payload:
  "(i, v) \<in> set (publishPatterns channel message seen ps) \<Longrightarrow>
   \<exists>pat subs. (pat, subs) \<in> set ps \<and> i \<in> set subs \<and> pathMatch pat channel = Some True \<and> v = pMessage pat channel message \<and> i \<notin> set seen"
proof (induction channel message seen ps rule: publishPatterns.induct)
  case (2 channel message seen pat subs ps)
  show ?case
  proof (cases "pathMatch pat channel = Some True")
    case True
    let ?out = "publishTo (pMessage pat channel message) seen subs"
    have out: "fst ` set ?out = set subs - set seen" "\<forall>(i, w)\<in>set ?out. w = pMessage pat channel message"
      using publishTo_spec [of "pMessage pat channel message" seen subs] by blast+
    from 2(3) True consider "(i, v) \<in> set ?out" | "(i, v) \<in> set (publishPatterns channel message (map fst ?out @ seen) ps)"
      by (auto simp: Let_def)
    then show ?thesis
    proof cases
      case 1
      then have "i \<in> fst ` set ?out" by force
      with 1 out True show ?thesis by (intro exI [of _ pat] exI [of _ subs]) auto
    next
      case 2
      from "2.IH"(1) [OF True refl this] show ?thesis by auto
    qed
  next
    case False
    with 2 show ?thesis by auto
  qed
qed simp

text \<open>What a session is sent: the message of the channel when it subscribed to the channel, and otherwise the message of one of
  its patterns.\<close>

lemma Publish_payload:
  assumes "subsOk (psubs m)" and p: "(i, v) \<in> set (Publish m channel message)"
  shows "if i \<in> set (subscribers (chans m) channel) then v = pubSubMessage channel message
    else \<exists>pat. i \<in> set (subscribers (psubs m) pat) \<and> pathMatch pat channel = Some True \<and> v = pMessage pat channel message"
proof -
  let ?out = "publishTo (pubSubMessage channel message) [] (subscribers (chans m) channel)"
  have out: "fst ` set ?out = set (subscribers (chans m) channel)" "\<forall>(i, w)\<in>set ?out. w = pubSubMessage channel message"
    using publishTo_spec [of "pubSubMessage channel message" "[]" "subscribers (chans m) channel"] by auto
  from p consider "(i, v) \<in> set ?out" | "(i, v) \<in> set (publishPatterns channel message (map fst ?out) (psubs m))"
    by (auto simp: Publish_def Let_def)
  then show ?thesis
  proof cases
    case 1
    then have "i \<in> fst ` set ?out" by force
    with 1 out show ?thesis by auto
  next
    case 2
    from publishPatterns_payload [OF this] out(1) obtain pat subs where s: "(pat, subs) \<in> set (psubs m)" "i \<in> set subs"
      "pathMatch pat channel = Some True" "v = pMessage pat channel message" "i \<notin> set (subscribers (chans m) channel)" by auto
    have "subscribers (psubs m) pat = subs" using assms(1) s(1) by (auto simp: subsOk_def subscribers_def dest: map_of_is_SomeI)
    with s show ?thesis by auto
  qed
qed

lemma patternSubs_member:
  "subsOk m \<Longrightarrow> i \<in> patternSubs ch m \<Longrightarrow> \<exists>pat. i \<in> set (subscribers m pat)"
  by (fastforce simp: patternSubs_def subsOk_def subscribers_def dest: map_of_is_SomeI)

text \<open>C15. A message published by a session that has no subscription itself reaches every session that is subscribed to the channel or
  to a pattern that matches it, each exactly once, and the publisher is told how many there are.  A
  subscriber of the channel is sent the array \<^verbatim>\<open>message\<close>, channel, message; one that only a pattern matches is sent
  \<^verbatim>\<open>pmessage\<close>, that pattern, channel, message.\<close>

theorem publish_reaches_subscribers:
  assumes "worldInv w" and "\<not> InSubscribeMode (wSession w)"
  shows "\<exists>e. cmdPublish ctx [a, Some channel, Some message] w = (w, e) \<and> exit e = Done \<and>
    distinct (map fst (pushed e)) \<and>
    fst ` set (pushed e) = set (subscribers (chans (wPubSub w)) channel) \<union> patternSubs channel (psubs (wPubSub w)) \<and>
    (\<forall>(i, v)\<in>set (pushed e).
       if i \<in> set (subscribers (chans (wPubSub w)) channel) then v = arrayV [bulkV ''message'', bulkV channel, bulkV message]
       else \<exists>pat. i \<in> set (subscribers (psubs (wPubSub w)) pat) \<and> pathMatch pat channel = Some True \<and>
              v = arrayV [bulkV ''pmessage'', bulkV pat, bulkV channel, bulkV message]) \<and>
    replies e = [intV (int (card (set (subscribers (chans (wPubSub w)) channel) \<union> patternSubs channel (psubs (wPubSub w)))))]"
proof -
  let ?out = "Publish (wPubSub w) channel message"
  have "sessID (wSession w) \<notin> set (subscribers (chans (wPubSub w)) channel)"
    "\<And>pat. sessID (wSession w) \<notin> set (subscribers (psubs (wPubSub w)) pat)"
    using assms by (auto simp: worldInv_def sessionOk_def InSubscribeMode_def)
  moreover have ok: "subsOk (psubs (wPubSub w))" using assms(1) by (simp add: worldInv_def managerOk_def)
  ultimately have "sessID (wSession w) \<notin> fst ` set ?out"
    using patternSubs_member [of "psubs (wPubSub w)" "sessID (wSession w)" channel] by (auto simp only: Publish_spec(2))
  then have e: "cmdPublish ctx [a, Some channel, Some message] w = (w, (writeInt (int (length ?out)))\<lparr>pushed := ?out\<rparr>)"
    by (simp add: cmdPublish_def bytesToStr_def Let_def)
  have "\<forall>(i, v)\<in>set ?out.
       if i \<in> set (subscribers (chans (wPubSub w)) channel) then v = arrayV [bulkV ''message'', bulkV channel, bulkV message]
       else \<exists>pat. i \<in> set (subscribers (psubs (wPubSub w)) pat) \<and> pathMatch pat channel = Some True \<and>
              v = arrayV [bulkV ''pmessage'', bulkV pat, bulkV channel, bulkV message]"
    using Publish_payload [OF ok, of _ _ channel message] unfolding pubSubMessage_def pMessage_def by blast
  then show ?thesis
    using Publish_spec [of "wPubSub w" channel message] unfolding e by (simp add: writeInt_def reply_def silent_def)
qed

theorem publish_reaches_subscribers_witness:
  "\<exists>e. cmdPublish (sampleContext []) [Some ''PUBLISH'', Some ''news'', Some ''m''] (freshWorld\<lparr>wPubSub := Subscribe ''news'' 2 NewSubscriptionManager\<rparr>) =
     (freshWorld\<lparr>wPubSub := Subscribe ''news'' 2 NewSubscriptionManager\<rparr>, e) \<and> replies e = [intV 1] \<and>
     pushed e = [(2, arrayV [bulkV ''message'', bulkV ''news'', bulkV ''m''])]"
proof -
  let ?w = "freshWorld\<lparr>wPubSub := Subscribe ''news'' 2 NewSubscriptionManager\<rparr>"
  have "managerOk (wPubSub ?w)" using manager_ops_ok(1) freshWorld_facts(1) by (simp add: worldInv_def freshWorld_facts(10))
  moreover have "sessionOk (wSession ?w) (wPubSub ?w)"
    using freshWorld_facts(1)
    by (auto simp: worldInv_def sessionOk_def freshWorld_facts Subscribe_def subscribers_addSub)
  ultimately have "worldInv ?w" "\<not> InSubscribeMode (wSession ?w)"
    using freshWorld_facts(1,4) by (simp_all add: worldInv_def)
  from publish_reaches_subscribers [OF this, of "sampleContext []" "Some ''PUBLISH''" "''news''" "''m''"]
  obtain e where e: "cmdPublish (sampleContext []) [Some ''PUBLISH'', Some ''news'', Some ''m''] ?w = (?w, e)" "replies e = [intV 1]"
    "distinct (map fst (pushed e))" "fst ` set (pushed e) = {2}"
    and v: "\<And>v. (2, v) \<in> set (pushed e) \<Longrightarrow> v = arrayV [bulkV ''message'', bulkV ''news'', bulkV ''m'']"
    by (fastforce simp: Subscribe_def addSub_def NewSubscriptionManager_def subscribers_def)
  have "length (pushed e) = 1" using e(3,4) distinct_card [of "map fst (pushed e)"] by simp
  then obtain p where "pushed e = [p]" by (auto simp: length_Suc_conv)
  with e v show ?thesis by (cases p) auto
qed

lemma Dispatch_pubsub:
  shows "Dispatch ctx (request [''SUBSCRIBE'', ch]) w = cmdSubscribe (inner ctx) [Some ''SUBSCRIBE'', Some ch] w"
    "Dispatch ctx (request [''PUBLISH'', ch, m]) w = cmdPublish (inner ctx) [Some ''PUBLISH'', Some ch, Some m] w"
proof -
  have l: "Lookup NewRegistry ''SUBSCRIBE'' = Some (reg ''SUBSCRIBE'' (- 2) FlagRead cmdSubscribe)"
    "Lookup NewRegistry ''PUBLISH'' = Some (reg ''PUBLISH'' 3 FlagWrite cmdPublish)"
    by (rule Lookup_own; simp add: builtins_def registerPubSubCommands_def reg_def)+
  show "Dispatch ctx (request [''SUBSCRIBE'', ch]) w = cmdSubscribe (inner ctx) [Some ''SUBSCRIBE'', Some ch] w"
    using Dispatch_found [of "request [''SUBSCRIBE'', ch]" "Some ''SUBSCRIBE''" "[Some ch]" _ _ ctx w] l(1)
    by (simp add: bytesToStr_def reg_def CheckArity_def)
  show "Dispatch ctx (request [''PUBLISH'', ch, m]) w = cmdPublish (inner ctx) [Some ''PUBLISH'', Some ch, Some m] w"
    using Dispatch_found [of "request [''PUBLISH'', ch, m]" "Some ''PUBLISH''" "[Some ch, Some m]" _ _ ctx w] l(2)
    by (simp add: bytesToStr_def reg_def CheckArity_def)
qed

text \<open>C21. A client can block itself, and with it every other publisher: a transaction that subscribes to a channel and
  publishes to it never returns from \<^verbatim>\<open>EXEC\<close>, because the message is pushed to the session whose output
  lock the connection loop holds.\<close>

theorem publish_to_self_blocks:
  assumes inv: "worldInv w" and "\<not> needAuth (ctxConfig ctx) (wSession w)" "InMulti (wSession w)" "\<not> watchBroken w"
    "\<not> InSubscribeMode (wSession w)" and ch: "int (length ch) \<le> MaxBulkBytes"
    and q: "MultiQueue (wSession w) = [request [''SUBSCRIBE'', ch], request [''PUBLISH'', ch, m]]"
  shows "exit (snd (serverDispatch ctx (request [''EXEC'']) w)) = Deadlocked"
proof -
  let ?w = "leaveMulti w"
  let ?w1 = "fst (subscribeOne ch ?w)"
  have no: "SubChannels (wSession ?w) = []" "PSubPatterns (wSession ?w) = []"
    using assms(5) by (simp_all add: leaveMulti_def onSession_def InSubscribeMode_def)
  have u: "upperName ''EXEC'' = ''EXEC''" by code_simp
  have "serverDispatch ctx (request [''EXEC'']) w = execLoop (DispatchN 1 ctx) [] (MultiQueue (wSession w)) ?w"
    using serverDispatch_exec [of "request [''EXEC'']" "Some ''EXEC''" ctx w] assms(2-4) by (simp add: u bytesToStr_def del: upperName.simps)
  also have "\<dots> = execLoop (Dispatch ctx) [] (MultiQueue (wSession w)) ?w"
    using execLoop_cong [of "Dispatch ctx" "DispatchN 1 ctx" ?w] DispatchN_one [of _ 1 ctx] okDispatch_one [of ctx] leaveMulti_inv [of w] inv
    by (simp add: Dispatch_def numeral_2_eq_2 del: DispatchN.simps)
  finally have e: "serverDispatch ctx (request [''EXEC'']) w = execLoop (Dispatch ctx) [] (MultiQueue (wSession w)) ?w" .
  have s: "Dispatch ctx (request [''SUBSCRIBE'', ch]) ?w = (?w1, reply (subscribeAck ''subscribe'' ch 1))"
    using no by (simp add: Dispatch_pubsub cmdSubscribe_def acks_def strsFrom_def bytesToStr_def subscribeOne_def Let_def reply_def
        subscriptionCount_def)
  have a: "answered (reply (subscribeAck ''subscribe'' ch 1))"
    using ch by (simp add: answered_def reply_def silent_def subscribeAck_def MaxArrayElements_def MaxBulkBytes_def in_int64_def minInt64_def maxInt64_def)
  have "sessID (wSession ?w1) \<in> fst ` set (Publish (wPubSub ?w1) ch m)"
    by (simp add: Publish_spec(2) subscribeOne_def Let_def Subscribe_def subscribers_addSub)
  then have p: "exit (snd (Dispatch ctx (request [''PUBLISH'', ch, m]) ?w1)) = Deadlocked"
    by (simp add: Dispatch_pubsub cmdPublish_def bytesToStr_def Let_def)
  obtain rest where "Parse (replyBytes (replies (reply (subscribeAck ''subscribe'' ch 1)))) =
      Inr (hd (replies (reply (subscribeAck ''subscribe'' ch 1))), rest)"
    using Parse_replies [OF a] by auto
  then show ?thesis using e s p q by (auto simp: split_beta)
qed

definition blockingWorld :: world where
  "blockingWorld = freshWorld\<lparr>wSession := (wSession freshWorld)\<lparr>InMulti := True,
     MultiQueue := [request [''SUBSCRIBE'', ''c''], request [''PUBLISH'', ''c'', ''m'']]\<rparr>\<rparr>"

theorem publish_to_self_blocks_witness:
  "exit (snd (serverDispatch (sampleContext []) (request [''EXEC'']) blockingWorld)) = Deadlocked"
  using freshWorld_facts
  by (intro publish_to_self_blocks [where ch = "''c''" and m = "''m''"])
    (auto simp: blockingWorld_def worldInv_def sessionOk_def needAuth_def watchBroken_def InSubscribeMode_def MaxBulkBytes_def
      maxMultiQueueLen_def)

end
