(* ===== verification/Store_Spec.thy ===== *)
theory Store_Spec
  imports Store_Calls
begin

text \<open>
  The store as a client sees it: an abstract database, which maps a key to a value and an expiry and
  knows nothing of shards, LRU lists, memory counters, lazily removed entries or the order in which a
  map keeps its keys.  Every method of the store is a short definition here, with its answer.  The
  theorem of this theory is a simulation: without a memory limit any history of calls leads the store
  and the database to corresponding states and gives the same answers.
\<close>


section \<open>The abstract database\<close>

datatype aval =
    DString bytes
  | DHash "bytes \<rightharpoonup> bytes"
  | DList "bytes list"
  | DSet "bytes set"

type_synonym database = "bytes \<rightharpoonup> aval \<times> time"

datatype answer =
    Nothing
  | Failure store_error
  | Number int
  | Flag bool
  | Text "bytes option"
  | Texts "bytes option list"
  | Elements "bytes list option"
  | SetItems "bytes set option"
  | HashItems "(bytes \<rightharpoonup> bytes) option"
  | Float "64 word"

fun absValue :: "dvalue \<Rightarrow> aval" where
  "absValue (VString b) = DString b"
| "absValue (VHash h) = DHash (mapGet h)"
| "absValue (VList l) = DList l"
| "absValue (VSet st) = DSet (set st)"

definition dbOf :: "time \<Rightarrow> store \<Rightarrow> database" where
  "dbOf now s k = map_option (map_prod absValue id) (view now s k)"

definition alive :: "time \<Rightarrow> time \<Rightarrow> bool" where
  "alive now t \<longleftrightarrow> isZero t \<or> now \<le> t"

text \<open>Writing a key: an expiry in the past removes it at once.\<close>

definition put :: "time \<Rightarrow> bytes \<Rightarrow> aval \<times> time \<Rightarrow> database \<Rightarrow> database" where
  "put now k c d = d(k := if alive now (snd c) then Some c else None)"

definition asString :: "(aval \<times> time) option \<Rightarrow> bytes option res" where
  "asString c = (case c of None \<Rightarrow> Inr None | Some (DString b, _) \<Rightarrow> Inr (Some b) | Some _ \<Rightarrow> Inl ErrWrongType)"

definition asHash :: "(aval \<times> time) option \<Rightarrow> (bytes \<rightharpoonup> bytes) option res" where
  "asHash c = (case c of None \<Rightarrow> Inr None | Some (DHash h, _) \<Rightarrow> Inr (Some h) | Some _ \<Rightarrow> Inl ErrWrongType)"

definition asList :: "(aval \<times> time) option \<Rightarrow> bytes list option res" where
  "asList c = (case c of None \<Rightarrow> Inr None | Some (DList l, _) \<Rightarrow> Inr (Some l) | Some _ \<Rightarrow> Inl ErrWrongType)"

definition asSet :: "(aval \<times> time) option \<Rightarrow> bytes set option res" where
  "asSet c = (case c of None \<Rightarrow> Inr None | Some (DSet st, _) \<Rightarrow> Inr (Some st) | Some _ \<Rightarrow> Inl ErrWrongType)"

definition ttlOf :: "(aval \<times> time) option \<Rightarrow> time" where
  "ttlOf c = (case c of None \<Rightarrow> zeroTime | Some (_, t) \<Rightarrow> t)"

text \<open>A method on a key of one type: a key of another type is an error and nothing changes.\<close>

definition typed :: "'a res \<Rightarrow> ('a \<Rightarrow> database \<times> answer) \<Rightarrow> database \<Rightarrow> database \<times> answer" where
  "typed r f d = (case r of Inl e \<Rightarrow> (d, Failure e) | Inr x \<Rightarrow> f x)"

definition reads :: "'a res \<Rightarrow> ('a \<Rightarrow> answer) \<Rightarrow> database \<Rightarrow> database \<times> answer" where
  "reads r f d = typed r (\<lambda>x. (d, f x)) d"

text \<open>A collection that has become empty is removed.\<close>

definition putList :: "time \<Rightarrow> bytes \<Rightarrow> bytes list \<times> time \<Rightarrow> database \<Rightarrow> database" where
  "putList now k c d = (if fst c = [] then d(k := None) else put now k (DList (fst c), snd c) d)"


section \<open>The methods\<close>

definition specIncr :: "time \<Rightarrow> bytes \<Rightarrow> int \<Rightarrow> database \<Rightarrow> database \<times> answer" where
  "specIncr now k n d =
     typed (case asString (d k) of Inl e \<Rightarrow> Inl e | Inr b \<Rightarrow> intOf (orEmpty b))
       (\<lambda>cur. if in_int64 (cur + n) then (put now k (DString (formatInt (cur + n)), ttlOf (d k)) d, Number (cur + n))
              else (d, Failure ErrIncrOverflow)) d"

definition specMGet :: "bytes list \<Rightarrow> database \<Rightarrow> answer" where
  "specMGet ks d =
     (if \<exists>k\<in>set ks. asString (d k) = Inl ErrWrongType then Failure ErrWrongType
      else Texts (map (\<lambda>k. appendNil (orEmpty (projr (asString (d k))))) ks))"

fun specString :: "time \<Rightarrow> string_call \<Rightarrow> database \<Rightarrow> database \<times> answer" where
  "specString now (CGet k) d = reads (asString (d k)) (\<lambda>b. Text (appendNil (orEmpty b))) d"
| "specString now (CSet k v t) d = (put now k (DString v, t) d, Nothing)"
| "specString now (CSetNX k v t) d =
     (if d k = None then (put now k (DString v, t) d, Flag True) else (d, Flag False))"
| "specString now (CSetXX k v t) d =
     (if d k = None then (d, Flag False) else (put now k (DString v, t) d, Flag True))"
| "specString now (CGetSet k v t) d =
     typed (asString (d k)) (\<lambda>b. (put now k (DString v, t) d, Text (appendNil (orEmpty b)))) d"
| "specString now (CAppend k v) d =
     typed (asString (d k)) (\<lambda>b. (put now k (DString (orEmpty b @ v), ttlOf (d k)) d, Number (int (length (orEmpty b @ v))))) d"
| "specString now (CIncrBy k n) d = specIncr now k (wrap64 n) d"
| "specString now (CDecrBy k n) d = specIncr now k (wrap64 (- wrap64 n)) d"
| "specString now (CMGet ks) d = (d, specMGet ks d)"
| "specString now (CMSet ps) d =
     ((\<lambda>k. case map_of (rev ps) k of None \<Rightarrow> d k | Some v \<Rightarrow> Some (DString v, zeroTime)), Nothing)"
| "specString now (CMSetNX ps) d =
     (if \<exists>k\<in>fst ` set ps. d k \<noteq> None then (d, Flag False)
      else ((\<lambda>k. case map_of (rev ps) k of None \<Rightarrow> d k | Some v \<Rightarrow> Some (DString v, zeroTime)), Flag True))"

text \<open>Reading the time to live of a key in the very moment it ends removes the key.\<close>

definition specTTL :: "(int \<Rightarrow> int) \<Rightarrow> time \<Rightarrow> bytes \<Rightarrow> database \<Rightarrow> database \<times> answer" where
  "specTTL unit now k d =
     (case d k of
        None \<Rightarrow> (d, Number (- 2))
      | Some (_, t) \<Rightarrow>
          if isZero t then (d, Number (- 1))
          else if t \<le> now then (d(k := None), Number (- 2))
          else (d, Number (unit (timeUntil now t))))"

definition specExpireAt :: "time \<Rightarrow> bytes \<Rightarrow> time \<Rightarrow> database \<Rightarrow> database \<times> answer" where
  "specExpireAt now k t d =
     (case d k of None \<Rightarrow> (d, Flag False) | Some (v, _) \<Rightarrow> (put now k (v, t) d, Flag True))"

fun valType :: "aval \<Rightarrow> bytes" where
  "valType (DString _) = ''string''"
| "valType (DHash _) = ''hash''"
| "valType (DList _) = ''list''"
| "valType (DSet _) = ''set''"

definition specType :: "(aval \<times> time) option \<Rightarrow> bytes" where
  "specType c = (case c of None \<Rightarrow> ''none'' | Some (v, _) \<Rightarrow> valType v)"

fun specKeys :: "time \<Rightarrow> key_call \<Rightarrow> database \<Rightarrow> database \<times> answer" where
  "specKeys now (CDel ks) d =
     ((\<lambda>k. if k \<in> set ks then None else d k), Number (int (card {k \<in> set ks. d k \<noteq> None})))"
| "specKeys now (CExists ks) d = (d, Number (int (length (filter (\<lambda>k. d k \<noteq> None) ks))))"
| "specKeys now (CType k) d = (d, Text (Some (specType (d k))))"
| "specKeys now (CRename a b) d =
     (if a = b then (d, Nothing)
      else case d a of None \<Rightarrow> (d, Failure ErrNoSuchKey) | Some c \<Rightarrow> (d(a := None, b \<mapsto> c), Nothing))"
| "specKeys now (CRenameNX a b) d =
     (if a = b then (d, Flag True)
      else case d a of
             None \<Rightarrow> (d, Flag False)
           | Some c \<Rightarrow> if d b \<noteq> None then (d, Flag False) else (d(a := None, b \<mapsto> c), Flag True))"
| "specKeys now (CExpire k n) d =
     (if n \<le> 0 then (d, Failure ErrInvalidExpire) else specExpireAt now k (timeAdd now (durMul n durSecond)) d)"
| "specKeys now (CExpireAt k t) d = specExpireAt now k t d"
| "specKeys now (CTTL k) d = specTTL durSeconds now k d"
| "specKeys now (CTTLMs k) d = specTTL durMilliseconds now k d"
| "specKeys now (CPersist k) d =
     (case d k of None \<Rightarrow> (d, Flag False) | Some (v, t) \<Rightarrow> (d(k \<mapsto> (v, zeroTime)), Flag (\<not> isZero t)))"
| "specKeys now (CScan _ _ _ _) d = (d, Nothing)"
| "specKeys now (CSnapshotEntry ent) d =
     (case snapshotValue ent of
        None \<Rightarrow> (d, Failure (ErrSnapshotType (snapType ent)))
      | Some v \<Rightarrow> (put now (snapKey ent) (absValue v, snd (snapContent now ent)) d, Nothing))"
| "specKeys now (CSampleShards _) d = (d, Nothing)"

definition fieldsOf :: "(bytes \<rightharpoonup> bytes) option \<Rightarrow> bytes \<rightharpoonup> bytes" where
  "fieldsOf h = (case h of None \<Rightarrow> Map.empty | Some m \<Rightarrow> m)"

fun specHash :: "time \<Rightarrow> hash_call \<Rightarrow> database \<Rightarrow> database \<times> answer" where
  "specHash now (CHSet k ps) d =
     (if ps = [] then (d, Number 0)
      else typed (asHash (d k)) (\<lambda>h. (put now k (DHash (fieldsOf h ++ map_of (rev ps)), ttlOf (d k)) d,
             Number (int (card (fst ` set ps - dom (fieldsOf h)))))) d)"
| "specHash now (CHGet k f) d = reads (asHash (d k)) (\<lambda>h. Text (Option.bind (fieldsOf h f) appendNil)) d"
| "specHash now (CHGetAll k) d = reads (asHash (d k)) HashItems d"
| "specHash now (CHDel k fs) d =
     typed (asHash (d k)) (\<lambda>h. case h of
         None \<Rightarrow> (d, Number 0)
       | Some m \<Rightarrow> (let m' = m |` (- set fs)
                   in (d(k := if m' = Map.empty then None else Some (DHash m', ttlOf (d k))),
                       Number (int (card (set fs \<inter> dom m)))))) d"
| "specHash now (CHExists k f) d = reads (asHash (d k)) (\<lambda>h. Flag (fieldsOf h f \<noteq> None)) d"
| "specHash now (CHLen k) d = reads (asHash (d k)) (\<lambda>h. Number (int (card (dom (fieldsOf h))))) d"
| "specHash now (CHSetNX k f v) d =
     typed (asHash (d k)) (\<lambda>h. if fieldsOf h f \<noteq> None then (d, Number 0)
       else (put now k (DHash ((fieldsOf h)(f \<mapsto> v)), ttlOf (d k)) d, Number 1)) d"
| "specHash now (CHIncrBy k f n) d =
     typed (asHash (d k)) (\<lambda>h. typed (case fieldsOf h f of None \<Rightarrow> Inr 0 | Some v \<Rightarrow> intOf v)
       (\<lambda>cur. if in_int64 (cur + wrap64 n)
              then (put now k (DHash ((fieldsOf h)(f \<mapsto> formatInt (cur + wrap64 n))), ttlOf (d k)) d, Number (cur + wrap64 n))
              else (d, Failure ErrIncrOverflow)) d) d"
| "specHash now (CHIncrByFloat fo k f x) d =
     typed (asHash (d k)) (\<lambda>h. typed (case fieldsOf h f of None \<Rightarrow> Inr 0 | Some v \<Rightarrow> floatOf fo v)
       (\<lambda>cur. (put now k (DHash ((fieldsOf h)(f \<mapsto> floatFormat fo (floatAdd fo cur x))), ttlOf (d k)) d,
              Float (floatAdd fo cur x))) d) d"

definition itemsOf :: "bytes list option \<Rightarrow> bytes list" where
  "itemsOf l = (case l of None \<Rightarrow> [] | Some xs \<Rightarrow> xs)"

definition specPush :: "time \<Rightarrow> bytes \<Rightarrow> bytes list \<Rightarrow> bool \<Rightarrow> database \<Rightarrow> database \<times> answer" where
  "specPush now k vs left d =
     typed (asList (d k)) (\<lambda>l. if vs = [] then (d, Number (int (length (itemsOf l))))
       else (put now k (DList (if left then rev vs @ itemsOf l else itemsOf l @ vs), ttlOf (d k)) d,
             Number (int (length (itemsOf l) + length vs)))) d"

text \<open>A change of a list that exists and is not empty.\<close>

definition specShorten :: "bytes \<Rightarrow> answer \<Rightarrow> (bytes list \<Rightarrow> bytes list \<times> answer) \<Rightarrow> database \<Rightarrow> database \<times> answer" where
  "specShorten k none f d =
     typed (asList (d k)) (\<lambda>l. case l of
         None \<Rightarrow> (d, none)
       | Some xs \<Rightarrow> if xs = [] then (d, snd (f []))
                   else (d(k := if fst (f xs) = [] then None else Some (DList (fst (f xs)), ttlOf (d k))), snd (f xs))) d"

definition specPop :: "(nat \<Rightarrow> bytes list \<Rightarrow> bytes list \<times> bytes list) \<Rightarrow> bytes \<Rightarrow> int \<Rightarrow> database \<Rightarrow> database \<times> answer" where
  "specPop pop k n d =
     specShorten k (Elements None)
       (\<lambda>xs. if n > maxSliceCap \<and> xs \<noteq> [] then (xs, Failure PanicMakeSlice)
             else (snd (pop (nat (max 1 n)) xs), Elements (Some (fst (pop (nat (max 1 n)) xs))))) d"

fun specList :: "time \<Rightarrow> list_call \<Rightarrow> database \<Rightarrow> database \<times> answer" where
  "specList now (CLPush k vs) d = specPush now k vs True d"
| "specList now (CRPush k vs) d = specPush now k vs False d"
| "specList now (CLPushX k vs) d = (if d k = None then (d, Number 0) else specPush now k vs True d)"
| "specList now (CRPushX k vs) d = (if d k = None then (d, Number 0) else specPush now k vs False d)"
| "specList now (CLPop k n) d = specPop (\<lambda>n l. (take n l, drop n l)) k n d"
| "specList now (CRPop k n) d = specPop (\<lambda>n l. (take n (rev l), take (length l - n) l)) k n d"
| "specList now (CLLen k) d = reads (asList (d k)) (\<lambda>l. Number (int (length (itemsOf l)))) d"
| "specList now (CLRange k a b) d = reads (asList (d k)) (\<lambda>l. Elements (map_option (lrange a b) l)) d"
| "specList now (CLIndex k i) d = reads (asList (d k)) (\<lambda>l. Text (Option.bind l (lindex i))) d"
| "specList now (CLSet k i v) d =
     typed (asList (d k)) (\<lambda>l. case l of
         None \<Rightarrow> (d, Failure ErrKeyNotFound)
       | Some xs \<Rightarrow> if xs = [] \<or> i \<ge> int (length xs) then (d, Failure ErrListIndex)
                   else (d(k \<mapsto> (DList (xs[nat (normalizeListIndex i (length xs)) := v]), ttlOf (d k))), Nothing)) d"
| "specList now (CLRem k n v) d =
     specShorten k (Number 0) (\<lambda>xs. (fst (lremList n v xs), Number (snd (lremList n v xs)))) d"
| "specList now (CLTrim k a b) d =
     specShorten k Nothing
       (\<lambda>xs. (slice (normalizeListIndex a (length xs)) (normalizeListIndex b (length xs)) xs, Nothing)) d"
| "specList now (CLInsert k before p v) d =
     typed (asList (d k)) (\<lambda>l. case l of
         None \<Rightarrow> (d, Number 0)
       | Some xs \<Rightarrow> if p \<notin> set xs then (d, Number (- 1))
                   else (let l1 = takeWhile (\<lambda>x. x \<noteq> p) xs; l2 = tl (dropWhile (\<lambda>x. x \<noteq> p) xs)
                         in (d(k \<mapsto> (DList (if before then l1 @ v # p # l2 else l1 @ p # v # l2), ttlOf (d k))),
                             Number (int (length xs) + 1)))) d"

definition elemsOf :: "bytes set option \<Rightarrow> bytes set" where
  "elemsOf st = (case st of None \<Rightarrow> {} | Some x \<Rightarrow> x)"

fun specSet :: "time \<Rightarrow> set_call \<Rightarrow> database \<Rightarrow> database \<times> answer" where
  "specSet now (CSAdd k ms) d =
     (if ms = [] then (d, Number 0)
      else typed (asSet (d k)) (\<lambda>st. (put now k (DSet (elemsOf st \<union> set ms), ttlOf (d k)) d,
             Number (int (card (set ms - elemsOf st))))) d)"
| "specSet now (CSRem k ms) d =
     typed (asSet (d k)) (\<lambda>st. case st of
         None \<Rightarrow> (d, Number 0)
       | Some x \<Rightarrow> (d(k := if x \<subseteq> set ms then None else Some (DSet (x - set ms), ttlOf (d k))),
                   Number (int (card (set ms \<inter> x))))) d"
| "specSet now (CSMembers k) d = reads (asSet (d k)) SetItems d"
| "specSet now (CSIsMember k m) d = reads (asSet (d k)) (\<lambda>st. Flag (m \<in> elemsOf st)) d"
| "specSet now (CSCard k) d = reads (asSet (d k)) (\<lambda>st. Number (int (card (elemsOf st)))) d"
| "specSet now (CReplaceSet k ms) d = (put now k (DSet (set ms), ttlOf (d k)) d, Nothing)"

fun specCall :: "time \<Rightarrow> store_call \<Rightarrow> database \<Rightarrow> database \<times> answer" where
  "specCall now (StringCall c) d = specString now c d"
| "specCall now (KeyCall c) d = specKeys now c d"
| "specCall now (HashCall c) d = specHash now c d"
| "specCall now (ListCall c) d = specList now c d"
| "specCall now (SetCall c) d = specSet now c d"



section \<open>The answers of the store\<close>

definition answerOf :: "('a \<Rightarrow> answer) \<Rightarrow> 'a res \<Rightarrow> answer" where
  "answerOf f r = (case r of Inl e \<Rightarrow> Failure e | Inr x \<Rightarrow> f x)"

definition answerErr :: "store_error option \<Rightarrow> answer" where
  "answerErr err = (case err of None \<Rightarrow> Nothing | Some e \<Rightarrow> Failure e)"

fun strAnswer :: "time \<Rightarrow> string_call \<Rightarrow> store \<Rightarrow> answer" where
  "strAnswer now (CGet k) s = answerOf Text (snd (Get now s k))"
| "strAnswer now (CSet k v t) s = answerErr (snd (Set now s k v t))"
| "strAnswer now (CSetNX k v t) s = answerOf Flag (snd (SetNX now s k v t))"
| "strAnswer now (CSetXX k v t) s = answerOf Flag (snd (SetXX now s k v t))"
| "strAnswer now (CGetSet k v t) s = answerOf (\<lambda>(b, _). Text b) (snd (GetSet now s k v t))"
| "strAnswer now (CAppend k v) s = answerOf Number (snd (Append now s k v))"
| "strAnswer now (CIncrBy k d) s = answerOf Number (snd (IncrBy now s k (wrap64 d)))"
| "strAnswer now (CDecrBy k d) s = answerOf Number (snd (DecrBy now s k (wrap64 d)))"
| "strAnswer now (CMGet ks) s = answerOf Texts (snd (MGet now s ks))"
| "strAnswer now (CMSet ps) s = answerErr (snd (MSet now s (mapFrom ps)))"
| "strAnswer now (CMSetNX ps) s = answerOf Flag (snd (MSetNX now s (mapFrom ps)))"

fun keysAnswer :: "time \<Rightarrow> key_call \<Rightarrow> store \<Rightarrow> answer" where
  "keysAnswer now (CDel ks) s = Number (int (snd (Del now s ks)))"
| "keysAnswer now (CExists ks) s = Number (int (snd (Exists now s ks)))"
| "keysAnswer now (CType k) s = Text (Some (snd (Type now s k)))"
| "keysAnswer now (CRename a b) s = answerErr (snd (Rename now s a b))"
| "keysAnswer now (CRenameNX a b) s = Flag (snd (RenameNX now s a b))"
| "keysAnswer now (CExpire k n) s = answerOf Flag (snd (Expire now s k n))"
| "keysAnswer now (CExpireAt k t) s = Flag (snd (ExpireAt now s k t))"
| "keysAnswer now (CTTL k) s = Number (snd (TTL now s k))"
| "keysAnswer now (CTTLMs k) s = Number (snd (TTLMs now s k))"
| "keysAnswer now (CPersist k) s = Flag (snd (Persist now s k))"
| "keysAnswer now (CScan c p n w) s = Nothing"
| "keysAnswer now (CSnapshotEntry ent) s = answerErr (snd (ApplySnapshotEntry now s ent))"
| "keysAnswer now (CSampleShards os) s = Nothing"

fun hashAnswer :: "time \<Rightarrow> hash_call \<Rightarrow> store \<Rightarrow> answer" where
  "hashAnswer now (CHSet k ps) s = answerOf Number (snd (HSet now s k (mapFrom ps)))"
| "hashAnswer now (CHGet k f) s = answerOf Text (snd (HGet now s k f))"
| "hashAnswer now (CHGetAll k) s = answerOf (\<lambda>h. HashItems (map_option mapGet h)) (snd (HGetAll now s k))"
| "hashAnswer now (CHDel k fs) s = answerOf Number (snd (HDel now s k fs))"
| "hashAnswer now (CHExists k f) s = answerOf Flag (snd (HExists now s k f))"
| "hashAnswer now (CHLen k) s = answerOf Number (snd (HLen now s k))"
| "hashAnswer now (CHSetNX k f v) s = answerOf Number (snd (HSetNX now s k f v))"
| "hashAnswer now (CHIncrBy k f d) s = answerOf Number (snd (HIncrBy now s k f (wrap64 d)))"
| "hashAnswer now (CHIncrByFloat fo k f d) s = answerOf Float (snd (HIncrByFloat fo now s k f d))"

fun listAnswer :: "time \<Rightarrow> list_call \<Rightarrow> store \<Rightarrow> answer" where
  "listAnswer now (CLPush k vs) s = answerOf Number (snd (LPush now s k vs))"
| "listAnswer now (CRPush k vs) s = answerOf Number (snd (RPush now s k vs))"
| "listAnswer now (CLPushX k vs) s = answerOf Number (snd (LPushX now s k vs))"
| "listAnswer now (CRPushX k vs) s = answerOf Number (snd (RPushX now s k vs))"
| "listAnswer now (CLPop k n) s = answerOf Elements (snd (LPop now s k n))"
| "listAnswer now (CRPop k n) s = answerOf Elements (snd (RPop now s k n))"
| "listAnswer now (CLLen k) s = answerOf Number (snd (LLen now s k))"
| "listAnswer now (CLRange k a b) s = answerOf Elements (snd (LRange now s k a b))"
| "listAnswer now (CLIndex k i) s = answerOf Text (snd (LIndex now s k i))"
| "listAnswer now (CLSet k i v) s = answerErr (snd (LSet now s k i v))"
| "listAnswer now (CLRem k n v) s = answerOf Number (snd (LRem now s k n v))"
| "listAnswer now (CLTrim k a b) s = answerErr (snd (LTrim now s k a b))"
| "listAnswer now (CLInsert k b p i) s = answerOf Number (snd (LInsert now s k b p i))"

fun setAnswer :: "time \<Rightarrow> set_call \<Rightarrow> store \<Rightarrow> answer" where
  "setAnswer now (CSAdd k ms) s = answerOf Number (snd (SAdd now s k ms))"
| "setAnswer now (CSRem k ms) s = answerOf Number (snd (SRem now s k ms))"
| "setAnswer now (CSMembers k) s = answerOf (\<lambda>st. SetItems (map_option set st)) (snd (SMembers now s k))"
| "setAnswer now (CSIsMember k m) s = answerOf Flag (snd (SIsMember now s k m))"
| "setAnswer now (CSCard k) s = answerOf Number (snd (SCard now s k))"
| "setAnswer now (CReplaceSet k ms) s = answerErr (snd (ReplaceSet now s k ms))"

fun callAnswer :: "time \<Rightarrow> store_call \<Rightarrow> store \<Rightarrow> answer" where
  "callAnswer now (StringCall c) s = strAnswer now c s"
| "callAnswer now (KeyCall c) s = keysAnswer now c s"
| "callAnswer now (HashCall c) s = hashAnswer now c s"
| "callAnswer now (ListCall c) s = listAnswer now c s"
| "callAnswer now (SetCall c) s = setAnswer now c s"


section \<open>Corresponding states\<close>

lemma dbOf_cong: "view now s' = view now s \<Longrightarrow> dbOf now s' = dbOf now s"
  by (simp add: dbOf_def fun_eq_iff)

lemma live_alive: "live now c = alive now (snd c)"
  by (cases c) (simp add: live_def alive_def)

lemma view_upd: "db s' = (db s)(k := c) \<Longrightarrow>
  view now s' = (view now s)(k := (case c of None \<Rightarrow> None | Some x \<Rightarrow> if live now x then Some x else None))"
  by (simp add: view_def fun_eq_iff split: option.split)

lemma dbOf_upd: "db s' = (db s)(k := c) \<Longrightarrow>
  dbOf now s' = (case c of None \<Rightarrow> (dbOf now s)(k := None) | Some (v, t) \<Rightarrow> put now k (absValue v, t) (dbOf now s))"
proof -
  assume "db s' = (db s)(k := c)"
  note v = view_upd [OF this, of now]
  show ?thesis by (auto simp: dbOf_def v put_def live_alive fun_eq_iff split: option.split)
qed

lemma view_alive: "view now s k = Some (v, t) \<Longrightarrow> alive now t"
  by (auto simp: view_def live_alive split: option.splits if_splits)

text \<open>A write without a memory limit.\<close>

lemma wrote_unlimited:
  assumes "wroteOrOOM k (v, t) s s' err" and "maxMemBytes s = 0"
  shows "err = None \<and> dbOf now s' = put now k (absValue v, t) (dbOf now s)"
proof -
  have "db s' = (db s)(k \<mapsto> (v, t))" using assms by (auto simp: wroteOrOOM_def fun_eq_iff)
  from dbOf_upd [OF this] show ?thesis using assms by (auto simp: wroteOrOOM_def)
qed

lemma dbOf_view:
  "dbOf now s k = None \<longleftrightarrow> view now s k = None"
  "asString (dbOf now s k) = viewString (view now s k)"
  "asHash (dbOf now s k) = (case view now s k of None \<Rightarrow> Inr None | Some _ \<Rightarrow> map_sum id (\<lambda>h. Some (mapGet h)) (viewHash (view now s k)))"
  "asList (dbOf now s k) = (case view now s k of None \<Rightarrow> Inr None | Some _ \<Rightarrow> map_sum id Some (viewList (view now s k)))"
  "asSet (dbOf now s k) = (case view now s k of None \<Rightarrow> Inr None | Some _ \<Rightarrow> map_sum id (\<lambda>x. Some (set x)) (viewSet (view now s k)))"
  "ttlOf (dbOf now s k) = viewTTL (view now s k)"
  by (auto simp: dbOf_def asString_def viewString_def asHash_def viewHash_def asList_def viewList_def asSet_def viewSet_def
      ttlOf_def viewTTL_def split: option.split dvalue.split)

lemma typed_simps [simp]:
  "typed (Inl e) f d = (d, Failure e)" "typed (Inr x) f d = f x"
  "reads (Inl e) g d = (d, Failure e)" "reads (Inr x) g d = (d, g x)"
  by (simp_all add: typed_def reads_def)

lemma answer_simps [simp]:
  "answerOf f (Inl e) = Failure e" "answerOf f (Inr x) = f x" "answerErr None = Nothing" "answerErr (Some e) = Failure e"
  "outcome None x = Inr x" "outcome (Some e) x = Inl e"
  by (simp_all add: answerOf_def answerErr_def outcome_def)


section \<open>Strings\<close>

lemma Get_spec:
  assumes "storeInv s"
  shows "specString now (CGet k) (dbOf now s) = (dbOf now (fst (Get now s k)), answerOf Text (snd (Get now s k)))"
  using Get_result(1) [OF assms, of now k] dbOf_cong [OF Get_result(2) [OF assms, of now k]]
  by (auto simp: dbOf_view viewString_def orEmpty_def appendNil_def split: option.split dvalue.split)

lemma write_string_specs:
  assumes inv: "storeInv s" and free: "maxMemBytes s = 0"
  shows "specString now (CSet k v t) (dbOf now s) = (dbOf now (fst (Set now s k v t)), answerErr (snd (Set now s k v t)))"
    and "specString now (CSetNX k v t) (dbOf now s) = (dbOf now (fst (SetNX now s k v t)), answerOf Flag (snd (SetNX now s k v t)))"
    and "specString now (CGetSet k v t) (dbOf now s) =
      (dbOf now (fst (GetSet now s k v t)), answerOf (\<lambda>(b, _). Text b) (snd (GetSet now s k v t)))"
    and "specString now (CAppend k v) (dbOf now s) = (dbOf now (fst (Append now s k v)), answerOf Number (snd (Append now s k v)))"
proof -
  note wu = wrote_unlimited [OF _ free, where now = now]
  obtain s1 e1 where r1: "Set now s k v t = (s1, e1)" by (cases "Set now s k v t")
  from wu [OF Set_wrote [OF inv r1]] r1
  show "specString now (CSet k v t) (dbOf now s) = (dbOf now (fst (Set now s k v t)), answerErr (snd (Set now s k v t)))" by simp
  obtain s2 r2 where r2: "SetNX now s k v t = (s2, r2)" by (cases "SetNX now s k v t")
  from SetNX_spec [OF inv r2] r2
  show "specString now (CSetNX k v t) (dbOf now s) = (dbOf now (fst (SetNX now s k v t)), answerOf Flag (snd (SetNX now s k v t)))"
    by (auto simp: dbOf_view split: if_splits dest: wu)
  obtain s3 r3 where r3: "GetSet now s k v t = (s3, r3)" by (cases "GetSet now s k v t")
  from GetSet_spec [OF inv r3] r3
  show "specString now (CGetSet k v t) (dbOf now s) =
      (dbOf now (fst (GetSet now s k v t)), answerOf (\<lambda>(b, _). Text b) (snd (GetSet now s k v t)))"
    by (auto simp: dbOf_view split: sum.splits dest: wu)
  obtain s4 r4 where r4: "Append now s k v = (s4, r4)" by (cases "Append now s k v")
  from Append_spec [OF inv r4] r4
  show "specString now (CAppend k v) (dbOf now s) = (dbOf now (fst (Append now s k v)), answerOf Number (snd (Append now s k v)))"
    by (auto simp: dbOf_view split: sum.splits dest: wu)
qed

lemma ensure_free: "maxMemBytes s = 0 \<Longrightarrow> ensureMemoryWithRetry s key delta = (s, False, None)"
  by (rule ensure_no_limit) (simp add: maxMemBytes_def)

lemma SetXX_abs:
  assumes inv: "storeInv s" and free: "maxMemBytes s = 0"
  shows "specString now (CSetXX k v t) (dbOf now s) = (dbOf now (fst (SetXX now s k v t)), answerOf Flag (snd (SetXX now s k v t)))"
proof -
  obtain s1 old where l: "liveEntry now s k = (s1, old)" by (cases "liveEntry now s k")
  note lf = liveEntry_facts [OF l inv]
  show ?thesis
  proof (cases old)
    case None
    then show ?thesis using lf(4,6) l dbOf_cong [OF lf(4)] by (simp add: SetXX_def dbOf_view)
  next
    case (Some e)
    then have s1: "s1 = s" using lf(9) by blast
    have "SetXX now s k v t = (replaceEntry s k (Some e) (newEntry (VString v) t), Inr True)"
      using l Some s1 ensure_free [OF free] by (simp add: SetXX_def Let_def)
    then show ?thesis
      using lf(6) Some dbOf_upd [OF db_replace, of now s k "Some e" "newEntry (VString v) t"] by (simp add: dbOf_view)
  qed
qed

lemma incrBy_abs:
  assumes inv: "storeInv s" and free: "maxMemBytes s = 0" and d: "in_int64 n"
  shows "specIncr now k n (dbOf now s) = (dbOf now (fst (incrBy now s k n)), answerOf Number (snd (incrBy now s k n)))"
proof (cases "\<exists>e. getEntry s k = Some e \<and> isExpired now e")
  case True
  then obtain e where e: "getEntry s k = Some e" "isExpired now e" by auto
  let ?s1 = "purgeEntryLocked s (shardIndex k) k e"
  let ?ne = "newEntry (VString (formatInt n)) zeroTime"
  have l: "liveEntry now s k = (?s1, None)" using e by (simp add: liveEntry_def)
  note lf = liveEntry_facts [OF l inv]
  have ad: "addInt64 0 n = (n, True)"
    using addInt64_correct [OF _ d, of 0] d by (simp add: in_int64_def [of 0] maxInt64_def minInt64_def)
  have f1: "maxMemBytes ?s1 = 0" using lf(8) free by (simp add: maxMemBytes_def)
  have "\<exists>x. incrBy now s k n = (replaceEntry ?s1 k x ?ne, Inr n)"
    using e ad ensure_free [OF f1] by (auto simp: incrBy_def commitEntry_def)
  then obtain x where o: "incrBy now s k n = (replaceEntry ?s1 k x ?ne, Inr n)" by auto
  have v: "view now s k = None" using lf(6) by simp
  have "dbOf now (replaceEntry ?s1 k x ?ne) = put now k (DString (formatInt n), zeroTime) (dbOf now s)"
    using dbOf_upd [OF db_replace, of now ?s1 k x ?ne] dbOf_cong [OF lf(4)] by simp
  then show ?thesis using o v d
    by (simp add: specIncr_def dbOf_view viewString_def orEmpty_def intOf_def viewTTL_def Let_def)
next
  case False
  obtain s' r where i: "incrBy now s k n = (s', r)" by (cases "incrBy now s k n")
  from incrBy_live [OF inv d i] False i show ?thesis
    by (auto simp: specIncr_def dbOf_view split: sum.splits if_splits dest: wrote_unlimited [OF _ free, where now = now])
qed

lemma appendNil_twice: "(case appendNil b of None \<Rightarrow> None | Some x \<Rightarrow> appendNil x) = appendNil b"
  by (simp add: appendNil_def)

lemma MGet_abs:
  "storeInv s \<Longrightarrow> (dbOf now (fst (MGet now s ks)), answerOf Texts (snd (MGet now s ks))) = (dbOf now s, specMGet ks (dbOf now s))"
proof (induction ks arbitrary: s)
  case (Cons k ks)
  obtain s1 r where g: "Get now s k = (s1, r)" by (cases "Get now s k")
  have v: "view now s1 = view now s" and inv: "storeInv s1"
    using Get_result(2) [OF Cons.prems(1), of now k] prims_inv [OF Get_steps [OF Cons.prems(1), of k now] Cons.prems(1)] g
    by simp_all
  have r: "r = (case viewString (view now s k) of Inl e \<Rightarrow> Inl e | Inr b \<Rightarrow> Inr (appendNil (orEmpty b)))"
    using Get_result(1) [OF Cons.prems, of now k] g
    by (auto simp: viewString_def orEmpty_def appendNil_def split: option.split dvalue.split)
  have d: "dbOf now s1 = dbOf now s" by (rule dbOf_cong [OF v])
  have only: "\<And>e. viewString c = Inl e \<Longrightarrow> e = ErrWrongType" for c
    by (auto simp: viewString_def split: option.splits dvalue.splits)
  from Cons.IH [OF inv] g r d show ?case
    by (cases "viewString (view now s k)")
      (auto simp: specMGet_def dbOf_view appendNil_twice dest: only split: sum.splits prod.splits if_splits)
qed (simp add: specMGet_def)

lemma mapFrom_rev: "map_of (rev ps) k = mapGet (mapFrom ps) k"
  by (simp add: mapFrom_get)

lemma dbOf_many:
  assumes "\<And>k. db s' k = (case mapGet m k of None \<Rightarrow> db s k | Some v \<Rightarrow> Some (VString v, zeroTime))"
  shows "dbOf now s' = (\<lambda>k. case mapGet m k of None \<Rightarrow> dbOf now s k | Some v \<Rightarrow> Some (DString v, zeroTime))"
  using assms by (auto simp: dbOf_def view_def fun_eq_iff live_def isZero_def split: option.split)

lemma MSet_abs:
  assumes inv: "storeInv s" and free: "maxMemBytes s = 0"
  shows "specString now (CMSet ps) (dbOf now s) = (dbOf now (fst (MSet now s (mapFrom ps))), answerErr (snd (MSet now s (mapFrom ps))))"
proof -
  obtain s' err where r: "MSet now s (mapFrom ps) = (s', err)" by (cases "MSet now s (mapFrom ps)")
  note u = msetLoop_unlimited [OF inv _ r [unfolded MSet_def]]
  have "db s' k = (case mapGet (mapFrom ps) k of None \<Rightarrow> db s k | Some v \<Rightarrow> Some (VString v, zeroTime))" for k
  proof (cases "mapGet (mapFrom ps) k")
    case None
    then have "k \<notin> fst ` set (mapFrom ps)" by (rule map_of_eq_None_iff [THEN iffD1])
    then show ?thesis using u free None by (auto simp: maxMemBytes_def sortedKeys_sort)
  next
    case (Some v)
    then have "k \<in> fst ` set (mapFrom ps)" by (metis map_of_eq_None_iff option.distinct(1))
    then show ?thesis using u free Some by (auto simp: maxMemBytes_def sortedKeys_sort)
  qed
  moreover have "err = None" using u free by (simp add: maxMemBytes_def)
  ultimately show ?thesis using r dbOf_many [of s' s "mapFrom ps" now] by (simp add: mapFrom_rev)
qed

lemma MSetNX_abs:
  assumes inv: "storeInv s" and free: "maxMemBytes s = 0"
  shows "specString now (CMSetNX ps) (dbOf now s) =
    (dbOf now (fst (MSetNX now s (mapFrom ps))), answerOf Flag (snd (MSetNX now s (mapFrom ps))))"
proof -
  obtain s' r where r: "MSetNX now s (mapFrom ps) = (s', r)" by (cases "MSetNX now s (mapFrom ps)")
  note sp = MSetNX_spec(1) [OF inv mapFrom_ok r, unfolded mapFrom_keys]
  show ?thesis
  proof (cases "\<exists>k\<in>fst ` set ps. view now s k \<noteq> None")
    case True
    then have "s' = s" "r = Inr False" using sp by auto
    with True r show ?thesis by (auto simp: dbOf_view)
  next
    case False
    then have w: "r = Inr True" "\<And>k v. mapGet (mapFrom ps) k = Some v \<Longrightarrow> db s' k = Some (VString v, zeroTime)"
      "\<And>k. k \<notin> fst ` set ps \<Longrightarrow> db s' k = db s k" using sp free by auto
    have "db s' k = (case mapGet (mapFrom ps) k of None \<Rightarrow> db s k | Some v \<Rightarrow> Some (VString v, zeroTime))" for k
      using w(2) w(3) [of k] mapFrom_keys [of ps] by (auto split: option.split simp: map_of_eq_None_iff)
    with False w(1) r dbOf_many [of s' s "mapFrom ps" now] show ?thesis by (auto simp: mapFrom_rev dbOf_view)
  qed
qed

lemma strings_simulated:
  assumes "storeInv s" and "Evict \<in> strLabels c \<Longrightarrow> maxMemBytes s = 0"
  shows "specString now c (dbOf now s) = (dbOf now (strCall now c s), strAnswer now c s)"
proof (cases c)
  case (CMGet ks)
  then show ?thesis using MGet_abs [OF assms(1), of now ks] by simp
qed (use Get_spec [OF assms(1)] write_string_specs [OF assms] SetXX_abs [OF assms] MSet_abs [OF assms] MSetNX_abs [OF assms]
    incrBy_abs [OF assms] in \<open>simp_all add: IncrBy_def DecrBy_def writeManyLabels_def\<close>)



section \<open>Keys\<close>

lemma dbOf_at: "dbOf now s k = map_option (map_prod absValue id) (view now s k)"
  by (simp add: dbOf_def)

lemma put_alive: "alive now (snd c) \<Longrightarrow> put now k c d = d(k \<mapsto> c)"
  by (simp add: put_def)

lemma valType_abs: "valType (absValue v) = typeName v"
  by (cases v) simp_all

lemma read_key_specs:
  assumes inv: "storeInv s"
  shows "specKeys now (CExists ks) (dbOf now s) = (dbOf now (fst (Exists now s ks)), Number (int (snd (Exists now s ks))))"
    and "specKeys now (CType k) (dbOf now s) = (dbOf now (fst (Type now s k)), Text (Some (snd (Type now s k))))"
    and "dbOf now (fst (Scan now s cu p n w)) = dbOf now s" "dbOf now (sampleAllShards os now s) = dbOf now s"
proof -
  show "specKeys now (CExists ks) (dbOf now s) = (dbOf now (fst (Exists now s ks)), Number (int (snd (Exists now s ks))))"
    using Exists_result [OF inv, of now ks] dbOf_cong [of now "fst (Exists now s ks)" s] by (simp add: dbOf_view)
  show "specKeys now (CType k) (dbOf now s) = (dbOf now (fst (Type now s k)), Text (Some (snd (Type now s k))))"
    using Type_result [OF inv, of now k] dbOf_cong [of now "fst (Type now s k)" s]
    by (auto simp: dbOf_at specType_def valType_abs split: option.split)
  show "dbOf now (fst (Scan now s cu p n w)) = dbOf now s"
    using Scan_spec(2) [OF inv prod.collapse [symmetric], of now cu p n w] by (rule dbOf_cong)
  show "dbOf now (sampleAllShards os now s) = dbOf now s"
    by (rule dbOf_cong [OF sampleAllShards_facts(2) [OF inv]])
qed

lemma ttlWith_abs:
  assumes inv: "storeInv s"
  shows "specTTL u now k (dbOf now s) = (dbOf now (fst (ttlWith u now s k)), Number (snd (ttlWith u now s k)))"
proof -
  obtain s1 old where l: "liveEntry now s k = (s1, old)" by (cases "liveEntry now s k")
  note lf = liveEntry_facts [OF l inv]
  have t: "timeUntil now t \<le> 0 \<longleftrightarrow> t \<le> now" for t
    by (auto simp: timeUntil_def maxInt64_def minInt64_def)
  show ?thesis
  proof (cases old)
    case None
    then show ?thesis using lf(6) l dbOf_cong [OF lf(4)] by (simp add: ttlWith_def specTTL_def dbOf_at)
  next
    case (Some e)
    then have "s1 = s" using lf(9) by blast
    then show ?thesis
      using lf(6) l Some dbOf_upd [OF db_purge, of now s k e] by (simp add: ttlWith_def specTTL_def dbOf_at content_def Let_def t)
  qed
qed

lemma Del_abs:
  assumes "storeInv s"
  shows "specKeys now (CDel ks) (dbOf now s) = (dbOf now (fst (Del now s ks)), Number (int (snd (Del now s ks))))"
proof -
  obtain s' n where r: "Del now s ks = (s', n)" by (cases "Del now s ks")
  note d = Del_result [OF assms r]
  have "dbOf now s' = (\<lambda>k. if k \<in> set ks then None else dbOf now s k)"
    using d by (simp add: dbOf_def view_def fun_eq_iff)
  then show ?thesis using d r by (simp add: dbOf_view)
qed

lemma ExpireAt_abs:
  assumes inv: "storeInv s"
  shows "specExpireAt now k t (dbOf now s) = (dbOf now (fst (ExpireAt now s k t)), Flag (snd (ExpireAt now s k t)))"
proof -
  obtain s' b where r: "ExpireAt now s k t = (s', b)" by (cases "ExpireAt now s k t")
  note e = ExpireAt_spec [OF inv r]
  show ?thesis
  proof (cases "view now s k")
    case None
    then show ?thesis using e(2,4) r dbOf_cong [of now s' s] by (simp add: specExpireAt_def dbOf_at)
  next
    case (Some c)
    obtain v t0 where c: "c = (v, t0)" by (cases c)
    show ?thesis using e(2) e(3) [of v t0] Some c r dbOf_upd [of s' s k "Some (v, t)" now] by (simp add: specExpireAt_def dbOf_at)
  qed
qed

lemma Persist_abs:
  assumes inv: "storeInv s"
  shows "specKeys now (CPersist k) (dbOf now s) = (dbOf now (fst (Persist now s k)), Flag (snd (Persist now s k)))"
proof -
  obtain s' b where r: "Persist now s k = (s', b)" by (cases "Persist now s k")
  note e = Persist_spec [OF inv r]
  show ?thesis
  proof (cases "view now s k")
    case None
    then show ?thesis using e(3) r dbOf_cong [of now s' s] by (simp add: dbOf_at)
  next
    case (Some c)
    obtain v t0 where c: "c = (v, t0)" by (cases c)
    have "alive now zeroTime" by (simp add: alive_def isZero_def)
    then show ?thesis using e(2) [of v t0] Some c r dbOf_upd [of s' s k "Some (v, zeroTime)" now] by (simp add: dbOf_at put_alive)
  qed
qed

lemma dbOf_move:
  assumes "db s' = (db s)(a := None, b \<mapsto> c)" and "view now s a = Some c"
  shows "dbOf now s' = (dbOf now s)(a := None, b := dbOf now s a)"
proof -
  have "live now c" using assms(2) by (auto simp: view_def split: option.splits if_splits)
  with assms show ?thesis by (auto simp: dbOf_def view_def fun_eq_iff)
qed

lemma Rename_abs:
  assumes inv: "storeInv s"
  shows "specKeys now (CRename a b) (dbOf now s) = (dbOf now (fst (Rename now s a b)), answerErr (snd (Rename now s a b)))"
    and "specKeys now (CRenameNX a b) (dbOf now s) = (dbOf now (fst (RenameNX now s a b)), Flag (snd (RenameNX now s a b)))"
proof -
  obtain s1 err where r1: "Rename now s a b = (s1, err)" by (cases "Rename now s a b")
  note e1 = Rename_spec [OF inv r1]
  show "specKeys now (CRename a b) (dbOf now s) = (dbOf now (fst (Rename now s a b)), answerErr (snd (Rename now s a b)))"
  proof (cases "a = b")
    case False
    then show ?thesis
      using e1(2,3) r1 dbOf_cong [of now s1 s] dbOf_move [of s1 s a b _ now] by (cases "view now s a") (auto simp: dbOf_at)
  qed (simp add: Rename_def)
  obtain s2 f where r2: "RenameNX now s a b = (s2, f)" by (cases "RenameNX now s a b")
  note e2 = RenameNX_spec [OF inv r2]
  show "specKeys now (CRenameNX a b) (dbOf now s) = (dbOf now (fst (RenameNX now s a b)), Flag (snd (RenameNX now s a b)))"
  proof (cases "a = b")
    case False
    then show ?thesis
      using e2(2,3) r2 dbOf_cong [of now s2 s] dbOf_move [of s2 s a b _ now]
      by (cases "view now s a"; cases "view now s b") (auto simp: dbOf_at)
  qed (simp add: RenameNX_def)
qed

lemma ApplySnapshotEntry_abs:
  assumes inv: "storeInv s" and free: "maxMemBytes s = 0"
  shows "specKeys now (CSnapshotEntry ent) (dbOf now s) =
    (dbOf now (fst (ApplySnapshotEntry now s ent)), answerErr (snd (ApplySnapshotEntry now s ent)))"
proof (cases "snapshotValue ent")
  case None
  then show ?thesis by (simp add: ApplySnapshotEntry_def applySnapshotEntry_def Let_def)
next
  case (Some v)
  obtain s' err where r: "applySnapshotEntry now s ent = (s', err)" by (cases "applySnapshotEntry now s ent")
  have "fst (snapContent now ent) = v" using Some by (simp add: snapContent_def)
  then have c: "snapContent now ent = (v, snd (snapContent now ent))" by (metis prod.collapse)
  from applySnapshotEntry_wrote [OF inv Some snapshotValue_ok [OF Some] r]
  have "wroteOrOOM (snapKey ent) (v, snd (snapContent now ent)) s s' err" by (subst (asm) c)
  from wrote_unlimited [OF this free, of now] Some r show ?thesis by (simp add: ApplySnapshotEntry_def)
qed

lemma keys_simulated:
  assumes "storeInv s" and "Evict \<in> keysLabels c \<Longrightarrow> maxMemBytes s = 0"
  shows "specKeys now c (dbOf now s) = (dbOf now (keysCall now c s), keysAnswer now c s)"
proof (cases c)
  case (CExpire k n)
  then show ?thesis using ExpireAt_abs [OF assms(1), of now k "timeAdd now (durMul n durSecond)"]
    by (auto simp: Expire_def split: prod.split)
next
  case (CTTL k)
  then show ?thesis using ttlWith_abs [OF assms(1), of durSeconds now k] by (simp add: TTL_def)
next
  case (CTTLMs k)
  then show ?thesis using ttlWith_abs [OF assms(1), of durMilliseconds now k] by (simp add: TTLMs_def)
qed (use read_key_specs [OF assms(1), of now] Del_abs [OF assms(1)] ExpireAt_abs [OF assms(1)] Persist_abs [OF assms(1)] Rename_abs [OF assms(1)]
    ApplySnapshotEntry_abs [OF assms] in \<open>simp_all\<close>)



section \<open>Hashes\<close>

lemma dom_mapGet: "dom (mapGet h) = fst ` set h"
  by (rule dom_map_of_conv_image_fst)

lemma card_mapGet: "mapOk h \<Longrightarrow> card (dom (mapGet h)) = length h"
  unfolding dom_mapGet by (metis distinct_card length_map set_map)

lemma readHash_abs:
  assumes inv: "storeInv s" and g: "\<And>h. mapOk h \<Longrightarrow> g (Some (mapGet h)) = a (f h)" and n: "g None = a none"
  shows "reads (asHash (dbOf now s k)) g (dbOf now s) = (dbOf now (fst (readHash now s k none f)), answerOf a (snd (readHash now s k none f)))"
proof -
  obtain s' x where x: "readHash now s k none f = (s', x)" by (cases "readHash now s k none f")
  note r = readHash_spec [OF inv x]
  show ?thesis
  proof (cases "viewHash (view now s k)")
    case (Inl e)
    then have "view now s k \<noteq> None" by (auto simp: viewHash_def split: option.splits)
    then show ?thesis using r(3) Inl dbOf_cong [OF r(2)] x by (auto simp: dbOf_view)
  next
    case (Inr h)
    then show ?thesis using r(3) Inr dbOf_cong [OF r(2)] g [OF viewHash_ok [OF inv Inr]] n x
      by (auto simp: dbOf_view split: option.split)
  qed
qed

text \<open>The hash of a key, absent or not, as both sides see it.\<close>

lemma asHash_cases:
  assumes "storeInv s"
  obtains (wrong) "asHash (dbOf now s k) = Inl ErrWrongType" "viewHash (view now s k) = Inl ErrWrongType"
  | (hash) h m where "asHash (dbOf now s k) = Inr m" "viewHash (view now s k) = Inr h" "fieldsOf m = mapGet h" "mapOk h"
      "m = None \<longleftrightarrow> view now s k = None"
proof (cases "viewHash (view now s k)")
  case (Inl e)
  then have "e = ErrWrongType" "view now s k \<noteq> None" by (auto simp: viewHash_def split: option.splits dvalue.splits)
  with Inl wrong show ?thesis by (auto simp: dbOf_view)
next
  case (Inr h)
  note ok = viewHash_ok [OF assms Inr]
  show ?thesis
  proof (cases "view now s k")
    case None
    then have "h = []" using Inr by (simp add: viewHash_def)
    then show ?thesis using hash [of None h] Inr None ok by (simp add: dbOf_view fieldsOf_def)
  next
    case (Some c)
    then show ?thesis using hash [of "Some (mapGet h)" h] Inr ok by (simp add: dbOf_view fieldsOf_def)
  qed
qed

lemma map_of_distinct_rev: "mapOk m \<Longrightarrow> map_of (rev m) = mapGet m"
proof (induction m)
  case (Cons p m)
  then have "mapGet m (fst p) = None" by (simp add: map_of_eq_None_iff)
  with Cons show ?case by (auto simp: map_add_def fun_eq_iff split: option.split)
qed simp

lemma HSet_abs:
  assumes inv: "storeInv s" and free: "maxMemBytes s = 0"
  shows "specHash now (CHSet k ps) (dbOf now s) = (dbOf now (fst (HSet now s k (mapFrom ps))), answerOf Number (snd (HSet now s k (mapFrom ps))))"
proof (cases "ps = []")
  case False
  obtain s' r where r: "HSet now s k (mapFrom ps) = (s', r)" by (cases "HSet now s k (mapFrom ps)")
  have ne: "mapFrom ps \<noteq> []" using False mapFrom_keys [of ps] by auto
  have same: "map_of (rev (mapFrom ps)) = map_of (rev ps)"
    using map_of_distinct_rev [of "mapFrom ps"] by (simp add: mapFrom_get)
  note sp = HSet_spec [OF inv ne r]
  from inv show ?thesis
    by (cases rule: asHash_cases [of s now k])
      (use sp r False free same in \<open>auto simp: dbOf_view(6) dom_mapGet mapFrom_keys dest: wrote_unlimited [where now = now]\<close>)
qed (simp add: HSet_def mapFrom_def)

lemma write_hash_specs:
  assumes inv: "storeInv s" and free: "maxMemBytes s = 0"
  shows "specHash now (CHSetNX k f v) (dbOf now s) = (dbOf now (fst (HSetNX now s k f v)), answerOf Number (snd (HSetNX now s k f v)))"
    and "specHash now (CHIncrBy k f n) (dbOf now s) =
      (dbOf now (fst (HIncrBy now s k f (wrap64 n))), answerOf Number (snd (HIncrBy now s k f (wrap64 n))))"
    and "specHash now (CHIncrByFloat fo k f x) (dbOf now s) =
      (dbOf now (fst (HIncrByFloat fo now s k f x)), answerOf Float (snd (HIncrByFloat fo now s k f x)))"
proof -
  note wu = wrote_unlimited [OF _ free, where now = now]
  have put: "mapGet (mapPut f v h) = (mapGet h)(f \<mapsto> v)" for f v h by (simp add: fun_eq_iff)
  obtain s1 r1 where r1: "HSetNX now s k f v = (s1, r1)" by (cases "HSetNX now s k f v")
  note sp1 = HSetNX_spec [OF inv r1]
  from inv show "specHash now (CHSetNX k f v) (dbOf now s) = (dbOf now (fst (HSetNX now s k f v)), answerOf Number (snd (HSetNX now s k f v)))"
    by (cases rule: asHash_cases [of s now k]) (use sp1 r1 put in \<open>auto simp: dbOf_view(6) split: if_splits dest: wu\<close>)
  obtain s2 r2 where r2: "HIncrBy now s k f (wrap64 n) = (s2, r2)" by (cases "HIncrBy now s k f (wrap64 n)")
  note sp2 = HIncrBy_spec(1) [OF inv wrap64_in_range r2]
  from inv show "specHash now (CHIncrBy k f n) (dbOf now s) =
      (dbOf now (fst (HIncrBy now s k f (wrap64 n))), answerOf Number (snd (HIncrBy now s k f (wrap64 n))))"
    by (cases rule: asHash_cases [of s now k])
      (use sp2 r2 put in \<open>auto simp: dbOf_view(6) typed_def split: if_splits sum.splits option.splits dest: wu dbOf_cong\<close>)
  obtain s3 r3 where r3: "HIncrByFloat fo now s k f x = (s3, r3)" by (cases "HIncrByFloat fo now s k f x")
  note sp3 = HIncrByFloat_spec [OF inv r3]
  from inv show "specHash now (CHIncrByFloat fo k f x) (dbOf now s) =
      (dbOf now (fst (HIncrByFloat fo now s k f x)), answerOf Float (snd (HIncrByFloat fo now s k f x)))"
    by (cases rule: asHash_cases [of s now k])
      (use sp3 r3 put in \<open>auto simp: dbOf_view(6) typed_def split: if_splits sum.splits option.splits dest: wu dbOf_cong\<close>)
qed

lemma HDel_abs:
  assumes inv: "storeInv s"
  shows "specHash now (CHDel k fs) (dbOf now s) = (dbOf now (fst (HDel now s k fs)), answerOf Number (snd (HDel now s k fs)))"
proof -
  obtain s' r where r: "HDel now s k fs = (s', r)" by (cases "HDel now s k fs")
  note sp = HDel_spec [OF inv r]
  show ?thesis
  proof (cases "view now s k")
    case None
    then show ?thesis using sp r dbOf_cong [of now s' s] by (simp add: dbOf_view)
  next
    case (Some c)
    obtain v t where c: "c = (v, t)" by (cases c)
    show ?thesis
    proof (cases v)
      case (VHash h)
      from sp Some c VHash obtain h' where h': "mapOk h'" "\<And>f. mapGet h' f = (if f \<in> set fs then None else mapGet h f)"
        "db s' = (db s)(k := if h' = [] then None else Some (VHash h', t))" "r = Inr (int (card (set fs \<inter> fst ` set h)))"
        by auto
      have m: "mapGet h |` (- set fs) = mapGet h'" using h'(2) by (auto simp: restrict_map_def fun_eq_iff)
      have e: "mapGet h' = Map.empty \<longleftrightarrow> h' = []" by (cases h') (auto simp: fun_eq_iff)
      have "dbOf now s' = (dbOf now s)(k := if h' = [] then None else Some (DHash (mapGet h'), t))"
        using dbOf_upd [OF h'(3), of now] view_alive [of now s k v t] Some c by (auto simp: put_def)
      then show ?thesis using Some c VHash r h'(4) m e by (simp add: dbOf_view viewHash_def viewTTL_def dom_mapGet)
    qed (use sp r Some c in \<open>auto simp: dbOf_view viewHash_def\<close>)
  qed
qed

lemma hashes_simulated:
  assumes "storeInv s" and "Evict \<in> hashLabels c \<Longrightarrow> maxMemBytes s = 0"
  shows "specHash now c (dbOf now s) = (dbOf now (hashCall now c s), hashAnswer now c s)"
proof (cases c)
  case (CHGet k f)
  then show ?thesis
    using readHash_abs [OF assms(1), of "\<lambda>h. Text (Option.bind (fieldsOf h f) appendNil)" Text
        "\<lambda>h. case mapGet h f of None \<Rightarrow> None | Some v \<Rightarrow> appendNil v" None now k]
    by (simp add: HGet_def fieldsOf_def Option.bind_eq_None_conv split: option.split)
next
  case (CHGetAll k)
  then show ?thesis
    using readHash_abs [OF assms(1), of HashItems "\<lambda>h. HashItems (map_option mapGet h)" Some None now k] by (simp add: HGetAll_def)
next
  case (CHExists k f)
  then show ?thesis
    using readHash_abs [OF assms(1), of "\<lambda>h. Flag (fieldsOf h f \<noteq> None)" Flag "\<lambda>h. mapGet h f \<noteq> None" False now k]
    by (simp add: HExists_def fieldsOf_def)
next
  case (CHLen k)
  then show ?thesis
    using readHash_abs [OF assms(1), of "\<lambda>h. Number (int (card (dom (fieldsOf h))))" Number "\<lambda>h. int (length h)" 0 now k]
    by (simp add: HLen_def fieldsOf_def card_mapGet)
qed (use HSet_abs [OF assms] HDel_abs [OF assms(1)] write_hash_specs [OF assms] in \<open>simp_all\<close>)



section \<open>Lists\<close>

lemma asList_cases:
  obtains (wrong) v t where "asList (dbOf now s k) = Inl ErrWrongType" "viewList (view now s k) = Inl ErrWrongType"
      "view now s k = Some (v, t)" "\<forall>l. v \<noteq> VList l"
  | (absent) "asList (dbOf now s k) = Inr None" "viewList (view now s k) = Inr []" "view now s k = None"
  | (items) l t where "asList (dbOf now s k) = Inr (Some l)" "viewList (view now s k) = Inr l" "view now s k = Some (VList l, t)"
proof (cases "view now s k")
  case None
  with absent show ?thesis by (simp add: dbOf_view viewList_def)
next
  case (Some c)
  then show ?thesis
    using items wrong by (cases "fst c"; cases c) (auto simp: dbOf_view viewList_def)
qed

lemma readList_abs:
  assumes inv: "storeInv s" and g: "\<And>l. g (Some l) = a (f l)" and n: "g None = a none"
  shows "reads (asList (dbOf now s k)) g (dbOf now s) = (dbOf now (fst (readList now s k none f)), answerOf a (snd (readList now s k none f)))"
proof -
  obtain s' x where x: "readList now s k none f = (s', x)" by (cases "readList now s k none f")
  note r = readList_spec [OF inv x]
  show ?thesis
    by (cases rule: asList_cases [of now s k]) (use r(3) dbOf_cong [OF r(2)] g n x in \<open>auto split: option.splits\<close>)
qed

lemma listLenLocked_abs:
  assumes inv: "storeInv s"
  shows "reads (asList (dbOf now s k)) (\<lambda>l. Number (int (length (itemsOf l)))) (dbOf now s) =
    (dbOf now (fst (listLenLocked now s k)), answerOf Number (snd (listLenLocked now s k)))"
proof -
  obtain s' x where x: "listLenLocked now s k = (s', x)" by (cases "listLenLocked now s k")
  note r = listLenLocked_spec [OF inv x]
  show ?thesis
    by (cases rule: asList_cases [of now s k]) (use r(3) dbOf_cong [OF r(2)] x in \<open>auto simp: itemsOf_def\<close>)
qed

lemma listPush_abs:
  assumes inv: "storeInv s" and free: "maxMemBytes s = 0"
  shows "specPush now k vs left (dbOf now s) = (dbOf now (fst (listPush now s k vs left)), answerOf Number (snd (listPush now s k vs left)))"
proof (cases "vs = []")
  case True
  then show ?thesis using listLenLocked_abs [OF inv, of now k] by (simp add: listPush_def specPush_def reads_def)
next
  case False
  obtain s' r where r: "listPush now s k vs left = (s', r)" by (cases "listPush now s k vs left")
  note sp = listPush_spec [OF inv False r]
  show ?thesis
    by (cases rule: asList_cases [of now s k])
      (use sp r False in \<open>auto simp: specPush_def dbOf_view(6) itemsOf_def dest: wrote_unlimited [OF _ free, where now = now]\<close>)
qed

lemma listPushX_abs:
  assumes inv: "storeInv s" and free: "maxMemBytes s = 0"
  shows "(if dbOf now s k = None then (dbOf now s, Number 0) else specPush now k vs left (dbOf now s)) =
    (dbOf now (fst (listPushX now s k vs left)), answerOf Number (snd (listPushX now s k vs left)))"
proof (cases "vs = []")
  case True
  have "asList (dbOf now s k) = Inr None" if "dbOf now s k = None" using that by (simp add: asList_def)
  then show ?thesis
    using listLenLocked_abs [OF inv, of now k] True by (auto simp: listPushX_def specPush_def reads_def itemsOf_def)
next
  case False
  obtain s' r where r: "listPushX now s k vs left = (s', r)" by (cases "listPushX now s k vs left")
  note sp = listPushX_spec [OF inv False r]
  show ?thesis
    using sp r listPush_abs [OF assms, of now k vs left] dbOf_cong [of now s' s] by (auto simp: dbOf_view(1) split: if_splits)
qed

text \<open>An in-place change of a list, as \<open>shortened\<close> describes it, and the empty list, which stays.\<close>

lemma shortened_abs:
  assumes sh: "shortened now k none f s s' r" and e: "\<And>t. view now s k = Some (VList [], t) \<Longrightarrow> view now s' = view now s"
    and g: "\<And>l. g l = (fst (f l), a (snd (f l)))"
  shows "specShorten k (a none) g (dbOf now s) = (dbOf now s', answerOf a r)"
proof (cases rule: asList_cases [of now s k])
  case (items l t)
  show ?thesis
  proof (cases "l = []")
    case True
    then show ?thesis using sh items e dbOf_cong [of now s' s] g by (simp add: shortened_def specShorten_def)
  next
    case False
    let ?l = "fst (f l)"
    have d: "db s' = (db s)(k := if ?l = [] then None else Some (VList ?l, t))" "r = Inr (snd (f l))"
      using sh items False by (auto simp: shortened_def)
    have "dbOf now s' = (dbOf now s)(k := if ?l = [] then None else Some (DList ?l, t))"
      using dbOf_upd [OF d(1), of now] view_alive [OF items(3)] by (auto simp: put_def)
    then show ?thesis using items False d(2) g by (simp add: specShorten_def dbOf_view(6) viewTTL_def)
  qed
next
  case (wrong v t)
  then show ?thesis using sh by (cases v) (auto simp: shortened_def specShorten_def)
next
  case absent
  then show ?thesis using sh dbOf_cong [of now s' s] by (simp add: shortened_def specShorten_def)
qed

lemma empty_list_touched:
  assumes inv: "storeInv s" and v: "view now s k = Some (VList [], t)"
  obtains e where "liveEntry now s k = (s, Some e)" "evalue e = VList []" "view now (touchLRU s k e) = view now s"
proof -
  obtain s1 old where l: "liveEntry now s k = (s1, old)" by (cases "liveEntry now s k")
  note lf = liveEntry_facts [OF l inv]
  obtain e where e: "old = Some e" "evalue e = VList []" using lf(6) v by (cases old) (auto simp: content_def)
  then have "s1 = s" using lf(9) by blast
  with l e that touched_facts(4) [OF inv, of now k s e] show ?thesis by simp
qed

lemma listPop_abs:
  assumes inv: "storeInv s" and pf: "\<And>n l. length (snd (pop n l)) \<le> length l" "\<And>n. fst (pop n []) = []" "\<And>n. snd (pop n []) = []"
  shows "specPop pop k n (dbOf now s) = (dbOf now (fst (listPop pop now s k n)), answerOf Elements (snd (listPop pop now s k n)))"
proof (cases "n > maxSliceCap")
  case False
  obtain s' r where r: "listPop pop now s k n = (s', r)" by (cases "listPop pop now s k n")
  have e: "view now s' = view now s" if v: "view now s k = Some (VList [], t)" for t
    by (rule empty_list_touched [OF inv v]) (use r in \<open>auto simp: listPop_def Let_def split: if_splits\<close>)
  from listPop_spec [OF inv pf(1,2) _ r] False
  have "shortened now k None (\<lambda>l. (snd (pop (nat (max 1 n)) l), Some (fst (pop (nat (max 1 n)) l)))) s s' r" by simp
  from shortened_abs [OF this e, where a = Elements] False show ?thesis by (simp add: specPop_def r)
next
  case True
  then have n: "n > 0" by (simp add: maxSliceCap_def)
  obtain s1 old where l: "liveEntry now s k = (s1, old)" by (cases "liveEntry now s k")
  note lf = liveEntry_facts [OF l inv]
  show ?thesis
  proof (cases old)
    case None
    then show ?thesis using l lf(6) dbOf_cong [OF lf(4)] by (simp add: listPop_def specPop_def specShorten_def dbOf_view Let_def)
  next
    case (Some e)
    then have s1: "s1 = s" using lf(9) by blast
    have t: "dbOf now (touchLRU s k e) = dbOf now s"
      using touched_facts(4) [OF inv, of now k s e] l Some s1 by (intro dbOf_cong) simp
    have v: "view now s k = Some (evalue e, expiresAt e)" using lf(6) Some by (simp add: content_def)
    show ?thesis
      using l Some s1 t v n True pf(2,3)
      by (cases rule: asList_cases [of now s k]; cases "evalue e")
        (auto simp: listPop_def specPop_def specShorten_def Let_def fun_upd_idem dbOf_at viewTTL_def ttlOf_def)
  qed
qed

lemma LRem_abs:
  assumes inv: "storeInv s"
  shows "specList now (CLRem k n v) (dbOf now s) = (dbOf now (fst (LRem now s k n v)), answerOf Number (snd (LRem now s k n v)))"
proof -
  obtain s' r where r: "LRem now s k n v = (s', r)" by (cases "LRem now s k n v")
  have e: "view now s' = view now s" if v: "view now s k = Some (VList [], t)" for t
    by (rule empty_list_touched [OF inv v]) (use r in \<open>auto simp: LRem_def Let_def\<close>)
  from shortened_abs [OF LRem_spec [OF inv r] e, where a = Number] show ?thesis by (simp add: r)
qed

lemma LTrim_abs:
  assumes inv: "storeInv s"
  shows "specList now (CLTrim k a b) (dbOf now s) = (dbOf now (fst (LTrim now s k a b)), answerErr (snd (LTrim now s k a b)))"
proof -
  obtain s' err where r: "LTrim now s k a b = (s', err)" by (cases "LTrim now s k a b")
  note sp = LTrim_spec [OF inv r]
  show ?thesis
  proof (cases rule: asList_cases [of now s k])
    case (items l t)
    show ?thesis
    proof (cases "l = []")
      case True
      then have "view now s k = Some (VList [], t)" using items by simp
      then have "view now s' = view now s"
        by (rule empty_list_touched [OF inv]) (use r in \<open>auto simp: LTrim_def Let_def\<close>)
      from dbOf_cong [OF this] show ?thesis using sp items True r by (simp add: specShorten_def)
    next
      case False
      let ?l = "slice (normalizeListIndex a (length l)) (normalizeListIndex b (length l)) l"
      have d: "db s' = (db s)(k := if ?l = [] then None else Some (VList ?l, t))" "err = None"
        using sp items False by (auto simp: Let_def)
      have "dbOf now s' = (dbOf now s)(k := if ?l = [] then None else Some (DList ?l, t))"
        using dbOf_upd [OF d(1), of now] view_alive [OF items(3)] by (auto simp: put_def)
      then show ?thesis using items False d(2) r by (simp add: specShorten_def dbOf_view(6) viewTTL_def)
    qed
  next
    case (wrong v t)
    then show ?thesis using sp r by (cases v) (auto simp: specShorten_def)
  next
    case absent
    then show ?thesis using sp r dbOf_cong [of now s' s] by (simp add: specShorten_def)
  qed
qed

lemma LSet_abs:
  assumes inv: "storeInv s"
  shows "specList now (CLSet k i v) (dbOf now s) = (dbOf now (fst (LSet now s k i v)), answerErr (snd (LSet now s k i v)))"
proof -
  obtain s' err where r: "LSet now s k i v = (s', err)" by (cases "LSet now s k i v")
  note sp = LSet_spec [OF inv r]
  show ?thesis
  proof (cases rule: asList_cases [of now s k])
    case (items l t)
    show ?thesis
    proof (cases "l = [] \<or> i \<ge> int (length l)")
      case True
      then show ?thesis using sp items r by auto
    next
      case False
      let ?l = "l[nat (normalizeListIndex i (length l)) := v]"
      have d: "db s' = (db s)(k := Some (VList ?l, t))" "err = None" using sp items False by auto
      have "dbOf now s' = (dbOf now s)(k \<mapsto> (DList ?l, t))"
        using dbOf_upd [OF d(1), of now] view_alive [OF items(3)] by (auto simp: put_def)
      then show ?thesis using items False d(2) r by (simp add: dbOf_view(6) viewTTL_def)
    qed
  next
    case (wrong v t)
    then show ?thesis using sp r by (cases v) auto
  next
    case absent
    then show ?thesis using sp r dbOf_cong [of now s' s] by simp
  qed
qed

lemma split_at_first: "p \<notin> set l1 \<Longrightarrow> takeWhile (\<lambda>x. x \<noteq> p) (l1 @ p # l2) = l1 \<and> dropWhile (\<lambda>x. x \<noteq> p) (l1 @ p # l2) = p # l2"
  by (induction l1) auto

lemma LInsert_abs:
  assumes inv: "storeInv s" and free: "maxMemBytes s = 0"
  shows "specList now (CLInsert k b p v) (dbOf now s) = (dbOf now (fst (LInsert now s k b p v)), answerOf Number (snd (LInsert now s k b p v)))"
proof -
  obtain s' r where r: "LInsert now s k b p v = (s', r)" by (cases "LInsert now s k b p v")
  note sp = LInsert_spec [OF inv r]
  show ?thesis
  proof (cases rule: asList_cases [of now s k])
    case (items l t)
    show ?thesis
    proof (cases "p \<in> set l")
      case False
      then show ?thesis using sp items r dbOf_cong [of now s' s] by simp
    next
      case True
      with sp items obtain l1 l2 err where l: "l = l1 @ p # l2" "p \<notin> set l1"
        "wroteOrOOM k (VList (if b then l1 @ v # p # l2 else l1 @ p # v # l2), t) s s' err" "r = outcome err (int (length l) + 1)"
        by auto
      from wrote_unlimited [OF l(3) free, of now] view_alive [OF items(3)]
      have "err = None" "dbOf now s' = (dbOf now s)(k \<mapsto> (DList (if b then l1 @ v # p # l2 else l1 @ p # v # l2), t))"
        by (auto simp: put_def)
      then show ?thesis using items True l(1,4) split_at_first [OF l(2), of l2] r by (simp add: dbOf_view(6) viewTTL_def Let_def)
    qed
  next
    case (wrong v t)
    then show ?thesis using sp r by (cases v) auto
  next
    case absent
    then show ?thesis using sp r dbOf_cong [of now s' s] by simp
  qed
qed

lemma lists_simulated:
  assumes "storeInv s" and "Evict \<in> listLabels c \<Longrightarrow> maxMemBytes s = 0"
  shows "specList now c (dbOf now s) = (dbOf now (listCall now c s), listAnswer now c s)"
proof (cases c)
  case (CLPop k n)
  have "popFront = (\<lambda>n l. (take n l, drop n l))" by (simp add: popFront_def fun_eq_iff)
  moreover have "specPop popFront k n (dbOf now s) =
      (dbOf now (fst (listPop popFront now s k n)), answerOf Elements (snd (listPop popFront now s k n)))"
    by (rule listPop_abs [OF assms(1)]) (simp_all add: popFront_def)
  ultimately show ?thesis using CLPop by (simp add: LPop_def)
next
  case (CRPop k n)
  have "popBack = (\<lambda>n l. (take n (rev l), take (length l - n) l))" by (simp add: popBack_def fun_eq_iff rev_drop)
  moreover have "specPop popBack k n (dbOf now s) =
      (dbOf now (fst (listPop popBack now s k n)), answerOf Elements (snd (listPop popBack now s k n)))"
    by (rule listPop_abs [OF assms(1)]) (simp_all add: popBack_def)
  ultimately show ?thesis using CRPop by (simp add: RPop_def)
next
  case (CLRange k a b)
  then show ?thesis
    using readList_abs [OF assms(1), of "\<lambda>l. Elements (map_option (lrange a b) l)" Elements "\<lambda>l. Some (lrange a b l)" None now k]
    by (simp add: LRange_def)
next
  case (CLIndex k i)
  then show ?thesis
    using readList_abs [OF assms(1), of "\<lambda>l. Text (Option.bind l (lindex i))" Text "lindex i" None now k]
    by (simp add: LIndex_def)
qed (use listPush_abs [OF assms] listPushX_abs [OF assms] listLenLocked_abs [OF assms(1)] LSet_abs [OF assms(1)] LRem_abs [OF assms(1)]
    LTrim_abs [OF assms(1)] LInsert_abs [OF assms] in \<open>simp_all add: LPush_def RPush_def LPushX_def RPushX_def LLen_def\<close>)



section \<open>Sets\<close>

lemma asSet_cases:
  assumes "storeInv s"
  obtains (wrong) "asSet (dbOf now s k) = Inl ErrWrongType" "viewSet (view now s k) = Inl ErrWrongType"
  | (elems) st m where "asSet (dbOf now s k) = Inr m" "viewSet (view now s k) = Inr st" "elemsOf m = set st" "distinct st"
proof (cases "viewSet (view now s k)")
  case (Inl e)
  then have "e = ErrWrongType" "view now s k \<noteq> None" by (auto simp: viewSet_def split: option.splits dvalue.splits)
  with Inl wrong show ?thesis by (auto simp: dbOf_view)
next
  case (Inr st)
  note ok = viewSet_ok [OF assms Inr]
  show ?thesis
  proof (cases "view now s k")
    case None
    then have "st = []" using Inr by (simp add: viewSet_def)
    then show ?thesis using elems [of None st] Inr None ok by (simp add: dbOf_view elemsOf_def)
  next
    case (Some c)
    then show ?thesis using elems [of "Some (set st)" st] Inr ok by (simp add: dbOf_view elemsOf_def)
  qed
qed

lemma readSet_abs:
  assumes inv: "storeInv s" and g: "\<And>st. distinct st \<Longrightarrow> g (Some (set st)) = a (f st)" and n: "g None = a none"
  shows "reads (asSet (dbOf now s k)) g (dbOf now s) = (dbOf now (fst (readSet now s k none f)), answerOf a (snd (readSet now s k none f)))"
proof -
  obtain s' x where x: "readSet now s k none f = (s', x)" by (cases "readSet now s k none f")
  note r = readSet_spec [OF inv x]
  show ?thesis
  proof (cases "viewSet (view now s k)")
    case (Inl e)
    then have "view now s k \<noteq> None" by (auto simp: viewSet_def split: option.splits)
    then show ?thesis using r(3) Inl dbOf_cong [OF r(2)] x by (auto simp: dbOf_view)
  next
    case (Inr st)
    then show ?thesis using r(3) dbOf_cong [OF r(2)] g [OF viewSet_ok [OF inv Inr]] n x
      by (auto simp: dbOf_view split: option.split)
  qed
qed

lemma write_set_specs:
  assumes inv: "storeInv s" and free: "maxMemBytes s = 0"
  shows "specSet now (CSAdd k ms) (dbOf now s) = (dbOf now (fst (SAdd now s k ms)), answerOf Number (snd (SAdd now s k ms)))"
    and "specSet now (CReplaceSet k ms) (dbOf now s) = (dbOf now (fst (ReplaceSet now s k ms)), answerErr (snd (ReplaceSet now s k ms)))"
proof -
  note wu = wrote_unlimited [OF _ free, where now = now]
  show "specSet now (CSAdd k ms) (dbOf now s) = (dbOf now (fst (SAdd now s k ms)), answerOf Number (snd (SAdd now s k ms)))"
  proof (cases "ms = []")
    case False
    obtain s' r where r: "SAdd now s k ms = (s', r)" by (cases "SAdd now s k ms")
    note sp = SAdd_spec [OF inv False r]
    from inv show ?thesis
      by (cases rule: asSet_cases [of s now k]) (use sp r False in \<open>auto simp: dbOf_view(6) dest: wu\<close>)
  qed (simp add: SAdd_def)
  obtain s' err where r: "ReplaceSet now s k ms = (s', err)" by (cases "ReplaceSet now s k ms")
  from ReplaceSet_spec [OF inv r] r
  show "specSet now (CReplaceSet k ms) (dbOf now s) = (dbOf now (fst (ReplaceSet now s k ms)), answerErr (snd (ReplaceSet now s k ms)))"
    by (auto simp: dbOf_view(6) dest: wu)
qed

lemma SRem_abs:
  assumes inv: "storeInv s"
  shows "specSet now (CSRem k ms) (dbOf now s) = (dbOf now (fst (SRem now s k ms)), answerOf Number (snd (SRem now s k ms)))"
proof -
  obtain s' r where r: "SRem now s k ms = (s', r)" by (cases "SRem now s k ms")
  note sp = SRem_spec [OF inv r]
  show ?thesis
  proof (cases "view now s k")
    case None
    then show ?thesis using sp r dbOf_cong [of now s' s] by (simp add: dbOf_view)
  next
    case (Some c)
    obtain v t where c: "c = (v, t)" by (cases c)
    show ?thesis
    proof (cases v)
      case (VSet st)
      from sp Some c VSet obtain st' where st': "set st' = set st - set ms"
        "db s' = (db s)(k := if st' = [] then None else Some (VSet st', t))" "r = Inr (int (card (set ms \<inter> set st)))"
        by auto
      have e: "st' = [] \<longleftrightarrow> set st \<subseteq> set ms" using st'(1) by (metis Diff_eq_empty_iff set_empty)
      have "dbOf now s' = (dbOf now s)(k := if st' = [] then None else Some (DSet (set st'), t))"
        using dbOf_upd [OF st'(2), of now] view_alive [of now s k v t] Some c by (auto simp: put_def)
      then show ?thesis using Some c VSet r st'(1,3) e by (simp add: dbOf_view viewSet_def viewTTL_def)
    qed (use sp r Some c in \<open>auto simp: dbOf_view viewSet_def\<close>)
  qed
qed

lemma sets_simulated:
  assumes "storeInv s" and "Evict \<in> setLabels c \<Longrightarrow> maxMemBytes s = 0"
  shows "specSet now c (dbOf now s) = (dbOf now (setCall now c s), setAnswer now c s)"
proof (cases c)
  case (CSMembers k)
  then show ?thesis
    using readSet_abs [OF assms(1), of SetItems "\<lambda>st. SetItems (map_option set st)" Some None now k] by (simp add: SMembers_def)
next
  case (CSIsMember k m)
  then show ?thesis
    using readSet_abs [OF assms(1), of "\<lambda>st. Flag (m \<in> elemsOf st)" Flag "\<lambda>st. m \<in> set st" False now k]
    by (simp add: SIsMember_def elemsOf_def)
next
  case (CSCard k)
  then show ?thesis
    using readSet_abs [OF assms(1), of "\<lambda>st. Number (int (card (elemsOf st)))" Number "\<lambda>st. int (length st)" 0 now k]
    by (simp add: SCard_def elemsOf_def distinct_card)
qed (use write_set_specs [OF assms] SRem_abs [OF assms(1)] in \<open>simp_all\<close>)

text \<open>The calls that make room are those that may evict; the others do the same under a memory limit.\<close>

lemma call_simulated:
  assumes "storeInv s" and "Evict \<in> callLabels c \<Longrightarrow> maxMemBytes s = 0"
  shows "specCall now c (dbOf now s) = (dbOf now (call now c s), callAnswer now c s)"
  using assms by (cases c) (simp_all add: strings_simulated keys_simulated hashes_simulated lists_simulated sets_simulated)



section \<open>Histories\<close>

text \<open>A history is a sequence of calls with the times they are made at; \<open>historyOf\<close> collects the answers.\<close>

fun historyOf :: "(time \<Rightarrow> 'c \<Rightarrow> 's \<Rightarrow> 's \<times> 'r) \<Rightarrow> (time \<times> 'c) list \<Rightarrow> 's \<Rightarrow> 's \<times> 'r list" where
  "historyOf f [] s = (s, [])"
| "historyOf f ((t, c) # cs) s =
     (case f t c s of (s, a) \<Rightarrow> (case historyOf f cs s of (s, as) \<Rightarrow> (s, a # as)))"

text \<open>The contract between an implementation \<open>f\<close> and a specification \<open>g\<close>, whose states correspond by \<open>absAt\<close> at
  the time of the last call.\<close>

locale timed_simulation =
  fixes inv :: "'s \<Rightarrow> bool"
    and absAt :: "time \<Rightarrow> 's \<Rightarrow> 'd"
    and f :: "time \<Rightarrow> 'c \<Rightarrow> 's \<Rightarrow> 's \<times> 'r"
    and g :: "time \<Rightarrow> 'c \<Rightarrow> 'd \<Rightarrow> 'd \<times> 'r"
  assumes keeps: "inv s \<Longrightarrow> inv (fst (f t c s))"
    and step: "inv s \<Longrightarrow> t0 \<le> t \<Longrightarrow> g t c (absAt t0 s) = (absAt t (fst (f t c s)), snd (f t c s))"
begin

lemma history:
  "inv s \<Longrightarrow> sorted (t0 # map fst cs) \<Longrightarrow>
   historyOf g cs (absAt t0 s) = (absAt (last (t0 # map fst cs)) (fst (historyOf f cs s)), snd (historyOf f cs s))"
proof (induction cs arbitrary: s t0)
  case (Cons p cs)
  obtain t c where p: "p = (t, c)" by (cases p)
  obtain s' a where f: "f t c s = (s', a)" by (cases "f t c s")
  have "g t c (absAt t0 s) = (absAt t s', a)" using step [OF Cons.prems(1), of t0 t c] Cons.prems(2) p f by simp
  moreover have "inv s'" using keeps [OF Cons.prems(1), of t c] f by simp
  moreover have "sorted (t # map fst cs)" using Cons.prems(2) p by simp
  ultimately show ?case using Cons.IH [of s' t] p f by (simp add: split_beta)
qed simp

lemma invariant: "inv s \<Longrightarrow> inv (fst (historyOf f cs s))"
proof (induction cs arbitrary: s)
  case (Cons p cs)
  obtain t c where p: "p = (t, c)" by (cases p)
  show ?case using Cons.IH [OF keeps [OF Cons.prems, of t c]] by (simp add: p split_beta)
qed simp

end

definition storeCall :: "time \<Rightarrow> store_call \<Rightarrow> store \<Rightarrow> store \<times> answer" where
  "storeCall now c s = (call now c s, callAnswer now c s)"

text \<open>Time passes between the calls, and keys expire.\<close>

definition expire :: "time \<Rightarrow> database \<Rightarrow> database" where
  "expire now d k = (case d k of None \<Rightarrow> None | Some c \<Rightarrow> if alive now (snd c) then Some c else None)"

definition databaseCall :: "time \<Rightarrow> store_call \<Rightarrow> database \<Rightarrow> database \<times> answer" where
  "databaseCall now c d = specCall now c (expire now d)"

definition unlimited :: "store \<Rightarrow> bool" where
  "unlimited s \<longleftrightarrow> storeInv s \<and> maxMemBytes s = 0"

lemma dbOf_later: "t0 \<le> t \<Longrightarrow> dbOf t s = expire t (dbOf t0 s)"
  by (auto simp: dbOf_def expire_def view_def live_alive alive_def fun_eq_iff split: option.split)

interpretation store_sim: timed_simulation unlimited dbOf storeCall databaseCall
proof unfold_locales
  fix s :: store and t :: time and c :: store_call and t0 :: time
  assume "unlimited s"
  then have s: "storeInv s" "maxMemBytes s = 0" by (simp_all add: unlimited_def)
  show "unlimited (fst (storeCall t c s))"
    using store_calls.keeps_inv [OF s(1), of t c] store_calls.keeps_config [OF s(1), of t c] s(2)
    by (simp add: unlimited_def storeCall_def maxMemBytes_def)
  show "databaseCall t c (dbOf t0 s) = (dbOf t (fst (storeCall t c s)), snd (storeCall t c s))" if "t0 \<le> t"
    using call_simulated [OF s, of t c] dbOf_later [OF that, of s] by (simp add: databaseCall_def storeCall_def)
qed

text \<open>C6. The store is an abstract database.  From a new store without a memory limit, any sequence of calls, at times
  that do not go back, is answered exactly as the database that maps keys to values with expiries
  answers it, and leaves the keys, values and expiries of the database.\<close>

theorem store_refines_database:
  assumes "NewStore rnd cfg = Some s" and "maxMemBytes s = 0" and "sorted (t0 # map fst cs)"
  shows "historyOf databaseCall cs Map.empty =
    (dbOf (last (t0 # map fst cs)) (fst (historyOf storeCall cs s)), snd (historyOf storeCall cs s))"
proof -
  note n = NewStore_facts [OF assms(1)]
  have "dbOf t0 s = Map.empty" using n(2) by (simp add: dbOf_def view_def fun_eq_iff)
  moreover have "unlimited s" using n(1) assms(2) by (simp add: unlimited_def)
  ultimately show ?thesis using store_sim.history [of s t0 cs] assms(3) by simp
qed

theorem store_refines_database_witness:
  "snd (historyOf storeCall [(1, StringCall (CSet ''a'' ''x'' 5)), (3, StringCall (CAppend ''a'' ''y'')), (9, StringCall (CGet ''a''))] freshStore) =
     [Nothing, Number 2, Text None]"
proof -
  have "maxMemBytes freshStore = 0" by (simp add: maxMemBytes_def freshStore_config)
  from store_refines_database [OF freshStore_new this,
      of 0 "[(1, StringCall (CSet ''a'' ''x'' 5)), (3, StringCall (CAppend ''a'' ''y'')), (9, StringCall (CGet ''a''))]"]
  show ?thesis
    by (simp add: databaseCall_def expire_def put_def alive_def asString_def orEmpty_def ttlOf_def appendNil_def isZero_def
        zeroTime_def Let_def)
qed


section \<open>Types\<close>

text \<open>The keys a call works on and the type it wants there.\<close>

fun expects :: "store_call \<Rightarrow> bytes list \<times> bytes" where
  "expects (StringCall (CGet k)) = ([k], ''string'')"
| "expects (StringCall (CGetSet k _ _)) = ([k], ''string'')"
| "expects (StringCall (CAppend k _)) = ([k], ''string'')"
| "expects (StringCall (CIncrBy k _)) = ([k], ''string'')"
| "expects (StringCall (CDecrBy k _)) = ([k], ''string'')"
| "expects (StringCall (CMGet ks)) = (ks, ''string'')"
| "expects (HashCall (CHSet k ps)) = (if ps = [] then ([], []) else ([k], ''hash''))"
| "expects (HashCall (CHGet k _)) = ([k], ''hash'')"
| "expects (HashCall (CHGetAll k)) = ([k], ''hash'')"
| "expects (HashCall (CHDel k _)) = ([k], ''hash'')"
| "expects (HashCall (CHExists k _)) = ([k], ''hash'')"
| "expects (HashCall (CHLen k)) = ([k], ''hash'')"
| "expects (HashCall (CHSetNX k _ _)) = ([k], ''hash'')"
| "expects (HashCall (CHIncrBy k _ _)) = ([k], ''hash'')"
| "expects (HashCall (CHIncrByFloat _ k _ _)) = ([k], ''hash'')"
| "expects (ListCall (CLPush k _)) = ([k], ''list'')"
| "expects (ListCall (CRPush k _)) = ([k], ''list'')"
| "expects (ListCall (CLPushX k _)) = ([k], ''list'')"
| "expects (ListCall (CRPushX k _)) = ([k], ''list'')"
| "expects (ListCall (CLPop k _)) = ([k], ''list'')"
| "expects (ListCall (CRPop k _)) = ([k], ''list'')"
| "expects (ListCall (CLLen k)) = ([k], ''list'')"
| "expects (ListCall (CLRange k _ _)) = ([k], ''list'')"
| "expects (ListCall (CLIndex k _)) = ([k], ''list'')"
| "expects (ListCall (CLSet k _ _)) = ([k], ''list'')"
| "expects (ListCall (CLRem k _ _)) = ([k], ''list'')"
| "expects (ListCall (CLTrim k _ _)) = ([k], ''list'')"
| "expects (ListCall (CLInsert k _ _ _)) = ([k], ''list'')"
| "expects (SetCall (CSAdd k ms)) = (if ms = [] then ([], []) else ([k], ''set''))"
| "expects (SetCall (CSRem k _)) = ([k], ''set'')"
| "expects (SetCall (CSMembers k)) = ([k], ''set'')"
| "expects (SetCall (CSIsMember k _)) = ([k], ''set'')"
| "expects (SetCall (CSCard k)) = ([k], ''set'')"
| "expects _ = ([], [])"

text \<open>The calls that replace the value of a key by one of any type.\<close>

fun replaces :: "store_call \<Rightarrow> bytes \<Rightarrow> bool" where
  "replaces (StringCall (CSet k _ _)) k' \<longleftrightarrow> k = k'"
| "replaces (StringCall (CSetXX k _ _)) k' \<longleftrightarrow> k = k'"
| "replaces (StringCall (CMSet ps)) k' \<longleftrightarrow> k' \<in> fst ` set ps"
| "replaces (KeyCall (CRename _ k)) k' \<longleftrightarrow> k = k'"
| "replaces (KeyCall (CSnapshotEntry ent)) k' \<longleftrightarrow> snapKey ent = k'"
| "replaces (SetCall (CReplaceSet k _)) k' \<longleftrightarrow> k = k'"
| "replaces _ _ \<longleftrightarrow> False"

lemma typed_other:
  assumes "d k = Some (v, t)"
  shows "valType v \<noteq> ''string'' \<Longrightarrow> asString (d k) = Inl ErrWrongType"
    and "valType v \<noteq> ''hash'' \<Longrightarrow> asHash (d k) = Inl ErrWrongType"
    and "valType v \<noteq> ''list'' \<Longrightarrow> asList (d k) = Inl ErrWrongType"
    and "valType v \<noteq> ''set'' \<Longrightarrow> asSet (d k) = Inl ErrWrongType"
  using assms by (cases v; simp add: asString_def asHash_def asList_def asSet_def)+

lemma spec_wrong_type:
  assumes "expects c = (ks, ty)" and "k \<in> set ks" and "d k = Some (v, t)" and "valType v \<noteq> ty"
  shows "specCall now c d = (d, Failure ErrWrongType)"
  using assms typed_other [of d k v t]
  by (induction c rule: expects.induct)
    (auto simp: specIncr_def specMGet_def specPush_def specPop_def specShorten_def split: if_splits intro!: bexI [of _ k])

lemma spec_type_stable:
  assumes "\<not> replaces c k" and "d k = Some (v, t)" and "fst (specCall now c d) k = Some (v', t')"
  shows "valType v' = valType v"
proof (cases c)
  case (StringCall x)
  have rev: "map_of (rev ps) k = None" if "k \<notin> fst ` set ps" for ps :: "(bytes \<times> bytes) list"
    using that by (simp only: map_of_eq_None_iff set_rev) simp
  show ?thesis
  proof (cases x)
    case (CMSet ps)
    then have "map_of (rev ps) k = None" using StringCall assms(1) by (intro rev) simp
    then show ?thesis using CMSet StringCall assms by simp
  next
    case (CMSetNX ps)
    show ?thesis
    proof (cases "\<exists>k\<in>fst ` set ps. d k \<noteq> None")
      case True
      then show ?thesis using CMSetNX StringCall assms by auto
    next
      case False
      then have "map_of (rev ps) k = None" using assms(2) by (intro rev) auto
      then show ?thesis using False CMSetNX StringCall assms by (auto split: if_splits)
    qed
  qed (use StringCall assms in \<open>auto simp: reads_def typed_def put_def specIncr_def asString_def
        split: if_splits option.splits sum.splits aval.splits\<close>)
next
  case (KeyCall x)
  then show ?thesis using assms
    by (cases x) (auto simp: specExpireAt_def specTTL_def put_def split: if_splits option.splits)
next
  case (HashCall x)
  then show ?thesis using assms
    by (cases x) (auto simp: reads_def typed_def put_def asHash_def Let_def split: if_splits option.splits sum.splits aval.splits)
next
  case (ListCall x)
  then show ?thesis using assms
    by (cases x) (auto simp: reads_def typed_def put_def asList_def specPush_def specPop_def specShorten_def Let_def
        split: if_splits option.splits sum.splits aval.splits)
next
  case (SetCall x)
  then show ?thesis using assms
    by (cases x) (auto simp: reads_def typed_def put_def asSet_def split: if_splits option.splits sum.splits aval.splits)
qed

text \<open>A value of another type.\<close>

lemma view_other:
  assumes "view now s k = Some (v, t)"
  shows "typeName v \<noteq> ''string'' \<Longrightarrow> viewString (view now s k) = Inl ErrWrongType"
    and "typeName v \<noteq> ''hash'' \<Longrightarrow> viewHash (view now s k) = Inl ErrWrongType"
    and "typeName v \<noteq> ''list'' \<Longrightarrow> viewList (view now s k) = Inl ErrWrongType"
    and "typeName v \<noteq> ''set'' \<Longrightarrow> viewSet (view now s k) = Inl ErrWrongType"
  using assms by (cases v; simp add: viewString_def viewHash_def viewList_def viewSet_def)+

text \<open>The calls that make room find out about the type first.\<close>

lemma incrBy_wrong:
  assumes "storeInv s" and "in_int64 n" and "viewString (view now s k) = Inl e"
  shows "incrBy now s k n = (s, Inl e)"
proof -
  have "view now s k \<noteq> None" using assms(3) by (cases "view now s k") (simp_all add: viewString_def)
  then have "\<not> isExpired now e" if "getEntry s k = Some e" for e using that by (auto simp: view_getEntry split: if_splits)
  moreover obtain s' r where "incrBy now s k n = (s', r)" by (cases "incrBy now s k n")
  ultimately show ?thesis using incrBy_live [OF assms(1,2), of now k s' r] assms(3) by simp
qed

lemma hash_wrong:
  assumes "storeInv s" and "viewHash (view now s k) = Inl e"
  shows "ps \<noteq> [] \<Longrightarrow> HSet now s k ps = (s, Inl e)" "HSetNX now s k f v = (s, Inl e)"
    "HIncrBy now s k f (wrap64 n) = (s, Inl e)" "HIncrByFloat fo now s k f x = (s, Inl e)"
proof -
  show "ps \<noteq> [] \<Longrightarrow> HSet now s k ps = (s, Inl e)"
    using HSet_spec [OF assms(1) _ prod.collapse [symmetric], of ps now k] assms(2) by (simp add: prod_eq_iff)
  show "HSetNX now s k f v = (s, Inl e)"
    using HSetNX_spec [OF assms(1) prod.collapse [symmetric], of now k f v] assms(2) by (simp add: prod_eq_iff)
  show "HIncrBy now s k f (wrap64 n) = (s, Inl e)"
    using HIncrBy_spec(1) [OF assms(1) wrap64_in_range prod.collapse [symmetric], of now k f n] assms(2) by (simp add: prod_eq_iff)
  show "HIncrByFloat fo now s k f x = (s, Inl e)"
    using HIncrByFloat_spec [OF assms(1), of fo now k f x] assms(2) by (simp add: prod_eq_iff)
qed

lemma push_wrong:
  assumes "storeInv s" and "view now s k = Some (w, t)" "typeName w \<noteq> ''list''"
  shows "dbOf now (fst (listPush now s k vs left)) = dbOf now s \<and> snd (listPush now s k vs left) = Inl ErrWrongType"
    and "dbOf now (fst (listPushX now s k vs left)) = dbOf now s \<and> snd (listPushX now s k vs left) = Inl ErrWrongType"
    and "LInsert now s k b p x = (s, Inl ErrWrongType)"
proof -
  note v = view_other(3) [OF assms(2,3)]
  have none: "view now s k \<noteq> None" using assms(2) by simp
  obtain s0 r0 where l0: "listLenLocked now s k = (s0, r0)" by (cases "listLenLocked now s k")
  have l: "dbOf now (fst (listLenLocked now s k)) = dbOf now s \<and> snd (listLenLocked now s k) = Inl ErrWrongType"
    using listLenLocked_spec(2,3) [OF assms(1) l0] l0 v none dbOf_cong [of now s0 s] by (auto split: option.splits)
  show p: "dbOf now (fst (listPush now s k vs left)) = dbOf now s \<and> snd (listPush now s k vs left) = Inl ErrWrongType"
  proof (cases "vs = []")
    case False
    from listPush_spec [OF assms(1) False prod.collapse [symmetric], of now k left] v show ?thesis by simp
  qed (use l in \<open>simp add: listPush_def\<close>)
  show "dbOf now (fst (listPushX now s k vs left)) = dbOf now s \<and> snd (listPushX now s k vs left) = Inl ErrWrongType"
  proof (cases "vs = []")
    case False
    from listPushX_spec [OF assms(1) False prod.collapse [symmetric], of now k left] none p show ?thesis by simp
  qed (use l in \<open>simp add: listPushX_def\<close>)
  show "LInsert now s k b p x = (s, Inl ErrWrongType)"
    using LInsert_spec [OF assms(1) prod.collapse [symmetric], of now k b p x] assms(2,3) by (cases w) (simp_all add: prod_eq_iff)
qed

lemma string_wrong:
  assumes "storeInv s" and "viewString (view now s k) = Inl e"
  shows "GetSet now s k v t = (s, Inl e)" "Append now s k v = (s, Inl e)"
    "IncrBy now s k (wrap64 n) = (s, Inl e)" "DecrBy now s k (wrap64 n) = (s, Inl e)"
proof -
  show "GetSet now s k v t = (s, Inl e)" "Append now s k v = (s, Inl e)"
    using GetSet_spec [OF assms(1) prod.collapse [symmetric], of now k v t] Append_spec [OF assms(1) prod.collapse [symmetric], of now k v] assms(2)
    by (simp_all add: prod_eq_iff)
  show "IncrBy now s k (wrap64 n) = (s, Inl e)" "DecrBy now s k (wrap64 n) = (s, Inl e)"
    unfolding IncrBy_def DecrBy_def by (rule incrBy_wrong [OF assms(1) wrap64_in_range assms(2)])+
qed

lemma SAdd_wrong:
  "storeInv s \<Longrightarrow> viewSet (view now s k) = Inl e \<Longrightarrow> ms \<noteq> [] \<Longrightarrow> SAdd now s k ms = (s, Inl e)"
  using SAdd_spec [OF _ _ prod.collapse [symmetric], of s ms now k] by (simp add: prod_eq_iff)

lemma mapFrom_empty: "mapFrom ps = [] \<longleftrightarrow> ps = []"
  using mapFrom_keys [of ps] by auto

lemma guarded_wrong_type:
  assumes "storeInv s" and "Evict \<in> callLabels c" and "expects c = (ks, ty)" and "k \<in> set ks"
    and "view now s k = Some (v, t)" and "typeName v \<noteq> ty"
  shows "callAnswer now c s = Failure ErrWrongType \<and> dbOf now (call now c s) = dbOf now s"
proof (cases c)
  case (StringCall x)
  then show ?thesis using assms view_other(1) [OF assms(5)] string_wrong [OF assms(1)] by (cases x) auto
next
  case (KeyCall x)
  then show ?thesis using assms by (cases x) auto
next
  case (HashCall x)
  then show ?thesis using assms view_other(2) [OF assms(5)] hash_wrong [OF assms(1)]
    by (cases x) (auto simp: mapFrom_empty split: if_splits)
next
  case (ListCall x)
  then show ?thesis using assms push_wrong [OF assms(1,5)]
    by (cases x) (auto simp: LPush_def RPush_def LPushX_def RPushX_def)
next
  case (SetCall x)
  then show ?thesis using assms view_other(4) [OF assms(5)] SAdd_wrong [OF assms(1)] by (cases x) (auto split: if_splits)
qed

text \<open>C7. Values have types.  A call that works on a value of one type and finds another answers with the wrong-type
  error and changes nothing a client can see, with or without a memory limit.\<close>

theorem wrong_type_refused:
  assumes "storeInv s" and "expects c = (ks, ty)" and "k \<in> set ks"
    and "view now s k = Some (v, t)" and "typeName v \<noteq> ty"
  shows "callAnswer now c s = Failure ErrWrongType \<and> dbOf now (call now c s) = dbOf now s"
proof (cases "Evict \<in> callLabels c")
  case True
  from guarded_wrong_type [OF assms(1) True assms(2-5)] show ?thesis .
next
  case False
  with spec_wrong_type [OF assms(2,3), of "dbOf now s" "absValue v" t now] call_simulated [OF assms(1), of c now] assms(4,5)
  show ?thesis by (simp add: dbOf_at valType_abs)
qed

theorem wrong_type_refused_witness:
  "callAnswer 1 (ListCall (CLPush ''k'' [''v''])) ((oneString ''k'' ''x'' zeroTime)\<lparr>maxMemCache := 1\<rparr>) = Failure ErrWrongType \<and>
   callAnswer 1 (SetCall (CSMembers ''k'')) (oneString ''k'' ''x'' zeroTime) = Failure ErrWrongType"
proof -
  let ?s = "oneString ''k'' ''x'' zeroTime"
  note o = oneString_facts [of "''k''" "''x''" zeroTime]
  have v: "view 1 (?s\<lparr>maxMemCache := 1\<rparr>) ''k'' = Some (VString ''x'', zeroTime)" "view 1 ?s ''k'' = Some (VString ''x'', zeroTime)"
    using o(2) by (simp_all add: view_def live_def isZero_def)
  from o(1) have i: "storeInv (?s\<lparr>maxMemCache := 1\<rparr>)" by simp
  from wrong_type_refused [OF i _ _ v(1), of "ListCall (CLPush ''k'' [''v''])" "[''k'']" "''list''"]
    wrong_type_refused [OF o(1) _ _ v(2), of "SetCall (CSMembers ''k'')" "[''k'']" "''set''"] show ?thesis by simp
qed

text \<open>What a call leaves of a key it does not write.\<close>

lemma view_frame:
  assumes "db s' k = db s k \<or> db s' k = None" and "view now s k = Some (v, t)" and "view now s' k = Some (v', t')"
  shows "v' = v"
  using assms by (auto simp: view_def split: option.splits if_splits)

lemma wrote_type:
  assumes "storeInv s" and "wroteOrOOM key (w, u) s s' err" and "view now s k = Some (v, t)" and "view now s' k = Some (v', t')"
    and "k = key \<Longrightarrow> typeName w = typeName v"
  shows "typeName v' = typeName v"
proof -
  obtain s1 where p: "prims (quietLabels key) s s1"
    and e: "err = None \<and> prim {Write key} s1 s' \<and> db s' key = Some (w, u) \<or> err = Some ErrOOM \<and> s' = s1"
    using assms(2) by (auto simp: wroteOrOOM_def)
  have f: "db s1 k = db s k \<or> db s1 k = None" using prims_frame [OF p assms(1), of k] by auto
  show ?thesis
  proof (cases "s' = s1")
    case True
    then show ?thesis using view_frame [of s1 k s now, OF f assms(3)] assms(4) by blast
  next
    case False
    then have w: "prim {Write key} s1 s'" "db s' key = Some (w, u)" using e by auto
    show ?thesis
    proof (cases "k = key")
      case True
      then show ?thesis using w(2) assms(4,5) by (auto simp: view_def split: if_splits)
    next
      case False
      then have "db s' k = db s1 k \<or> db s' k = None" using prim_frame [OF w(1) prims_inv [OF p assms(1)], of k] by auto
      then show ?thesis using f view_frame [of s' k s now, OF _ assms(3,4)] by auto
    qed
  qed
qed

text \<open>A call that changes the value of a key as a value of its type, or fails.\<close>

definition keepsType :: "time \<Rightarrow> bytes \<Rightarrow> store \<Rightarrow> store \<Rightarrow> bool" where
  "keepsType now k s s' \<longleftrightarrow> view now s' = view now s \<or>
     (\<exists>w u err v t. wroteOrOOM k (w, u) s s' err \<and> view now s k = Some (v, t) \<and> typeName w = typeName v)"

lemma keepsType_same [simp]: "keepsType now k s s"
  by (simp add: keepsType_def)

lemma keepsType_view: "view now s' = view now s \<Longrightarrow> keepsType now k s s'"
  by (simp add: keepsType_def)

lemma keepsType_wrote:
  "wroteOrOOM k (w, u) s s' err \<Longrightarrow> view now s k = Some (v, t) \<Longrightarrow> typeName w = typeName v \<Longrightarrow> keepsType now k s s'"
  by (auto simp: keepsType_def)

lemma keepsType_stable:
  assumes "storeInv s" and "keepsType now k s s'" and "view now s k = Some (v, t)" and "view now s' k = Some (v', t')"
  shows "typeName v' = typeName v"
  using assms wrote_type [OF assms(1) _ assms(3,4)] by (auto simp: keepsType_def)

lemma view_typed:
  assumes "view now s k = Some (v, t)"
  shows "viewString (view now s k) = Inr b \<Longrightarrow> typeName v = ''string''" "viewHash (view now s k) = Inr h \<Longrightarrow> typeName v = ''hash''"
    "viewList (view now s k) = Inr l \<Longrightarrow> typeName v = ''list''" "viewSet (view now s k) = Inr st \<Longrightarrow> typeName v = ''set''"
  using assms by (cases v; simp add: viewString_def viewHash_def viewList_def viewSet_def)+

lemma strings_keep_type:
  assumes inv: "storeInv s" and v: "view now s k = Some (v, t)"
  shows "keepsType now k s (fst (SetNX now s k b u))" "keepsType now k s (fst (GetSet now s k b u))"
    "keepsType now k s (fst (Append now s k b))" "keepsType now k s (fst (incrBy now s k (wrap64 n)))"
    "k \<in> fst ` set ps \<Longrightarrow> keepsType now k s (fst (MSetNX now s (mapFrom ps)))"
proof -
  note w = keepsType_wrote [OF _ v] and ty = view_typed(1) [OF v]
  show "keepsType now k s (fst (SetNX now s k b u))"
    using SetNX_spec [OF inv prod.collapse [symmetric], of now k b u] v by simp
  show "keepsType now k s (fst (GetSet now s k b u))"
    using GetSet_spec [OF inv prod.collapse [symmetric], of now k b u] by (auto split: sum.splits dest: ty intro!: w)
  show "keepsType now k s (fst (Append now s k b))"
    using Append_spec [OF inv prod.collapse [symmetric], of now k b] by (auto split: sum.splits dest: ty intro!: w)
  have "\<not> isExpired now e" if "getEntry s k = Some e" for e using that v by (auto simp: view_getEntry split: if_splits)
  moreover obtain s' r where i: "incrBy now s k (wrap64 n) = (s', r)" by (cases "incrBy now s k (wrap64 n)")
  ultimately show "keepsType now k s (fst (incrBy now s k (wrap64 n)))"
    using incrBy_live [OF inv wrap64_in_range i] by (auto split: sum.splits if_splits dest: ty intro!: w)
  show "keepsType now k s (fst (MSetNX now s (mapFrom ps)))" if "k \<in> fst ` set ps"
    using MSetNX_spec(1) [OF inv mapFrom_ok prod.collapse [symmetric], of ps now] v that by (auto simp: mapFrom_keys split: if_splits)
qed

lemma hashes_keep_type:
  assumes inv: "storeInv s" and v: "view now s k = Some (v, t)"
  shows "keepsType now k s (fst (HSet now s k ps))" "keepsType now k s (fst (HSetNX now s k f b))"
    "keepsType now k s (fst (HIncrBy now s k f (wrap64 n)))" "keepsType now k s (fst (HIncrByFloat fo now s k f x))"
proof -
  note w = keepsType_wrote [OF _ v] and ty = view_typed(2) [OF v]
  show "keepsType now k s (fst (HSet now s k ps))"
  proof (cases "ps = []")
    case False
    from HSet_spec [OF inv False prod.collapse [symmetric], of now k] show ?thesis by (auto split: sum.splits dest: ty intro!: w)
  qed (simp add: HSet_def)
  show "keepsType now k s (fst (HSetNX now s k f b))"
    using HSetNX_spec [OF inv prod.collapse [symmetric], of now k f b] by (auto split: sum.splits if_splits dest: ty intro!: w)
  show "keepsType now k s (fst (HIncrBy now s k f (wrap64 n)))"
  proof (cases "viewHash (view now s k)")
    case (Inr h)
    from HIncrBy_spec(1) [OF inv wrap64_in_range prod.collapse [symmetric], of now k f n] Inr ty [OF Inr]
    show ?thesis by (auto split: sum.splits if_splits intro: keepsType_view w)
  qed (use hash_wrong(3) [OF inv] in simp)
  show "keepsType now k s (fst (HIncrByFloat fo now s k f x))"
  proof (cases "viewHash (view now s k)")
    case (Inr h)
    from HIncrByFloat_spec [OF inv, of fo now k f x "fst (HIncrByFloat fo now s k f x)" "snd (HIncrByFloat fo now s k f x)"] Inr ty [OF Inr]
    show ?thesis by (auto split: sum.splits intro: keepsType_view w)
  qed (use hash_wrong(4) [OF inv] in simp)
qed

lemma lists_keep_type:
  assumes inv: "storeInv s" and v: "view now s k = Some (v, t)"
  shows "keepsType now k s (fst (listPush now s k vs left))" "keepsType now k s (fst (listPushX now s k vs left))"
    "keepsType now k s (fst (LInsert now s k b p x))"
proof -
  note w = keepsType_wrote [OF _ v] and ty = view_typed(3) [OF v]
  have l: "keepsType now k s (fst (listLenLocked now s k))"
    using listLenLocked_spec(2) [OF inv prod.collapse [symmetric], of now k] by (simp add: keepsType_def)
  show p: "keepsType now k s (fst (listPush now s k vs left))"
  proof (cases "vs = []")
    case False
    from listPush_spec [OF inv False prod.collapse [symmetric], of now k left] show ?thesis by (auto split: sum.splits dest: ty intro!: w)
  qed (use l in \<open>simp add: listPush_def\<close>)
  show "keepsType now k s (fst (listPushX now s k vs left))"
  proof (cases "vs = []")
    case False
    from listPushX_spec [OF inv False prod.collapse [symmetric], of now k left] v p show ?thesis by simp
  qed (use l in \<open>simp add: listPushX_def\<close>)
  show "keepsType now k s (fst (LInsert now s k b p x))"
    using LInsert_spec [OF inv prod.collapse [symmetric], of now k b p x] v
    by (cases v) (auto split: if_splits intro: keepsType_view w)
qed

lemma sets_keep_type:
  assumes "storeInv s" and v: "view now s k = Some (v, t)"
  shows "keepsType now k s (fst (SAdd now s k ms))"
proof (cases "ms = []")
  case False
  from SAdd_spec [OF assms(1) False prod.collapse [symmetric], of now k] show ?thesis
    by (auto split: sum.splits dest: view_typed(4) [OF v] intro!: keepsType_wrote [OF _ v])
qed (simp add: SAdd_def)

lemma guarded_keeps_type:
  assumes "storeInv s" and "Evict \<in> callLabels c" and "\<not> replaces c k" and "Write k \<in> callLabels c"
    and "view now s k = Some (v, t)"
  shows "keepsType now k s (call now c s)"
proof (cases c)
  case (StringCall x)
  then show ?thesis using assms(2-4) strings_keep_type [OF assms(1,5)]
    by (cases x) (auto simp: IncrBy_def DecrBy_def writeManyLabels_def intro!: strings_keep_type(5) [OF assms(1,5)] intro: rev_image_eqI)
next
  case (KeyCall x)
  then show ?thesis using assms(2-4) by (cases x) auto
next
  case (HashCall x)
  then show ?thesis using assms(2-4) hashes_keep_type [OF assms(1,5)] by (cases x) auto
next
  case (ListCall x)
  then show ?thesis using assms(2-4) lists_keep_type [OF assms(1,5)]
    by (cases x) (auto simp: LPush_def RPush_def LPushX_def RPushX_def)
next
  case (SetCall x)
  then show ?thesis using assms(2-4) sets_keep_type [OF assms(1,5)] by (cases x) auto
qed

lemma guarded_no_shrink: "Evict \<in> callLabels c \<Longrightarrow> Shrink k \<notin> callLabels c"
proof (cases c)
  case (StringCall x)
  then show "Evict \<in> callLabels c \<Longrightarrow> Shrink k \<notin> callLabels c" by (cases x) (auto simp: writeManyLabels_def)
next
  case (KeyCall x)
  then show "Evict \<in> callLabels c \<Longrightarrow> Shrink k \<notin> callLabels c" by (cases x) auto
next
  case (HashCall x)
  then show "Evict \<in> callLabels c \<Longrightarrow> Shrink k \<notin> callLabels c" by (cases x) auto
next
  case (ListCall x)
  then show "Evict \<in> callLabels c \<Longrightarrow> Shrink k \<notin> callLabels c" by (cases x) auto
next
  case (SetCall x)
  then show "Evict \<in> callLabels c \<Longrightarrow> Shrink k \<notin> callLabels c" by (cases x) auto
qed

text \<open>C8. The type of a key does not change: whatever call is made, with or without a memory limit, a key that is there before and
  after it holds a value of the same type, unless the call replaces the value as a whole.\<close>

theorem type_is_stable:
  assumes "storeInv s" and "\<not> replaces c k"
    and "view now s k = Some (v, t)" and "view now (call now c s) k = Some (v', t')"
  shows "typeName v' = typeName v"
proof (cases "Evict \<in> callLabels c")
  case False
  with spec_type_stable [OF assms(2), of "dbOf now s" "absValue v" t now "absValue v'" t'] call_simulated [OF assms(1), of c now] assms(3,4)
  show ?thesis by (simp add: dbOf_at valType_abs)
next
  case True
  show ?thesis
  proof (cases "Write k \<in> callLabels c")
    case w: True
    from keepsType_stable [OF assms(1) guarded_keeps_type [OF assms(1) True assms(2) w assms(3)] assms(3,4)] show ?thesis .
  next
    case False
    from prims_frame [OF call_steps [OF assms(1)] assms(1) False guarded_no_shrink [OF True], of now]
    have "db (call now c s) k = db s k \<or> db (call now c s) k = None" by auto
    with view_frame [OF _ assms(3,4)] show ?thesis by simp
  qed
qed

theorem type_is_stable_witness:
  "view 1 (call 1 (StringCall (CAppend ''k'' ''y'')) (oneString ''k'' ''x'' zeroTime)) ''k'' = Some (VString ''xy'', zeroTime) \<and>
   typeName (VString ''xy'') = typeName (VString ''x'')"
proof -
  note o = oneString_facts [of "''k''" "''x''" zeroTime]
  let ?s = "oneString ''k'' ''x'' zeroTime" and ?c = "StringCall (CAppend ''k'' ''y'')"
  have m: "maxMemBytes ?s = 0" using o by (simp add: maxMemBytes_def)
  have v: "view 1 ?s ''k'' = Some (VString ''x'', zeroTime)" using o(2) by (simp add: view_def live_def isZero_def)
  have "dbOf 1 (call 1 ?c ?s) ''k'' = Some (DString ''xy'', zeroTime)"
    using arg_cong [OF call_simulated [OF o(1) m, of 1 ?c], of "\<lambda>r. fst r ''k''"] v
    by (simp add: dbOf_view viewString_def put_def alive_def isZero_def orEmpty_def viewTTL_def)
  then obtain u where u: "view 1 (call 1 ?c ?s) ''k'' = Some (u, zeroTime)" "absValue u = DString ''xy''" by (auto simp: dbOf_at)
  then have "u = VString ''xy''" by (cases u) auto
  with type_is_stable [OF o(1) _ v, of ?c] u show ?thesis by simp
qed

end
