(* ===== verification/Server_Stats.thy ===== *)
theory Server_Stats
  imports Go_Strings
begin

text \<open>
  The counters of a server (\<^verbatim>\<open>src/internal/server/stats.go\<close>), which the command layer reads for
  INFO, the management API reads for STATUS, and the peer mesh updates.  An \<^verbatim>\<open>atomic.Int64\<close> is an
  \<open>int\<close> whose addition wraps at 64 bits.
\<close>

record stats =
  stNodeID :: bytes
  stClientPort :: int
  stBuildVersion :: bytes
  stStart :: time
  activeClients :: int
  totalConns :: int
  totalCmds :: int
  keyspaceHits :: int
  keyspaceMisses :: int
  peerInbound :: int
  peerOutAddrs :: "bytes list"
  bootstrapState :: bytes
  bootstrapBytes :: int
  bootstrapKeys :: int
  bootstrapReplDepth :: int
  replDropped :: int
  replSendErrors :: int
  discoveredPeers :: int
  resyncs :: int
  replGapEvents :: int
  replMissedEvents :: int
  replLateEvents :: int

definition newStats :: "time \<Rightarrow> bytes \<Rightarrow> int \<Rightarrow> stats" where
  "newStats now nodeID clientPort =
     \<lparr>stNodeID = nodeID, stClientPort = clientPort, stBuildVersion = [], stStart = now, activeClients = 0,
      totalConns = 0, totalCmds = 0, keyspaceHits = 0, keyspaceMisses = 0, peerInbound = 0, peerOutAddrs = [],
      bootstrapState = ''standalone'', bootstrapBytes = 0, bootstrapKeys = 0, bootstrapReplDepth = 0,
      replDropped = 0, replSendErrors = 0, discoveredPeers = 0, resyncs = 0, replGapEvents = 0,
      replMissedEvents = 0, replLateEvents = 0\<rparr>"

definition setBootstrapState :: "bytes \<Rightarrow> stats \<Rightarrow> stats" where
  "setBootstrapState state s = s\<lparr>bootstrapState := state\<rparr>"

definition clientConnected :: "stats \<Rightarrow> stats" where
  "clientConnected s = s\<lparr>activeClients := wrap64 (activeClients s + 1), totalConns := wrap64 (totalConns s + 1)\<rparr>"

definition clientDisconnected :: "stats \<Rightarrow> stats" where
  "clientDisconnected s = s\<lparr>activeClients := wrap64 (activeClients s - 1)\<rparr>"

definition commandExecuted :: "stats \<Rightarrow> stats" where
  "commandExecuted s = s\<lparr>totalCmds := wrap64 (totalCmds s + 1)\<rparr>"

definition SetReplicationStats :: "int \<Rightarrow> bytes list \<Rightarrow> stats \<Rightarrow> stats" where
  "SetReplicationStats inbound addrs s = s\<lparr>peerInbound := inbound, peerOutAddrs := addrs\<rparr>"

definition SetBootstrapInboundQueueDepth :: "int \<Rightarrow> stats \<Rightarrow> stats" where
  "SetBootstrapInboundQueueDepth depth s = s\<lparr>bootstrapReplDepth := depth\<rparr>"

definition AddReplicationDropped :: "int \<Rightarrow> stats \<Rightarrow> stats" where
  "AddReplicationDropped n s = s\<lparr>replDropped := wrap64 (replDropped s + n)\<rparr>"

definition AddReplicationSendError :: "int \<Rightarrow> stats \<Rightarrow> stats" where
  "AddReplicationSendError n s = s\<lparr>replSendErrors := wrap64 (replSendErrors s + n)\<rparr>"

definition setDiscoveredPeers :: "int \<Rightarrow> stats \<Rightarrow> stats" where
  "setDiscoveredPeers n s = s\<lparr>discoveredPeers := n\<rparr>"

definition addResync :: "int \<Rightarrow> stats \<Rightarrow> stats" where
  "addResync n s = s\<lparr>resyncs := wrap64 (resyncs s + n)\<rparr>"

definition AddReplicationGap :: "int \<Rightarrow> stats \<Rightarrow> stats" where
  "AddReplicationGap missed s = s\<lparr>replGapEvents := wrap64 (replGapEvents s + 1)\<rparr>"

definition AddReplicationLost :: "int \<Rightarrow> stats \<Rightarrow> stats" where
  "AddReplicationLost n s = s\<lparr>replMissedEvents := wrap64 (replMissedEvents s + n)\<rparr>"

definition AddReplicationLate :: "int \<Rightarrow> stats \<Rightarrow> stats" where
  "AddReplicationLate n s = s\<lparr>replLateEvents := wrap64 (replLateEvents s + n)\<rparr>"

text \<open>Uptime and rate are computed in floating point from the seconds since the start; the truncation
  to an integer is that of the integer division up to the rounding of the last nanosecond.\<close>

definition statsUptimeSeconds :: "time \<Rightarrow> stats \<Rightarrow> int" where
  "statsUptimeSeconds now s = durSeconds (timeUntil (stStart s) now)"

definition statsOpsPerSec :: "time \<Rightarrow> stats \<Rightarrow> int" where
  "statsOpsPerSec now s =
     (let u = statsUptimeSeconds now s; u = (if u < 1 then 1 else u) in goDiv (totalCmds s) u)"

definition RecordHit :: "int \<Rightarrow> stats \<Rightarrow> stats" where
  "RecordHit n s = (if n > 0 then s\<lparr>keyspaceHits := wrap64 (keyspaceHits s + n)\<rparr> else s)"

definition RecordMiss :: "int \<Rightarrow> stats \<Rightarrow> stats" where
  "RecordMiss n s = (if n > 0 then s\<lparr>keyspaceMisses := wrap64 (keyspaceMisses s + n)\<rparr> else s)"

definition SetBuildVersion :: "bytes \<Rightarrow> stats \<Rightarrow> stats" where
  "SetBuildVersion v s = s\<lparr>stBuildVersion := trimSpace v\<rparr>"

definition ResetBootstrapStats :: "stats \<Rightarrow> stats" where
  "ResetBootstrapStats s = s\<lparr>bootstrapBytes := 0, bootstrapKeys := 0\<rparr>"

definition AddBootstrapBytes :: "int \<Rightarrow> stats \<Rightarrow> stats" where
  "AddBootstrapBytes n s = (if n > 0 then s\<lparr>bootstrapBytes := wrap64 (bootstrapBytes s + n)\<rparr> else s)"

definition AddBootstrapKeys :: "int \<Rightarrow> stats \<Rightarrow> stats" where
  "AddBootstrapKeys n s = (if n > 0 then s\<lparr>bootstrapKeys := wrap64 (bootstrapKeys s + n)\<rparr> else s)"

lemmas stats_defs =
  setBootstrapState_def clientConnected_def clientDisconnected_def commandExecuted_def SetReplicationStats_def
  SetBootstrapInboundQueueDepth_def AddReplicationDropped_def AddReplicationSendError_def setDiscoveredPeers_def
  addResync_def AddReplicationGap_def AddReplicationLost_def AddReplicationLate_def RecordHit_def RecordMiss_def
  SetBuildVersion_def ResetBootstrapStats_def AddBootstrapBytes_def AddBootstrapKeys_def

end
