(* ===== verification/Peer_Service.thy ===== *)
theory Peer_Service
  imports Replication Config Server_Stats
begin

text \<open>
  The state of the peer mesh (\<open>Service\<close> of \<^verbatim>\<open>src/internal/peer/service.go\<close>) and the identity of a
  node.  One record holds what the struct holds: the links and the target cache, the counters, the
  queue that buffers inbound events during a bootstrap, the sequence tracking, the inbound shards
  and what is known about each address.  A link is an object several fields point to, so links live
  in a store \<open>linkAt\<close> from addresses to links and the fields hold addresses.  The counters that number
  links and membership changes are natural numbers: they count events of one process.  The sequence
  numbers of events are 64-bit words.
\<close>


section \<open>Events and links\<close>

record wireRepl = ReplicatePayload +
  wireV :: int
  Seq :: "64 word"
  Origin :: bytes

definition ReplEnvelopeVersion :: int where
  "ReplEnvelopeVersion = 1"

text \<open>A frame is encoded on first use from these parts.\<close>

record replFrame =
  frWire :: wireRepl
  frNodeID :: bytes
  frTs :: int

text \<open>\<open>replCh\<close> is \<open>None\<close> for a nil channel, otherwise the buffered frames; \<open>replCap\<close> is its capacity.
  \<open>cancelled\<close> records the call of \<open>cancelSession\<close>.\<close>

record outPeer =
  opAddr :: bytes
  opNodeID :: bytes
  remoteID :: bytes
  inbound :: bool
  linkSeq :: nat
  replCh :: "replFrame list option"
  replCap :: nat
  replStop :: bool
  cancelled :: bool
  lastHeartbeatAck :: int

definition zeroLink :: outPeer where
  "zeroLink =
     \<lparr>opAddr = [], opNodeID = [], remoteID = [], inbound = False, linkSeq = 0, replCh = None, replCap = 0,
      replStop = False, cancelled = False, lastHeartbeatAck = 0\<rparr>"

datatype PeerSource = SourceConfig | SourceManual | SourceDiscovery | SourceLearned

definition forgettable :: "PeerSource \<Rightarrow> bool" where
  "forgettable p \<longleftrightarrow> p = SourceDiscovery \<or> p = SourceLearned"

record peerMeta =
  metaAddr :: bytes
  metaSource :: PeerSource
  metaAdded :: int
  metaLastOK :: int

record inboundReplJob =
  jobRemote :: bytes
  jobWire :: wireRepl


section \<open>The service\<close>

record service =
  svStore :: store
  svCfg :: Config
  svStats :: stats
  svNodeID :: bytes
  advertiseAddr :: "bytes option"
  replSeq :: "64 word"
  svLinkSeq :: nat
  targetsGen :: nat
  targetsCache :: "(nat \<times> nat list) option"
  linkAt :: "nat \<Rightarrow> outPeer"
  nextLink :: nat
  out :: "nat list"
  inboundCount :: int
  activeDial :: "(bytes, bool) gomap option"
  bootstrapReplBuf :: "wireRepl list"
  bootstrapMaxCap :: int
  bootstrapActive :: bool
  inboundLastHB :: "(bytes, int) gomap"
  originSeq :: "(bytes, 64 word) gomap"
  missing :: "(bytes, (64 word, int) gomap) gomap"
  resyncRequests :: "bytes list"
  inboundShards :: "inboundReplJob list list"
  peerMetas :: "(bytes, peerMeta) gomap"

text \<open>\<open>activeDial\<close> is \<open>None\<close> before \<open>Run\<close> and then holds the addresses with a dial loop and whether the loop
  has been cancelled; \<open>resyncRequests\<close>
  records the calls of the resync requester with their reasons.\<close>

definition NewService :: "Config \<Rightarrow> store \<Rightarrow> stats \<Rightarrow> bytes \<Rightarrow> service" where
  "NewService cfg st metrics nodeID =
     \<lparr>svStore = st, svCfg = cfg, svStats = metrics, svNodeID = nodeID, advertiseAddr = None, replSeq = 0,
      svLinkSeq = 0, targetsGen = 0, targetsCache = None, linkAt = (\<lambda>_. zeroLink), nextLink = 0, out = [],
      inboundCount = 0, activeDial = None, bootstrapReplBuf = [], bootstrapMaxCap = 0, bootstrapActive = False,
      inboundLastHB = [], originSeq = [], missing = [], resyncRequests = [], inboundShards = [], peerMetas = []\<rparr>"

definition SetConfig :: "Config option \<Rightarrow> service \<Rightarrow> service" where
  "SetConfig cfg sv = (case cfg of None \<Rightarrow> sv | Some c \<Rightarrow> sv\<lparr>svCfg := c\<rparr>)"

definition SetAdvertiseAddr :: "bytes \<Rightarrow> service \<Rightarrow> service" where
  "SetAdvertiseAddr addr sv = sv\<lparr>advertiseAddr := Some (trimSpace addr)\<rparr>"

definition svAdvertise :: "service \<Rightarrow> bytes" where
  "svAdvertise sv = (case advertiseAddr sv of Some a \<Rightarrow> a | None \<Rightarrow> [])"

definition isSelf :: "bytes \<Rightarrow> bytes \<Rightarrow> service \<Rightarrow> bool" where
  "isSelf nodeID addr sv \<longleftrightarrow>
     nodeID \<noteq> [] \<and> nodeID = svNodeID sv \<or>
     (let adv = svAdvertise sv in adv \<noteq> [] \<and> addr \<noteq> [] \<and> NormalizePeerAddr adv = NormalizePeerAddr addr)"

definition ConfigPeerAddrs :: "service \<Rightarrow> bytes list" where
  "ConfigPeerAddrs sv = Peers (svCfg sv)"

definition LiveLinkCount :: "service \<Rightarrow> nat" where
  "LiveLinkCount sv = length (out sv)"

definition onStats :: "(stats \<Rightarrow> stats) \<Rightarrow> service \<Rightarrow> service" where
  "onStats f sv = sv\<lparr>svStats := f (svStats sv)\<rparr>"

definition onLink :: "nat \<Rightarrow> (outPeer \<Rightarrow> outPeer) \<Rightarrow> service \<Rightarrow> service" where
  "onLink i f sv = sv\<lparr>linkAt := (linkAt sv)(i := f (linkAt sv i))\<rparr>"

text \<open>Applying an event to the store.\<close>

definition applyWireRepl :: "time \<Rightarrow> store \<Rightarrow> wireRepl \<Rightarrow> store \<times> apply_error option" where
  "applyWireRepl now st w =
     applyReplicatePayload now st
       \<lparr>Op = Op w, Key = Key w, Val = Val w, TTLms = TTLms w, Cnt = Cnt w, Dest = Dest w, Fields = Fields w,
        Members = Members w\<rparr>"

end
