(* ===== verification/Peer_Gaps.thy ===== *)
theory Peer_Gaps
  imports Peer_Service
begin

text \<open>
  Detecting lost events: the sequence number of each arrival is compared with the last one of its
  origin, skipped numbers are held for a grace period, and what has not turned up by then is
  reported and asks for a resync (\<open>noteReplArrival\<close> of \<^verbatim>\<open>src/internal/peer/service.go\<close> and
  \<^verbatim>\<open>src/internal/peer/resync.go\<close>).
\<close>


section \<open>The tracker\<close>

definition gapGrace :: int where
  "gapGrace = 5 * durSecond"

definition gapTrackLimit :: "64 word" where
  "gapTrackLimit = 256"

type_synonym gapTracker = "(bytes, (64 word, int) gomap) gomap"

text \<open>The numbers from \<open>a\<close> up to and without \<open>b\<close>, as the loop counts them.\<close>

definition seqsFrom :: "64 word \<Rightarrow> 64 word \<Rightarrow> 64 word list" where
  "seqsFrom a b = map word_of_nat [unat a ..< unat b]"

definition gapNote :: "time \<Rightarrow> bytes \<Rightarrow> 64 word \<Rightarrow> 64 word \<Rightarrow> gapTracker \<Rightarrow> bool \<times> gapTracker" where
  "gapNote now origin prev got g =
     (if got \<le> prev + 1 then (False, g)
      else if got - prev - 1 > gapTrackLimit then (True, g)
      else let deadline = timeToUnixMilli (timeAdd now gapGrace);
               m = (case mapGet g origin of Some m \<Rightarrow> m | None \<Rightarrow> [])
           in (False, mapPut origin (fold (\<lambda>seq m. mapPut seq deadline m) (seqsFrom (prev + 1) got) m) g))"

definition gapArrived :: "bytes \<Rightarrow> 64 word \<Rightarrow> gapTracker \<Rightarrow> gapTracker" where
  "gapArrived origin seq g =
     (case mapGet g origin of
        None \<Rightarrow> g
      | Some m \<Rightarrow> let m = mapDel seq m in if m = [] then mapDel origin g else mapPut origin m g)"

text \<open>The origins with expired numbers and how many, and what remains.\<close>

definition gapExpired :: "time \<Rightarrow> gapTracker \<Rightarrow> (bytes, int) gomap \<times> gapTracker" where
  "gapExpired now g =
     (let cutoff = timeToUnixMilli now; old = (\<lambda>(seq, deadline). deadline \<le> cutoff)
      in (filter (\<lambda>(origin, n). n > 0) (map (\<lambda>(origin, m). (origin, int (length (filter old m)))) g),
          filter (\<lambda>(origin, m). m \<noteq> []) (map (\<lambda>(origin, m). (origin, filter (\<lambda>e. \<not> old e) m)) g)))"

definition gapReset :: "gapTracker \<Rightarrow> gapTracker" where
  "gapReset g = []"


section \<open>Arrivals\<close>

definition requestResync :: "bytes \<Rightarrow> service \<Rightarrow> service" where
  "requestResync reason sv = sv\<lparr>resyncRequests := resyncRequests sv @ [reason]\<rparr>"

definition confirmLoss :: "64 word \<Rightarrow> service \<Rightarrow> service" where
  "confirmLoss missed sv = requestResync ''large replication gap'' (onStats (AddReplicationLost (sint missed)) sv)"

definition noteReplArrival :: "time \<Rightarrow> wireRepl \<Rightarrow> service \<Rightarrow> service" where
  "noteReplArrival now wr sv =
     (let origin = trimSpace (Origin wr); seq = Seq wr
      in if origin = [] \<or> seq = 0 \<or> origin = svNodeID sv then sv
         else case mapGet (originSeq sv) origin of
                None \<Rightarrow> sv\<lparr>originSeq := mapPut origin seq (originSeq sv)\<rparr>
              | Some prev \<Rightarrow>
                  if seq = prev + 1 then sv\<lparr>originSeq := mapPut origin seq (originSeq sv)\<rparr>
                  else if seq > prev + 1 then
                    let missed = seq - prev - 1;
                        sv = onStats (AddReplicationGap (sint missed)) (sv\<lparr>originSeq := mapPut origin seq (originSeq sv)\<rparr>)
                    in case gapNote now origin prev seq (missing sv) of
                         (lost, g) \<Rightarrow> if lost then confirmLoss missed (sv\<lparr>missing := g\<rparr>) else sv\<lparr>missing := g\<rparr>
                  else if seq = 1 then sv\<lparr>originSeq := mapPut origin seq (originSeq sv)\<rparr>
                  else onStats (AddReplicationLate 1) (sv\<lparr>missing := gapArrived origin seq (missing sv)\<rparr>))"

text \<open>One tick of the loop that watches the gaps.\<close>

definition watchGaps :: "time \<Rightarrow> service \<Rightarrow> service" where
  "watchGaps now sv =
     (case gapExpired now (missing sv) of
        (lost, g) \<Rightarrow>
          let sv = sv\<lparr>missing := g\<rparr>
          in if lost = [] then sv
             else let total = sum_list (map snd lost);
                      sv = (if total > 0 then onStats (AddReplicationLost total) sv else sv)
                  in requestResync ''confirmed replication loss'' sv)"

definition ResetReplicationTracking :: "service \<Rightarrow> service" where
  "ResetReplicationTracking sv = sv\<lparr>originSeq := [], missing := gapReset (missing sv)\<rparr>"


section \<open>What is tracked is what is missing\<close>

definition missingOf :: "bytes \<Rightarrow> gapTracker \<Rightarrow> nat set" where
  "missingOf origin g = (case mapGet g origin of None \<Rightarrow> {} | Some m \<Rightarrow> unat ` fst ` set m)"

definition trackerOk :: "gapTracker \<Rightarrow> bool" where
  "trackerOk g \<longleftrightarrow> mapOk g \<and> (\<forall>m\<in>snd ` set g. mapOk m)"

text \<open>An event of an origin.\<close>

definition event :: "bytes \<Rightarrow> nat \<Rightarrow> wireRepl" where
  "event origin n =
     \<lparr>Op = ''DEL'', Key = [], Val = [], TTLms = 0, Cnt = 0, Dest = [], Fields = [], Members = [],
      wireV = ReplEnvelopeVersion, Seq = word_of_nat n, Origin = origin\<rparr>"

lemma seqsFrom_set: "n < 2 ^ 64 \<Longrightarrow> unat ` set (seqsFrom (word_of_nat k) (word_of_nat n)) = {k mod 2 ^ 64 ..< n}"
  by (auto simp: seqsFrom_def unat_of_nat image_iff)

lemma w64: "n < 2 ^ 64 \<Longrightarrow> unat (word_of_nat n :: 64 word) = n"
  by (simp add: unat_of_nat)

lemma fold_put_keys: "fst ` set (fold (\<lambda>k m. mapPut k v m) ks m) = set ks \<union> fst ` set m"
  by (induction ks arbitrary: m) auto

lemma fold_put_ok: "mapOk m \<Longrightarrow> mapOk (fold (\<lambda>k m. mapPut k v m) ks m)"
  by (induction ks arbitrary: m) auto


lemma trackerOk_put: "trackerOk g \<Longrightarrow> mapOk m \<Longrightarrow> trackerOk (mapPut o' m g)"
proof (induction g)
  case (Cons e g)
  then show ?case by (cases e) (auto simp: trackerOk_def)
qed (simp add: trackerOk_def)

lemma trackerOk_get: "trackerOk g \<Longrightarrow> mapGet g o' = Some m \<Longrightarrow> mapOk m"
  by (auto simp: trackerOk_def dest!: map_of_SomeD intro: rev_image_eqI)

lemma trackerOk_del: "trackerOk g \<Longrightarrow> trackerOk (mapDel o' g)"
  by (auto simp: trackerOk_def intro: AList.distinct_delete) (auto simp: AList.delete_eq)

lemma gapNote_spec:
  assumes "gapNote now o' (word_of_nat p) (word_of_nat n) g = (lost, g')" and "p + 1 < n" and "n < 2 ^ 64" and "n \<le> p + 257"
  shows "\<not> lost" and "missingOf o' g' = missingOf o' g \<union> {p <..< n}"
    and "o'' \<noteq> o' \<Longrightarrow> missingOf o'' g' = missingOf o'' g" and "trackerOk g \<Longrightarrow> trackerOk g'"
proof -
  have w: "word_of_nat p + 1 = (word_of_nat (p + 1) :: 64 word)" by simp
  have d: "word_of_nat n - word_of_nat p - 1 = (word_of_nat (n - p - 1) :: 64 word)"
    using assms(2) by (simp add: of_nat_diff)
  have l: "\<not> (word_of_nat n :: 64 word) \<le> word_of_nat (p + 1)"
    unfolding word_le_nat_alt using w64 [OF assms(3)] w64 [of "p + 1"] assms(2,3) by simp
  have s: "\<not> (word_of_nat (n - p - 1) :: 64 word) > gapTrackLimit"
    unfolding word_less_nat_alt using w64 [of "n - p - 1"] assms(2,3,4) by (simp add: gapTrackLimit_def)
  define m where "m = (case mapGet g o' of Some m \<Rightarrow> m | None \<Rightarrow> [])"
  define m' where "m' = fold (\<lambda>seq m. mapPut seq (timeToUnixMilli (timeAdd now gapGrace)) m) (seqsFrom (word_of_nat (p + 1)) (word_of_nat n)) m"
  have r: "lost = False" "g' = mapPut o' m' g"
    using assms(1) l s unfolding gapNote_def w d by (auto simp: Let_def m_def m'_def)
  have "unat ` fst ` set m' = {p <..< n} \<union> unat ` fst ` set m"
    using assms(2,3) seqsFrom_set [of n "p + 1"] by (auto simp: m'_def fold_put_keys image_Un)
  then show "missingOf o' g' = missingOf o' g \<union> {p <..< n}" by (auto simp: missingOf_def r m_def split: option.splits)
  show "\<not> lost" by (simp add: r)
  show "o'' \<noteq> o' \<Longrightarrow> missingOf o'' g' = missingOf o'' g" by (simp add: missingOf_def r)
  assume ok: "trackerOk g"
  then have "mapOk m" by (auto simp: m_def dest: trackerOk_get split: option.split)
  with ok show "trackerOk g'" by (simp add: r trackerOk_put m'_def fold_put_ok)
qed

lemma gapArrived_spec:
  assumes "n < 2 ^ 64" 
  shows "missingOf o' (gapArrived o' (word_of_nat n) g) = missingOf o' g - {n}"
    and "o'' \<noteq> o' \<Longrightarrow> missingOf o'' (gapArrived o' seq g) = missingOf o'' g"
    and "trackerOk g \<Longrightarrow> trackerOk (gapArrived o' seq g)"
proof -
  have n: "unat (word_of_nat n :: 64 word) = n" using assms by (simp add: unat_of_nat)
  have "unat ` (A - {word_of_nat n :: 64 word}) = unat ` A - {n}" for A
    using n by (auto dest: sym)
  then have k: "unat ` fst ` set (mapDel (word_of_nat n :: 64 word) m) = unat ` fst ` set m - {n}" for m :: "(64 word, int) gomap"
    by simp
  show "missingOf o' (gapArrived o' (word_of_nat n) g) = missingOf o' g - {n}"
  proof (cases "mapGet g o'")
    case (Some m)
    with k [of m] show ?thesis by (cases "mapDel (word_of_nat n) m = []") (simp_all add: missingOf_def gapArrived_def Let_def)
  qed (simp add: missingOf_def gapArrived_def)
  show "o'' \<noteq> o' \<Longrightarrow> missingOf o'' (gapArrived o' seq g) = missingOf o'' g"
    by (auto simp: missingOf_def gapArrived_def Let_def split: option.split)
  show "trackerOk g \<Longrightarrow> trackerOk (gapArrived o' seq g)"
    using trackerOk_get [of g o']
    by (auto simp: gapArrived_def Let_def split: option.split intro!: trackerOk_put trackerOk_del AList.distinct_delete)
qed


section \<open>A stream of arrivals\<close>

text \<open>The jumps a stream makes beyond the highest number seen.\<close>

fun smallJumps :: "nat \<Rightarrow> nat list \<Rightarrow> bool" where
  "smallJumps hi [] = True"
| "smallJumps hi (y # ys) \<longleftrightarrow> y \<le> hi + 257 \<and> smallJumps (max hi y) ys"

definition arrivals :: "(time \<times> nat) list \<Rightarrow> bytes \<Rightarrow> service \<Rightarrow> service" where
  "arrivals evs origin sv = fold (\<lambda>(t, n). noteReplArrival t (event origin n)) evs sv"

text \<open>What a stream that began with \<open>x\<close> and has seen \<open>seen\<close> leaves of an origin.\<close>

definition tracked :: "bytes \<Rightarrow> nat \<Rightarrow> nat set \<Rightarrow> nat \<Rightarrow> service \<Rightarrow> service \<Rightarrow> bool" where
  "tracked origin x seen hi sv sv' \<longleftrightarrow>
     mapGet (originSeq sv') origin = Some (word_of_nat hi) \<and>
     missingOf origin (missing sv') = {x <..< hi} - seen \<and> trackerOk (missing sv') \<and>
     (\<forall>other. other \<noteq> origin \<longrightarrow> missingOf other (missing sv') = missingOf other (missing sv)) \<and>
     resyncRequests sv' = resyncRequests sv \<and> replMissedEvents (svStats sv') = replMissedEvents (svStats sv) \<and>
     svNodeID sv' = svNodeID sv"

lemma gap_fields [simp]:
  "missing (onStats f sv) = missing sv" "originSeq (onStats f sv) = originSeq sv" "resyncRequests (onStats f sv) = resyncRequests sv"
  "svNodeID (onStats f sv) = svNodeID sv" "svStats (onStats f sv) = f (svStats sv)"
  by (simp_all add: onStats_def)

lemma tracked_step:
  assumes t: "tracked origin x seen hi sv sv'" and o: "origin \<noteq> []" "trimSpace origin = origin" "origin \<noteq> svNodeID sv"
    and n: "1 < n" "n < 2 ^ 63" and hi: "hi < 2 ^ 63" "0 < hi" "x \<le> hi" "hi = x \<or> hi \<in> seen" "\<forall>s\<in>seen. s \<le> hi" and j: "n \<le> hi + 257"
  shows "tracked origin x (insert n seen) (max hi n) sv (noteReplArrival now (event origin n) sv')"
proof -
  have w: "word_of_nat hi + 1 = (word_of_nat (hi + 1) :: 64 word)" by simp
  have eq: "(word_of_nat a :: 64 word) = word_of_nat b \<longleftrightarrow> a = b" if "a < 2 ^ 64" "b < 2 ^ 64" for a b
    using that w64 by metis
  have gt: "(word_of_nat a :: 64 word) < word_of_nat b \<longleftrightarrow> a < b" if "a < 2 ^ 64" "b < 2 ^ 64" for a b
    using that by (simp add: word_less_nat_alt w64)
  have n0: "word_of_nat n \<noteq> (0 :: 64 word)" "word_of_nat n \<noteq> (1 :: 64 word)"
    using eq [of n 0] eq [of n 1] n by auto
  have s: "word_of_nat n = word_of_nat hi + (1 :: 64 word) \<longleftrightarrow> n = hi + 1"
    "word_of_nat n > word_of_nat hi + (1 :: 64 word) \<longleftrightarrow> n > hi + 1"
    unfolding w using eq [of n "hi + 1"] gt [of "hi + 1" n] n hi by auto
  from t have g: "mapGet (originSeq sv') origin = Some (word_of_nat hi)" "svNodeID sv' = svNodeID sv"
    and m: "missingOf origin (missing sv') = {x <..< hi} - seen" "trackerOk (missing sv')" by (auto simp: tracked_def)
  consider "n = hi + 1" | "n > hi + 1" | "n \<le> hi" by linarith
  then show ?thesis
  proof cases
    case 1
    have "{x <..< hi + 1} - insert (hi + 1) seen = {x <..< hi} - seen" using hi(3,4) by (auto simp: less_Suc_eq)
    with 1 t o n0 g s show ?thesis by (simp add: noteReplArrival_def event_def tracked_def Let_def max_def)
  next
    case 2
    obtain lost g' where gn: "gapNote now origin (word_of_nat hi) (word_of_nat n) (missing sv') = (lost, g')" by fastforce
    note sp = gapNote_spec [OF gn _ _ j]
    have "{x <..< n} - insert n seen = {x <..< hi} - seen \<union> {hi <..< n}"
      using hi(3,4,5) 2 by (auto simp: not_less) (metis le_neq_implies_less)
    with 2 n t o n0 g s sp gn m show ?thesis
      by (simp add: noteReplArrival_def event_def tracked_def Let_def max_def AddReplicationGap_def)
  next
    case 3
    have "\<not> n > hi + 1" "n \<noteq> hi + 1" "max hi n = hi" using 3 by auto
    then have r: "noteReplArrival now (event origin n) sv' =
      onStats (AddReplicationLate 1) (sv'\<lparr>missing := gapArrived origin (word_of_nat n) (missing sv')\<rparr>)"
      using o n0 g s by (simp add: noteReplArrival_def event_def Let_def)
    have "n < 2 ^ 64" using n by simp
    note ga = gapArrived_spec(1) [OF this, of origin "missing sv'"] gapArrived_spec(2) [OF this] gapArrived_spec(3) [OF this m(2)]
    have "{x <..< hi} - seen - {n} = {x <..< hi} - insert n seen" by auto
    with t ga m \<open>max hi n = hi\<close> show ?thesis unfolding r by (simp add: tracked_def AddReplicationLate_def)
  qed
qed

lemma smallJumps_snoc: "smallJumps hi (ys @ [y]) \<longleftrightarrow> smallJumps hi ys \<and> y \<le> Max (insert hi (set ys)) + 257"
proof (induction ys arbitrary: hi)
  case (Cons a ys)
  have "Max (insert (max hi a) (set ys)) = Max (insert hi (insert a (set ys)))" by (cases "ys = []") (simp_all add: max.assoc)
  with Cons show ?case by simp
qed simp

lemma tracked_continue:
  assumes start: "tracked origin x {} x sv sv0" and o: "origin \<noteq> []" "trimSpace origin = origin" "origin \<noteq> svNodeID sv"
    and x: "0 < x" "x < 2 ^ 63" and ys: "smallJumps x (map snd evs)" "\<forall>n\<in>set (map snd evs). 1 < n \<and> n < 2 ^ 63"
  shows "tracked origin x (set (map snd evs)) (Max (insert x (set (map snd evs)))) sv (arrivals evs origin sv0)"
  using ys
proof (induction evs rule: rev_induct)
  case Nil
  show ?case using start by (simp add: arrivals_def)
next
  case (snoc e evs)
  obtain t n where e: "e = (t, n)" by fastforce
  let ?S = "set (map snd evs)" and ?hi = "Max (insert x (set (map snd evs)))"
  have sj: "smallJumps x (map snd evs)" "n \<le> ?hi + 257"
    using snoc.prems(1) by (simp_all add: e smallJumps_snoc del: smallJumps.simps)
  have b: "\<forall>s\<in>?S. 1 < s \<and> s < 2 ^ 63" and n: "1 < n" "n < 2 ^ 63" using snoc.prems(2) by (simp_all add: e)
  note IH = snoc.IH [OF sj(1) b]
  have hi: "?hi < 2 ^ 63" "0 < ?hi" "x \<le> ?hi" "?hi = x \<or> ?hi \<in> ?S" "\<forall>s\<in>?S. s \<le> ?hi"
  proof -
    have mem: "?hi \<in> insert x ?S" by (rule Max_in) auto
    then show "?hi = x \<or> ?hi \<in> ?S" by blast
    show le: "x \<le> ?hi" "\<forall>s\<in>?S. s \<le> ?hi" by (auto intro: Max_ge)
    show "?hi < 2 ^ 63" by (rule bspec [OF _ mem]) (use b x(2) in simp)
    show "0 < ?hi" using le(1) x(1) by linarith
  qed
  from tracked_step [OF IH o n hi sj(2), of t]
  have "tracked origin x (insert n ?S) (max ?hi n) sv (noteReplArrival t (event origin n) (arrivals evs origin sv0))" .
  moreover have "max ?hi n = Max (insert x (set (map snd (evs @ [e]))))"
    by (cases "evs = []") (auto simp: e max.commute max.left_commute)
  ultimately show ?case by (simp add: e arrivals_def)
qed


text \<open>The first event of an origin starts a stream.\<close>

lemma tracked_start:
  assumes o: "origin \<noteq> []" "trimSpace origin = origin" "origin \<noteq> svNodeID sv" and x: "0 < x" "x < 2 ^ 63"
    and fresh: "mapGet (originSeq sv) origin = None" "missing sv = []"
  shows "tracked origin x {} x sv (noteReplArrival t0 (event origin x) sv)"
proof -
  have "word_of_nat x \<noteq> (0 :: 64 word)"
  proof
    assume "word_of_nat x = (0 :: 64 word)"
    with w64 [of x] x show False by simp
  qed
  with o fresh show ?thesis by (simp add: noteReplArrival_def event_def tracked_def missingOf_def trackerOk_def Let_def)
qed

text \<open>So does number 1 after a higher number, which is taken for a restart of the origin.\<close>

lemma tracked_restart:
  assumes "tracked origin x {} x sv sv0" and "origin \<noteq> []" "trimSpace origin = origin" "origin \<noteq> svNodeID sv"
    and "1 < x" "x < 2 ^ 63" "missing sv0 = []"
  shows "tracked origin 1 {} 1 sv (noteReplArrival t (event origin 1) sv0)"
    and "missing (noteReplArrival t (event origin 1) sv0) = []"
proof -
  have u: "unat (word_of_nat x + 1 :: 64 word) = x + 1" using w64 [of "x + 1"] assms(6) by (simp add: add.commute)
  have "(1 :: 64 word) \<noteq> word_of_nat x + 1"
  proof
    assume "(1 :: 64 word) = word_of_nat x + 1"
    then have "x + 1 = 1" using u by (metis unat_1)
    with assms(5) show False by simp
  qed
  moreover have "\<not> word_of_nat x + 1 < (1 :: 64 word)" using u by (simp add: word_less_nat_alt)
  moreover have "mapGet (originSeq sv0) origin = Some (word_of_nat x)" "svNodeID sv0 = svNodeID sv" using assms(1) by (simp_all add: tracked_def)
  ultimately have "noteReplArrival t (event origin 1) sv0 = sv0\<lparr>originSeq := mapPut origin 1 (originSeq sv0)\<rparr>"
    using assms(2-4) by (simp add: noteReplArrival_def event_def Let_def)
  with assms(1,7) show "tracked origin 1 {} 1 sv (noteReplArrival t (event origin 1) sv0)" "missing (noteReplArrival t (event origin 1) sv0) = []"
    by (simp_all add: tracked_def missingOf_def)
qed


section \<open>Reporting a loss\<close>

text \<open>When everything that is missing has run out its grace, all of it is reported.\<close>

lemma gapExpired_none: "fst (gapExpired now g) = [] \<longleftrightarrow> sum_list (map snd (fst (gapExpired now g))) = 0"
proof -
  have "ps = [] \<longleftrightarrow> sum_list (map snd ps) = 0" if "\<forall>p\<in>set ps. 0 < snd p" for ps :: "(bytes \<times> int) list"
  proof (cases ps)
    case (Cons p qs)
    have "0 \<le> sum_list (map snd qs)" by (rule sum_list_nonneg) (use that Cons in \<open>auto intro: less_imp_le\<close>)
    with that Cons show ?thesis by simp
  qed simp
  moreover have "\<forall>p\<in>set (fst (gapExpired now g)). 0 < snd p" by (auto simp: gapExpired_def Let_def)
  ultimately show ?thesis by blast
qed

lemma gapExpired_all:
  assumes "trackerOk g" and "\<forall>m\<in>snd ` set g. \<forall>e\<in>set m. snd e \<le> timeToUnixMilli now"
  shows "sum_list (map snd (fst (gapExpired now g))) = (\<Sum>o'\<in>fst ` set g. int (card (missingOf o' g)))"
    and "snd (gapExpired now g) = []"
proof -
  let ?old = "\<lambda>(seq :: 64 word, deadline). deadline \<le> timeToUnixMilli now"
  have f: "filter ?old m = m" if "(o', m) \<in> set g" for o' m
    using assms(2) that by (fastforce intro: filter_True)
  have n: "filter (\<lambda>e. \<not> ?old e) m = []" if "(o', m) \<in> set g" for o' m
    using assms(2) that by (fastforce intro: filter_False)
  show "snd (gapExpired now g) = []"
    using n by (fastforce simp: gapExpired_def Let_def intro: filter_False)
  have c: "int (card (missingOf o' g)) = int (length m)" if "(o', m) \<in> set g" for o' m
  proof -
    from that assms(1) have "mapGet g o' = Some m" "mapOk m" by (auto simp: trackerOk_def)
    moreover have "inj_on unat (fst ` set m)" by (rule inj_onI) (rule unsigned_word_eqI)
    ultimately have "card (missingOf o' g) = card (fst ` set m)" by (simp add: missingOf_def card_image)
    with \<open>mapOk m\<close> show ?thesis by (simp add: distinct_card flip: set_map)
  qed
  have drop: "sum_list (map snd (filter (\<lambda>p. snd p > 0) ps)) = sum_list (map snd ps)"
    if "\<forall>p\<in>set ps. 0 \<le> snd p" for ps :: "(bytes \<times> int) list"
    using that by (induction ps) auto
  have "sum_list (map snd (fst (gapExpired now g))) = sum_list (map (\<lambda>(o', m). int (length (filter ?old m))) g)"
    by (simp add: gapExpired_def Let_def drop comp_def case_prod_unfold)
  also have "\<dots> = sum_list (map (\<lambda>p. int (card (missingOf (fst p) g))) g)"
    by (rule arg_cong [where f = sum_list], rule map_cong) (auto simp: f c)
  also have "\<dots> = (\<Sum>o'\<in>fst ` set g. int (card (missingOf o' g)))"
    using assms(1) by (simp add: trackerOk_def sum_list_distinct_conv_sum_set [of "map fst g", symmetric] comp_def flip: set_map)
  finally show "sum_list (map snd (fst (gapExpired now g))) = (\<Sum>o'\<in>fst ` set g. int (card (missingOf o' g)))" .
qed


text \<open>No number is held beyond the grace period of the arrival that skipped it.\<close>

definition heldUntil :: "int \<Rightarrow> gapTracker \<Rightarrow> bool" where
  "heldUntil b g \<longleftrightarrow> (\<forall>m\<in>snd ` set g. \<forall>e\<in>set m. snd e \<le> b)"

lemma heldUntil_put: "heldUntil b g \<Longrightarrow> \<forall>e\<in>set m. snd e \<le> b \<Longrightarrow> heldUntil b (mapPut o' m g)"
proof (induction g)
  case (Cons e g)
  then show ?case by (cases e) (auto simp: heldUntil_def)
qed (simp add: heldUntil_def)

lemma heldUntil_get: "heldUntil b g \<Longrightarrow> mapGet g o' = Some m \<Longrightarrow> e \<in> set m \<Longrightarrow> snd e \<le> b"
  by (auto simp: heldUntil_def dest!: map_of_SomeD)

lemma heldUntil_fold_put:
  "d \<le> b \<Longrightarrow> \<forall>e\<in>set m. snd e \<le> b \<Longrightarrow> \<forall>e\<in>set (fold (\<lambda>k m. mapPut k d m) ks m). snd e \<le> b"
proof (induction ks arbitrary: m)
  case (Cons k ks)
  have "\<forall>e\<in>set (mapPut k d m). snd e \<le> b" using Cons.prems by (induction m) auto
  with Cons.IH [OF Cons.prems(1) this] show ?case by simp
qed simp

lemma heldUntil_note:
  assumes "heldUntil b g" and "timeToUnixMilli (timeAdd now gapGrace) \<le> b"
  shows "heldUntil b (snd (gapNote now o' prev got g))"
proof -
  have "\<forall>e\<in>set (case mapGet g o' of Some m \<Rightarrow> m | None \<Rightarrow> []). snd e \<le> b"
    using heldUntil_get [OF assms(1), of o'] by (cases "mapGet g o'") auto
  from heldUntil_put [OF assms(1) heldUntil_fold_put [OF assms(2) this]] assms(1) show ?thesis
    by (simp add: gapNote_def Let_def)
qed

lemma heldUntil_arrived:
  assumes "heldUntil b g"
  shows "heldUntil b (gapArrived o' seq g)"
proof -
  have "heldUntil b (mapDel o' g)" using assms by (fastforce simp: heldUntil_def AList.delete_eq)
  moreover have "heldUntil b (mapPut o' (mapDel seq m) g)" if "mapGet g o' = Some m" for m
    using heldUntil_put [OF assms] heldUntil_get [OF assms that] by (simp add: AList.delete_eq)
  ultimately show ?thesis using assms by (simp add: gapArrived_def Let_def split: option.split)
qed

lemma heldUntil_arrival:
  assumes "heldUntil b (missing sv)" and "timeToUnixMilli (timeAdd now gapGrace) \<le> b"
  shows "heldUntil b (missing (noteReplArrival now wr sv))"
  using assms(1) heldUntil_note [OF assms, of "trimSpace (Origin wr)" _ "Seq wr"] heldUntil_arrived [OF assms(1)]
  by (auto simp: noteReplArrival_def confirmLoss_def requestResync_def Let_def split: option.split prod.split) (metis snd_conv)+

lemma heldUntil_arrivals:
  assumes "heldUntil b (missing sv)" and "\<forall>t\<in>set (map fst evs). timeToUnixMilli (timeAdd t gapGrace) \<le> b"
  shows "heldUntil b (missing (arrivals evs origin sv))"
  using assms by (induction evs rule: rev_induct) (auto simp: arrivals_def heldUntil_arrival)


text \<open>What a sweep does when the numbers of one origin are the only ones that are missing and their grace has
  run out.\<close>

lemma sweep_reports:
  assumes t: "tracked origin x seen hi sv s" "missing sv = []" and g: "heldUntil (timeToUnixMilli now) (missing s)"
    and l: "lost = {x <..< hi} - seen"
  shows "missingOf origin (missing s) = lost \<and>
    resyncRequests (watchGaps now s) = resyncRequests sv @ (if lost = {} then [] else [''confirmed replication loss'']) \<and>
    (lost \<noteq> {} \<longrightarrow> replMissedEvents (svStats (watchGaps now s)) = wrap64 (replMissedEvents (svStats sv) + int (card lost))) \<and>
    missing (watchGaps now s) = []"
proof -
  have lost: "missingOf origin (missing s) = lost" and ok: "trackerOk (missing s)"
    and others: "\<forall>other. other \<noteq> origin \<longrightarrow> missingOf other (missing s) = {}"
    and same: "resyncRequests s = resyncRequests sv" "replMissedEvents (svStats s) = replMissedEvents (svStats sv)"
    using t l by (simp_all add: tracked_def missingOf_def)
  have ex: "sum_list (map snd (fst (gapExpired now (missing s)))) = (\<Sum>o'\<in>fst ` set (missing s). int (card (missingOf o' (missing s))))"
    "snd (gapExpired now (missing s)) = []" using gapExpired_all [OF ok] g by (simp_all add: heldUntil_def)
  have "(\<Sum>o'\<in>fst ` set (missing s). int (card (missingOf o' (missing s)))) =
      (\<Sum>o'\<in>fst ` set (missing s). if o' = origin then int (card lost) else 0)"
    by (rule sum.cong) (use others lost in auto)
  also have "\<dots> = int (card lost)"
    using lost by (auto simp: missingOf_def map_of_eq_None_iff [THEN iffD2])
  finally have total: "sum_list (map snd (fst (gapExpired now (missing s)))) = int (card lost)" using ex(1) by simp
  have "finite lost" by (simp add: l)
  with total gapExpired_none have none: "fst (gapExpired now (missing s)) = [] \<longleftrightarrow> lost = {}" by (metis card_eq_0_iff of_nat_eq_0_iff)
  show ?thesis
    using lost none total ex(2) same \<open>finite lost\<close>
    by (auto simp: watchGaps_def requestResync_def AddReplicationLost_def onStats_def Let_def card_gt_0_iff split: prod.split)
qed

lemma grace_over:
  assumes "missing sv = []" and "\<forall>t\<in>set (map fst evs). 0 \<le> t \<and> t + 5000000000 \<le> now" and "now < 2 ^ 63"
  shows "heldUntil (timeToUnixMilli now) (missing (arrivals evs origin sv))"
proof -
  have ms: "timeToUnixMilli t \<le> timeToUnixMilli now" if "0 \<le> t" "t \<le> now" for t
  proof -
    have "t div 1000000 \<le> now div 1000000" "0 \<le> t div 1000000" "now div 1000000 < 2 ^ 63"
      using that assms(3) by (auto intro: zdiv_mono1)
    then show ?thesis by (simp add: time_defs wrap64_id int64_defs)
  qed
  show ?thesis
    by (rule heldUntil_arrivals) (use assms(1,2) ms in \<open>auto simp: heldUntil_def timeAdd_def gapGrace_def durSecond_def\<close>)
qed

text \<open>C27. A loss is reported exactly when events are lost.  Take the events of an origin nothing has been seen of, as they arrive, in any
  order and however often, with numbers above 1 after the first that never skip more than 256 numbers past the
  highest, while nothing is missing of other origins and no sweep runs.  When the grace period of the last has passed,
  the next sweep reports the numbers between the first and the highest that did not arrive, with their
  exact count, and asks for a resync; when none is missing, it reports nothing.\<close>

theorem loss_is_detected:
  assumes "origin \<noteq> []" and "trimSpace origin = origin" and "origin \<noteq> svNodeID sv"
    and "missing sv = []" and "mapGet (originSeq sv) origin = None"
    and "0 < x" and "x < 2 ^ 63" and "smallJumps x (map snd evs)" and "\<forall>n\<in>set (map snd evs). 1 < n \<and> n < 2 ^ 63"
    and "\<forall>t\<in>set (t0 # map fst evs). 0 \<le> t \<and> t + 5000000000 \<le> now" and "now < 2 ^ 63"
    and "sv' = arrivals ((t0, x) # evs) origin sv"
    and "lost = {x <..< Max (insert x (set (map snd evs)))} - set (map snd evs)"
  shows "missingOf origin (missing sv') = lost \<and>
    resyncRequests (watchGaps now sv') = resyncRequests sv @ (if lost = {} then [] else [''confirmed replication loss'']) \<and>
    (lost \<noteq> {} \<longrightarrow> replMissedEvents (svStats (watchGaps now sv')) = wrap64 (replMissedEvents (svStats sv) + int (card lost))) \<and>
    missing (watchGaps now sv') = []"
proof (rule sweep_reports [OF _ assms(4) _ assms(13)])
  have "sv' = arrivals evs origin (noteReplArrival t0 (event origin x) sv)" by (simp add: assms(12) arrivals_def)
  with tracked_continue [OF tracked_start [OF assms(1-3,6,7,5,4)] assms(1-3,6-9)]
  show "tracked origin x (set (map snd evs)) (Max (insert x (set (map snd evs)))) sv sv'" by simp
  show "heldUntil (timeToUnixMilli now) (missing sv')"
    unfolding assms(12) by (rule grace_over [OF assms(4) _ assms(11)]) (use assms(10) in simp)
qed


definition quietService :: service where
  "quietService = NewService zeroConfig freshStore (newStats 0 ''a'' 6379) ''a''"

theorem loss_is_detected_witness:
  "missingOf ''b'' (missing (arrivals [(0, 5), (1, 7), (2, 6), (3, 9)] ''b'' quietService)) = {8} \<and>
   resyncRequests (watchGaps 10000000000 (arrivals [(0, 5), (1, 7), (2, 6), (3, 9)] ''b'' quietService)) = [''confirmed replication loss'']"
proof -
  have l: "{5 <..< Max (insert 5 (set (map snd [(1 :: int, 7 :: nat), (2, 6), (3, 9)])))} - set (map snd [(1 :: int, 7 :: nat), (2, 6), (3, 9)]) = {8}"
    by auto
  show ?thesis
    using loss_is_detected [of "''b''" quietService 5 "[(1, 7), (2, 6), (3, 9)]" 0 10000000000, OF _ _ _ _ _ _ _ _ _ _ _ refl l [symmetric]]
    by (simp add: quietService_def NewService_def trimSpace_graph is_graph_def)
qed

text \<open>C31. Number 1 after a higher number is taken for a restart.  Two concurrent writes of a node that has just started may
  arrive swapped.  When number 1 arrives after \<open>x\<close>, every number between 1 and the highest that follows that does
  not arrive after it counts as missing, and \<open>x\<close> is one of them although it has arrived: the next sweep reports it as lost
  and asks for a resync.  With the numbers 2, 1 and 3 nothing is lost at all.\<close>

theorem reordered_start_reports_loss:
  assumes "origin \<noteq> []" and "trimSpace origin = origin" and "origin \<noteq> svNodeID sv"
    and "missing sv = []" and "mapGet (originSeq sv) origin = None"
    and "1 < x" and "x < 2 ^ 63" and "smallJumps 1 (map snd evs)" and "\<forall>n\<in>set (map snd evs). 1 < n \<and> n < 2 ^ 63"
    and "x \<notin> set (map snd evs)" and "n \<in> set (map snd evs)" and "x < n"
    and "\<forall>t\<in>set (t0 # t1 # map fst evs). 0 \<le> t \<and> t + 5000000000 \<le> now" and "now < 2 ^ 63"
    and "sv' = arrivals ((t0, x) # (t1, 1) # evs) origin sv"
    and "lost = {1 <..< Max (insert 1 (set (map snd evs)))} - set (map snd evs)"
  shows "x \<in> lost \<and> missingOf origin (missing sv') = lost \<and>
    resyncRequests (watchGaps now sv') = resyncRequests sv @ [''confirmed replication loss''] \<and>
    replMissedEvents (svStats (watchGaps now sv')) = wrap64 (replMissedEvents (svStats sv) + int (card lost))"
proof -
  let ?s0 = "noteReplArrival t0 (event origin x) sv"
  have x0: "0 < x" using assms(6) by simp
  have t0: "tracked origin x {} x sv ?s0" by (rule tracked_start [OF assms(1-3) x0 assms(7,5,4)])
  have "missing ?s0 = []" using assms(2,4,5) by (simp add: noteReplArrival_def event_def Let_def)
  note r = tracked_restart(1) [OF t0 assms(1-3,6,7) this, of t1]
  have "tracked origin 1 (set (map snd evs)) (Max (insert 1 (set (map snd evs)))) sv (arrivals evs origin (noteReplArrival t1 (event origin 1) ?s0))"
    by (rule tracked_continue [OF r assms(1-3) _ _ assms(8,9)]) simp_all
  then have t: "tracked origin 1 (set (map snd evs)) (Max (insert 1 (set (map snd evs)))) sv sv'"
    by (simp add: assms(15) arrivals_def)
  have g: "heldUntil (timeToUnixMilli now) (missing sv')"
    unfolding assms(15) by (rule grace_over [OF assms(4) _ assms(14)]) (use assms(13) in simp)
  have "n \<le> Max (insert 1 (set (map snd evs)))" using assms(11) by (intro Max_ge) simp_all
  then have "x \<in> lost" using assms(6,10,12) by (simp add: assms(16))
  moreover from this have "lost \<noteq> {}" by blast
  ultimately show ?thesis using sweep_reports [OF t assms(4) g assms(16)] by simp
qed

theorem reordered_start_reports_loss_witness:
  "resyncRequests (watchGaps 5000000000 (arrivals [(0, 2), (0, 1), (0, 3)] ''b'' quietService)) = [''confirmed replication loss''] \<and>
   replMissedEvents (svStats (watchGaps 5000000000 (arrivals [(0, 2), (0, 1), (0, 3)] ''b'' quietService))) = 1"
proof -
  have l: "{1 <..< Max (insert 1 {3})} - {3} = {2 :: nat}" by auto
  show ?thesis
    using reordered_start_reports_loss [of "''b''" quietService 2 "[(0, 3)]" 3 0 0 5000000000, OF _ _ _ _ _ _ _ _ _ _ _ _ _ _ refl refl] l
    by (simp add: quietService_def NewService_def trimSpace_graph is_graph_def newStats_def int64_defs)
qed

end
