(* ===== verification/Peer_Inbound.thy ===== *)
theory Peer_Inbound
  imports Peer_Gaps
begin

text \<open>
  Events on their way into the store (\<^verbatim>\<open>src/internal/peer/service.go\<close>, \<^verbatim>\<open>src/internal/peer/outbound.go\<close>).  The
  goroutine that reads a connection hands every event to the worker its origin is routed to; a worker
  looks whether a bootstrap is running and then either buffers the event or applies it; the bootstrap
  drains the buffer.  The first part has the operations as functions on the service.  The second part
  is the step relation of these goroutines: a worker that has looked and not yet acted is a state of
  its own.  The events of an origin reach the store in the order in which they were received, as long
  as a bootstrap ends when nothing is on its way into the buffer, and an event can be lost otherwise.
\<close>


section \<open>Routing and buffering\<close>

definition inboundShardDepth :: nat where
  "inboundShardDepth = 1024"

text \<open>\<open>ncpu\<close> is the number of processors.\<close>

definition startWorkers :: "nat \<Rightarrow> service \<Rightarrow> service" where
  "startWorkers ncpu sv = sv\<lparr>inboundShards := replicate (if ncpu < 1 then 1 else ncpu) []\<rparr>"

definition inboundShardFor :: "bytes \<Rightarrow> bytes \<Rightarrow> service \<Rightarrow> nat option" where
  "inboundShardFor origin remote sv =
     (let n = length (inboundShards sv); key = trimSpace origin; key = (if key = [] then remote else key)
      in if n = 0 then None else if n = 1 then Some 0
         else Some (unat (fnv32a key mod (of_nat n :: 32 word))))"

text \<open>The event waits until its shard has room.  \<open>None\<close> stands for a service that has no workers.\<close>

definition enqueueInbound :: "bytes \<Rightarrow> wireRepl \<Rightarrow> service \<Rightarrow> service option" where
  "enqueueInbound remote wr sv =
     map_option (\<lambda>i. sv\<lparr>inboundShards := (inboundShards sv)[i := inboundShards sv ! i @ [\<lparr>jobRemote = remote, jobWire = wr\<rparr>]]\<rparr>)
       (inboundShardFor (Origin wr) remote sv)"

definition bootstrapQueueLen :: "service \<Rightarrow> nat" where
  "bootstrapQueueLen sv = length (bootstrapReplBuf sv)"

definition SetBootstrapInboundActive :: "bool \<Rightarrow> int \<Rightarrow> service \<Rightarrow> service" where
  "SetBootstrapInboundActive active maxCap sv =
     (let sv = (if \<not> active then sv\<lparr>bootstrapActive := False, bootstrapReplBuf := []\<rparr>
                else sv\<lparr>bootstrapMaxCap := (if maxCap < 1 then 1 else maxCap), bootstrapActive := True\<rparr>)
      in onStats (SetBootstrapInboundQueueDepth (int (bootstrapQueueLen sv))) sv)"

text \<open>The flag of the result tells whether the event was buffered.\<close>

definition enqueueBootstrapRepl :: "wireRepl \<Rightarrow> service \<Rightarrow> bool \<times> service" where
  "enqueueBootstrapRepl wr sv =
     (let m = (if bootstrapMaxCap sv < 1 then 1 else bootstrapMaxCap sv)
      in if int (length (bootstrapReplBuf sv)) \<ge> m then (False, sv)
         else let sv = sv\<lparr>bootstrapReplBuf := bootstrapReplBuf sv @ [wr]\<rparr>
              in (True, onStats (SetBootstrapInboundQueueDepth (int (length (bootstrapReplBuf sv)))) sv))"

definition applyTo :: "time \<Rightarrow> wireRepl \<Rightarrow> service \<Rightarrow> service" where
  "applyTo now wr sv = sv\<lparr>svStore := fst (applyWireRepl now (svStore sv) wr)\<rparr>"

text \<open>What a worker does with the job it took, given what it read of \<open>bootstrapActive\<close>.\<close>

definition inboundWork :: "time \<Rightarrow> bool \<Rightarrow> inboundReplJob \<Rightarrow> service \<Rightarrow> service" where
  "inboundWork now active job sv =
     (if active then snd (enqueueBootstrapRepl (jobWire job) sv) else applyTo now (jobWire job) sv)"

text \<open>An event that arrives on a link: noted, then handed to its worker, or applied at once when there is
  none.\<close>

definition handleDuplexRepl :: "time \<Rightarrow> bytes \<Rightarrow> wireRepl \<Rightarrow> service \<Rightarrow> service" where
  "handleDuplexRepl now addr wr sv =
     (let sv = noteReplArrival now wr sv
      in case enqueueInbound addr wr sv of Some sv \<Rightarrow> sv | None \<Rightarrow> applyTo now wr sv)"

text \<open>Draining the buffer: the inner loop takes events until none is left or one fails; between two rounds
  other goroutines run, here \<open>others\<close>.  The result is the error the loop stopped with.\<close>

fun drainBuffer :: "time \<Rightarrow> wireRepl list \<Rightarrow> service \<Rightarrow> apply_error option \<times> service" where
  "drainBuffer now [] sv = (None, sv)"
| "drainBuffer now (wr # buf) sv =
     (let sv = sv\<lparr>bootstrapReplBuf := buf\<rparr>
      in case applyWireRepl now (svStore sv) wr of
           (st, Some e) \<Rightarrow> (Some e, sv\<lparr>svStore := st\<rparr>)
         | (st, None) \<Rightarrow> drainBuffer now buf (onStats (SetBootstrapInboundQueueDepth (int (length buf))) (sv\<lparr>svStore := st\<rparr>)))"

fun drainRounds :: "nat \<Rightarrow> (nat \<Rightarrow> time) \<Rightarrow> (nat \<Rightarrow> service \<Rightarrow> service) \<Rightarrow> service \<Rightarrow> apply_error option \<times> service" where
  "drainRounds 0 now others sv = (None, sv)"
| "drainRounds (Suc n) now others sv =
     (if bootstrapReplBuf sv = [] then (None, sv)
      else case drainBuffer (now n) (bootstrapReplBuf sv) sv of
             (Some e, sv) \<Rightarrow> (Some e, sv)
           | (None, sv) \<Rightarrow> drainRounds n now others (others n sv))"

definition DrainBootstrapInboundQueue ::
  "(nat \<Rightarrow> time) \<Rightarrow> (nat \<Rightarrow> service \<Rightarrow> service) \<Rightarrow> service \<Rightarrow> apply_error option \<times> service"
where
  "DrainBootstrapInboundQueue = drainRounds 500"

text \<open>A drain that meets no error empties the buffer and applies its events in their order.\<close>

lemma drainBuffer_ok:
  "drainBuffer now buf sv = (None, sv') \<Longrightarrow> bootstrapReplBuf sv = buf \<Longrightarrow>
    bootstrapReplBuf sv' = [] \<and> svStore sv' = fold (\<lambda>w st. fst (applyWireRepl now st w)) buf (svStore sv)"
  by (induction now buf sv rule: drainBuffer.induct) (auto simp: Let_def onStats_def split: prod.splits option.splits)

lemma DrainBootstrapInboundQueue_ok:
  assumes "drainBuffer (now 499) (bootstrapReplBuf sv) sv = (None, sv')" and "\<And>n s. others n s = s"
  shows "DrainBootstrapInboundQueue now others sv = (None, sv')"
proof (cases "bootstrapReplBuf sv = []")
  case True
  with assms show ?thesis by (simp add: DrainBootstrapInboundQueue_def numeral_eq_Suc)
next
  case False
  have "bootstrapReplBuf sv' = []" using drainBuffer_ok [OF assms(1)] by simp
  then have "drainRounds 499 now others sv' = (None, sv')" by (simp add: numeral_eq_Suc)
  then have "drainRounds (Suc 499) now others sv = (None, sv')" using False assms by (subst drainRounds.simps) simp
  then show ?thesis by (simp add: DrainBootstrapInboundQueue_def)
qed


section \<open>The goroutines\<close>

text \<open>\<open>held\<close> is the job a worker has taken with what it read of \<open>bootstrapActive\<close>, \<open>popped\<close> the event the bootstrap
  has taken from the buffer; \<open>recvd\<close> and \<open>applied\<close> record the events in the order in which they were handed
  to the workers and applied to the store.\<close>

record pool =
  poolSv :: service
  held :: "nat \<Rightarrow> (inboundReplJob \<times> bool) option"
  popped :: "wireRepl option"
  recvd :: "wireRepl list"
  applied :: "wireRepl list"

datatype pool_event =
    Receive time bytes wireRepl
  | Take nat
  | Finish nat time
  | Activate int
  | Pop
  | ApplyPopped time
  | Deactivate
  | Elsewhere store

inductive poolStep :: "pool \<Rightarrow> pool_event \<Rightarrow> pool \<Rightarrow> bool" where
  receive: "inboundShardFor (Origin wr) remote (poolSv s) = Some i \<Longrightarrow>
    length (inboundShards (poolSv s) ! i) < inboundShardDepth \<Longrightarrow>
    poolStep s (Receive now remote wr)
      (s\<lparr>poolSv := handleDuplexRepl now remote wr (poolSv s), recvd := recvd s @ [wr]\<rparr>)"
| take: "i < length (inboundShards (poolSv s)) \<Longrightarrow> held s i = None \<Longrightarrow> inboundShards (poolSv s) ! i = job # jobs \<Longrightarrow>
    poolStep s (Take i)
      (s\<lparr>poolSv := (poolSv s)\<lparr>inboundShards := (inboundShards (poolSv s))[i := jobs]\<rparr>,
        held := (held s)(i := Some (job, bootstrapActive (poolSv s)))\<rparr>)"
| finish: "held s i = Some (job, active) \<Longrightarrow>
    poolStep s (Finish i now)
      (s\<lparr>poolSv := inboundWork now active job (poolSv s), held := (held s)(i := None),
        applied := applied s @ (if active then [] else [jobWire job])\<rparr>)"
| activate: "poolStep s (Activate maxCap) (s\<lparr>poolSv := SetBootstrapInboundActive True maxCap (poolSv s)\<rparr>)"
| pop: "popped s = None \<Longrightarrow> bootstrapReplBuf (poolSv s) = wr # buf \<Longrightarrow>
    poolStep s Pop (s\<lparr>poolSv := (poolSv s)\<lparr>bootstrapReplBuf := buf\<rparr>, popped := Some wr\<rparr>)"
| applyPopped: "popped s = Some wr \<Longrightarrow>
    poolStep s (ApplyPopped now) (s\<lparr>poolSv := applyTo now wr (poolSv s), popped := None, applied := applied s @ [wr]\<rparr>)"
| deactivate: "poolStep s Deactivate (s\<lparr>poolSv := SetBootstrapInboundActive False 0 (poolSv s)\<rparr>)"
| elsewhere: "poolStep s (Elsewhere st) (s\<lparr>poolSv := (poolSv s)\<lparr>svStore := st\<rparr>\<rparr>)"

inductive_cases poolStepE: "poolStep s e s'"

inductive poolRun :: "pool \<Rightarrow> pool_event list \<Rightarrow> pool \<Rightarrow> bool" where
  run_done: "poolRun s [] s"
| run_step: "poolRun s es s' \<Longrightarrow> poolStep s' e s'' \<Longrightarrow> poolRun s (es @ [e]) s''"

text \<open>A step that loses nothing: the buffer has room for the event a worker puts there, and a bootstrap that
  ends has an empty buffer and no worker on its way to it.\<close>

definition calm :: "pool_event \<Rightarrow> pool \<Rightarrow> bool" where
  "calm e s =
     (case e of
        Finish i now \<Rightarrow> (case held s i of Some (job, True) \<Rightarrow> fst (enqueueBootstrapRepl (jobWire job) (poolSv s)) | _ \<Rightarrow> True)
      | Deactivate \<Rightarrow> bootstrapReplBuf (poolSv s) = [] \<and> popped s = None \<and> (\<forall>i job. held s i \<noteq> Some (job, True))
      | _ \<Rightarrow> True)"

inductive calmRun :: "pool \<Rightarrow> pool_event list \<Rightarrow> pool \<Rightarrow> bool" where
  calm_done: "calmRun s [] s"
| calm_step: "calmRun s es s' \<Longrightarrow> poolStep s' e s'' \<Longrightarrow> calm e s' \<Longrightarrow> calmRun s (es @ [e]) s''"

lemma calmRun_poolRun: "calmRun s es s' \<Longrightarrow> poolRun s es s'"
  by (induction rule: calmRun.induct) (auto intro: poolRun.intros)

definition startPool :: "nat \<Rightarrow> service \<Rightarrow> pool" where
  "startPool ncpu sv = \<lparr>poolSv = startWorkers ncpu sv, held = (\<lambda>_. None), popped = None, recvd = [], applied = []\<rparr>"

text \<open>The events of an origin, and where they are.\<close>

definition ofOrigin :: "bytes \<Rightarrow> wireRepl list \<Rightarrow> wireRepl list" where
  "ofOrigin k ws = filter (\<lambda>w. trimSpace (Origin w) = k) ws"

definition heldJobs :: "nat \<Rightarrow> pool \<Rightarrow> wireRepl list" where
  "heldJobs i s = (case held s i of Some (job, _) \<Rightarrow> [jobWire job] | None \<Rightarrow> [])"

definition shardJobs :: "nat \<Rightarrow> pool \<Rightarrow> wireRepl list" where
  "shardJobs i s = map jobWire (inboundShards (poolSv s) ! i)"

definition idle :: "pool \<Rightarrow> bool" where
  "idle s \<longleftrightarrow> (\<forall>q\<in>set (inboundShards (poolSv s)). q = []) \<and> (\<forall>i. held s i = None) \<and> popped s = None \<and> bootstrapReplBuf (poolSv s) = []"


section \<open>Routing is stable\<close>

lemma noteReplArrival_apart [simp]:
  "inboundShards (noteReplArrival now wr sv) = inboundShards sv"
  "bootstrapReplBuf (noteReplArrival now wr sv) = bootstrapReplBuf sv"
  "bootstrapActive (noteReplArrival now wr sv) = bootstrapActive sv"
  by (auto simp: noteReplArrival_def Let_def onStats_def confirmLoss_def requestResync_def split: option.split prod.split)

lemma handleDuplexRepl_route:
  "inboundShardFor (Origin wr) remote sv = Some i \<Longrightarrow>
    handleDuplexRepl now remote wr sv =
      (noteReplArrival now wr sv)\<lparr>inboundShards := (inboundShards sv)[i := inboundShards sv ! i @ [\<lparr>jobRemote = remote, jobWire = wr\<rparr>]]\<rparr>"
proof -
  have "inboundShardFor (Origin wr) remote (noteReplArrival now wr sv) = inboundShardFor (Origin wr) remote sv"
    by (simp add: inboundShardFor_def)
  then show "inboundShardFor (Origin wr) remote sv = Some i \<Longrightarrow> ?thesis"
    by (simp add: handleDuplexRepl_def enqueueInbound_def)
qed

text \<open>The worker an origin is routed to when there are \<open>n\<close> of them.\<close>

definition shardOf :: "nat \<Rightarrow> bytes \<Rightarrow> nat" where
  "shardOf n k = (if n = 1 then 0 else unat (fnv32a k mod (of_nat n :: 32 word)))"

lemma shardOf_less: "0 < n \<Longrightarrow> n < 2 ^ 32 \<Longrightarrow> shardOf n k < n"
proof -
  assume n: "0 < n" "n < 2 ^ 32"
  then have u: "unat (of_nat n :: 32 word) = n" by (simp add: unat_of_nat take_bit_eq_mod)
  have "unat (fnv32a k mod (of_nat n :: 32 word)) = unat (fnv32a k) mod n" by (simp add: unat_mod_distrib u)
  with n show ?thesis by (auto simp: shardOf_def)
qed

lemma inboundShardFor_origin:
  "trimSpace (Origin wr) = k \<Longrightarrow> k \<noteq> [] \<Longrightarrow> inboundShards sv \<noteq> [] \<Longrightarrow>
    inboundShardFor (Origin wr) remote sv = Some (shardOf (length (inboundShards sv)) k)"
  by (auto simp: inboundShardFor_def shardOf_def Let_def)

lemma inboundShardFor_less:
  "inboundShardFor origin remote sv = Some i \<Longrightarrow> length (inboundShards sv) < 2 ^ 32 \<Longrightarrow> i < length (inboundShards sv)"
  using shardOf_less [of "length (inboundShards sv)" "if trimSpace origin = [] then remote else trimSpace origin"]
  by (auto simp: inboundShardFor_def shardOf_def Let_def split: if_splits)

lemma ofOrigin_simps [simp]:
  "ofOrigin k [] = []" "ofOrigin k (w # ws) = (if trimSpace (Origin w) = k then w # ofOrigin k ws else ofOrigin k ws)"
  "ofOrigin k (xs @ ys) = ofOrigin k xs @ ofOrigin k ys"
  by (simp_all add: ofOrigin_def)


section \<open>Order is kept\<close>

definition poppedJobs :: "pool \<Rightarrow> wireRepl list" where
  "poppedJobs s = (case popped s of Some w \<Rightarrow> [w] | None \<Rightarrow> [])"

definition inTransit :: "bytes \<Rightarrow> pool \<Rightarrow> wireRepl list" where
  "inTransit k s =
     (let i = shardOf (length (inboundShards (poolSv s))) k
      in ofOrigin k (poppedJobs s) @ ofOrigin k (bootstrapReplBuf (poolSv s)) @ ofOrigin k (heldJobs i s) @ ofOrigin k (shardJobs i s))"

definition elsewhereEmpty :: "bytes \<Rightarrow> pool \<Rightarrow> bool" where
  "elsewhereEmpty k s \<longleftrightarrow>
     (\<forall>j. j \<noteq> shardOf (length (inboundShards (poolSv s))) k \<longrightarrow> ofOrigin k (heldJobs j s) = [] \<and>
          (j < length (inboundShards (poolSv s)) \<longrightarrow> ofOrigin k (shardJobs j s) = []))"

definition directOk :: "bytes \<Rightarrow> pool \<Rightarrow> bool" where
  "directOk k s \<longleftrightarrow>
     (\<forall>job. held s (shardOf (length (inboundShards (poolSv s))) k) = Some (job, False) \<longrightarrow>
        ofOrigin k (bootstrapReplBuf (poolSv s)) = [] \<and> ofOrigin k (poppedJobs s) = [])"

definition inactiveOk :: "pool \<Rightarrow> bool" where
  "inactiveOk s \<longleftrightarrow>
     (\<not> bootstrapActive (poolSv s) \<longrightarrow> bootstrapReplBuf (poolSv s) = [] \<and> popped s = None \<and> (\<forall>i job. held s i \<noteq> Some (job, True)))"

definition poolInv :: "bytes \<Rightarrow> nat \<Rightarrow> pool \<Rightarrow> bool" where
  "poolInv k n s \<longleftrightarrow>
     length (inboundShards (poolSv s)) = n \<and> ofOrigin k (recvd s) = ofOrigin k (applied s) @ inTransit k s \<and>
     elsewhereEmpty k s \<and> directOk k s \<and> inactiveOk s"

lemmas pool_defs = inTransit_def elsewhereEmpty_def directOk_def inactiveOk_def poppedJobs_def heldJobs_def shardJobs_def

lemma receive_keeps:
  assumes "poolInv k n s" and "k \<noteq> []" and "n < 2 ^ 32" and "inboundShardFor (Origin wr) remote (poolSv s) = Some i"
  shows "poolInv k n (s\<lparr>poolSv := handleDuplexRepl now remote wr (poolSv s), recvd := recvd s @ [wr]\<rparr>)"
proof -
  have i: "i < n" using inboundShardFor_less [OF assms(4)] assms(1,3) by (simp add: poolInv_def)
  have to: "i = shardOf n k" if "trimSpace (Origin wr) = k"
    using inboundShardFor_origin [OF that assms(2), of "poolSv s" remote] assms(1,4) i by (force simp: poolInv_def)
  show ?thesis
    using assms(1) i to unfolding poolInv_def handleDuplexRepl_route [OF assms(4)]
    by (auto simp: pool_defs Let_def nth_list_update)
qed

lemma take_keeps:
  assumes "poolInv k n s" and "k \<noteq> []" and "i < n" and "held s i = None" and "inboundShards (poolSv s) ! i = job # jobs"
  shows "poolInv k n (s\<lparr>poolSv := (poolSv s)\<lparr>inboundShards := (inboundShards (poolSv s))[i := jobs]\<rparr>,
        held := (held s)(i := Some (job, bootstrapActive (poolSv s)))\<rparr>)"
  using assms unfolding poolInv_def by (auto simp: pool_defs Let_def nth_list_update split: option.splits)

lemma finish_keeps:
  assumes "poolInv k n s" and "held s i = Some (job, active)" and "calm (Finish i now) s"
  shows "poolInv k n (s\<lparr>poolSv := inboundWork now active job (poolSv s), held := (held s)(i := None),
        applied := applied s @ (if active then [] else [jobWire job])\<rparr>)"
  using assms unfolding poolInv_def
  by (auto simp: pool_defs Let_def inboundWork_def enqueueBootstrapRepl_def applyTo_def onStats_def calm_def split: option.splits if_splits)

lemma poolStep_keeps:
  assumes "poolInv k n s" and "k \<noteq> []" and "n < 2 ^ 32" and "poolStep s e s'" and "calm e s"
  shows "poolInv k n s'"
  using assms(4)
proof cases
  case receive
  then show ?thesis using receive_keeps [OF assms(1-3)] by simp
next
  case (take i job jobs)
  then show ?thesis using take_keeps [OF assms(1,2)] assms(1) by (simp add: poolInv_def)
next
  case finish
  then show ?thesis using finish_keeps [OF assms(1)] assms(5) by simp
next
  case activate
  with assms(1) show ?thesis by (auto simp: poolInv_def pool_defs SetBootstrapInboundActive_def onStats_def Let_def)
next
  case pop
  with assms(1) show ?thesis by (auto simp: poolInv_def pool_defs Let_def split: if_splits)
next
  case applyPopped
  with assms(1) show ?thesis by (auto simp: poolInv_def pool_defs applyTo_def Let_def)
next
  case deactivate
  with assms(1,5) show ?thesis by (auto simp: poolInv_def pool_defs SetBootstrapInboundActive_def onStats_def Let_def calm_def)
next
  case elsewhere
  with assms(1) show ?thesis by (auto simp: poolInv_def pool_defs Let_def)
qed

lemma calmRun_keeps:
  "calmRun s es s' \<Longrightarrow> poolInv k n s \<Longrightarrow> k \<noteq> [] \<Longrightarrow> n < 2 ^ 32 \<Longrightarrow> poolInv k n s'"
  by (induction rule: calmRun.induct) (auto intro: poolStep_keeps)

lemma startPool_inv:
  assumes "bootstrapReplBuf sv = []" and "ncpu < 2 ^ 32"
  shows "poolInv k (if ncpu < 1 then 1 else ncpu) (startPool ncpu sv)"
proof -
  have "ncpu \<ge> 1 \<Longrightarrow> shardOf ncpu k < ncpu" using shardOf_less [of ncpu k] assms(2) by simp
  moreover have "shardOf (Suc 0) k = 0" by (simp add: shardOf_def)
  ultimately show ?thesis using assms
    by (cases "ncpu < 1") (simp_all add: poolInv_def pool_defs startPool_def startWorkers_def Let_def)
qed

text \<open>C33. Events of an origin are applied in the order in which they were received, however the goroutines
  interleave, across bootstraps too: what has been applied is a beginning of what was received, and all
  of it once nothing is on its way.  A bootstrap must not end before the buffer is empty, nor while an
  event is on its way into the buffer or out of it, and the buffer must not overflow.\<close>

theorem inbound_in_order:
  assumes "calmRun (startPool ncpu sv) es s" and "bootstrapReplBuf sv = []" and "k \<noteq> []" and "ncpu < 2 ^ 32"
  shows "(\<exists>rest. ofOrigin k (recvd s) = ofOrigin k (applied s) @ rest) \<and>
    (idle s \<longrightarrow> ofOrigin k (applied s) = ofOrigin k (recvd s))"
proof -
  let ?n = "if ncpu < 1 then 1 else ncpu"
  have inv: "poolInv k ?n s" using calmRun_keeps [OF assms(1) startPool_inv [OF assms(2,4)] assms(3)] assms(4) by simp
  then have "ofOrigin k (recvd s) = ofOrigin k (applied s) @ inTransit k s" by (simp add: poolInv_def)
  moreover have "inTransit k s = []" if "idle s"
  proof -
    have n: "length (inboundShards (poolSv s)) = ?n" "0 < ?n" "?n < 2 ^ 32" using inv assms(4) by (auto simp: poolInv_def)
    have "shardOf ?n k < ?n" using shardOf_less [OF n(2,3)] .
    with that n(1) have "inboundShards (poolSv s) ! shardOf ?n k = []" by (simp add: idle_def)
    with that n(1) show ?thesis by (simp add: idle_def pool_defs Let_def)
  qed
  ultimately show ?thesis by auto
qed

text \<open>A run of the pool can be computed.\<close>

fun poolNext :: "pool_event \<Rightarrow> pool \<Rightarrow> pool option" where
  "poolNext (Receive now remote wr) s =
     (case inboundShardFor (Origin wr) remote (poolSv s) of
        Some i \<Rightarrow> if length (inboundShards (poolSv s) ! i) < inboundShardDepth
                  then Some (s\<lparr>poolSv := handleDuplexRepl now remote wr (poolSv s), recvd := recvd s @ [wr]\<rparr>) else None
      | None \<Rightarrow> None)"
| "poolNext (Take i) s =
     (if i < length (inboundShards (poolSv s)) \<and> held s i = None
      then case inboundShards (poolSv s) ! i of
             [] \<Rightarrow> None
           | job # jobs \<Rightarrow>
               Some (s\<lparr>poolSv := (poolSv s)\<lparr>inboundShards := (inboundShards (poolSv s))[i := jobs]\<rparr>,
                       held := (held s)(i := Some (job, bootstrapActive (poolSv s)))\<rparr>)
      else None)"
| "poolNext (Finish i now) s =
     map_option (\<lambda>(job, active).
         s\<lparr>poolSv := inboundWork now active job (poolSv s), held := (held s)(i := None),
           applied := applied s @ (if active then [] else [jobWire job])\<rparr>) (held s i)"
| "poolNext (Activate maxCap) s = Some (s\<lparr>poolSv := SetBootstrapInboundActive True maxCap (poolSv s)\<rparr>)"
| "poolNext Pop s =
     (case (popped s, bootstrapReplBuf (poolSv s)) of
        (None, wr # buf) \<Rightarrow> Some (s\<lparr>poolSv := (poolSv s)\<lparr>bootstrapReplBuf := buf\<rparr>, popped := Some wr\<rparr>)
      | _ \<Rightarrow> None)"
| "poolNext (ApplyPopped now) s =
     map_option (\<lambda>wr. s\<lparr>poolSv := applyTo now wr (poolSv s), popped := None, applied := applied s @ [wr]\<rparr>) (popped s)"
| "poolNext Deactivate s = Some (s\<lparr>poolSv := SetBootstrapInboundActive False 0 (poolSv s)\<rparr>)"
| "poolNext (Elsewhere st) s = Some (s\<lparr>poolSv := (poolSv s)\<lparr>svStore := st\<rparr>\<rparr>)"

lemma poolNext_iff: "poolNext e s = Some s' \<longleftrightarrow> poolStep s e s'"
proof
  show "poolNext e s = Some s' \<Longrightarrow> poolStep s e s'"
  proof (cases e)
    case (Finish i now)
    assume "poolNext e s = Some s'"
    with Finish obtain job active where "held s i = Some (job, active)"
      "s' = s\<lparr>poolSv := inboundWork now active job (poolSv s), held := (held s)(i := None),
           applied := applied s @ (if active then [] else [jobWire job])\<rparr>"
      by (auto simp del: if_split)
    with Finish show ?thesis using poolStep.finish by blast
  qed (auto intro: poolStep.intros split: option.splits if_splits list.splits)
  show "poolStep s e s' \<Longrightarrow> poolNext e s = Some s'"
    by (erule poolStepE) auto
qed

fun poolExec :: "pool_event list \<Rightarrow> pool \<Rightarrow> pool option" where
  "poolExec [] s = Some s"
| "poolExec (e # es) s = (case poolNext e s of None \<Rightarrow> None | Some s \<Rightarrow> poolExec es s)"

fun calmExec :: "pool_event list \<Rightarrow> pool \<Rightarrow> bool" where
  "calmExec [] s = True"
| "calmExec (e # es) s \<longleftrightarrow> calm e s \<and> (case poolNext e s of None \<Rightarrow> True | Some s \<Rightarrow> calmExec es s)"

lemma poolRun_Cons: "poolRun s' es s'' \<Longrightarrow> poolStep s e s' \<Longrightarrow> poolRun s (e # es) s''"
proof (induction rule: poolRun.induct)
  case (run_done s')
  then show ?case using poolRun.intros by (metis append_Nil)
next
  case (run_step s' es t f u)
  then show ?case using poolRun.run_step [of s "e # es" t f u] by simp
qed

lemma calmRun_Cons: "calmRun s' es s'' \<Longrightarrow> poolStep s e s' \<Longrightarrow> calm e s \<Longrightarrow> calmRun s (e # es) s''"
proof (induction rule: calmRun.induct)
  case (calm_done s')
  then show ?case using calmRun.intros by (metis append_Nil)
next
  case (calm_step s' es t f u)
  then show ?case using calmRun.calm_step [of s "e # es" t f u] by simp
qed

lemma poolExec_run: "poolExec es s = Some s' \<Longrightarrow> poolRun s es s'"
proof (induction es arbitrary: s)
  case (Cons e es)
  then obtain t where "poolNext e s = Some t" "poolExec es t = Some s'" by (auto split: option.splits)
  with Cons.IH show ?case using poolRun_Cons poolNext_iff by blast
qed (simp add: poolRun.intros)

lemma calmExec_run: "poolExec es s = Some s' \<Longrightarrow> calmExec es s \<Longrightarrow> calmRun s es s'"
proof (induction es arbitrary: s)
  case (Cons e es)
  then obtain t where "poolNext e s = Some t" "poolExec es t = Some s'" "calm e s" "calmExec es t" by (auto split: option.splits)
  with Cons.IH show ?case using calmRun_Cons poolNext_iff by blast
qed (simp add: calmRun.intros)

lemma applyTo_apart [simp]:
  "inboundShards (applyTo now wr sv) = inboundShards sv" "bootstrapReplBuf (applyTo now wr sv) = bootstrapReplBuf sv"
  "bootstrapActive (applyTo now wr sv) = bootstrapActive sv" "bootstrapMaxCap (applyTo now wr sv) = bootstrapMaxCap sv"
  by (simp_all add: applyTo_def)


definition freshService :: service where
  "freshService = NewService zeroConfig freshStore (newStats 0 ''a'' 6379) ''a''"

definition throughBootstrap :: "wireRepl \<Rightarrow> wireRepl \<Rightarrow> pool_event list" where
  "throughBootstrap e1 e2 =
     [Receive 0 ''r'' e1, Take 0, Activate 10, Finish 0 0, Receive 0 ''r'' e2, Take 0, Finish 0 0, Pop, ApplyPopped 0, Deactivate]"

lemmas pool_exec = startPool_def startWorkers_def inboundShardFor_def inboundShardDepth_def handleDuplexRepl_route inboundWork_def
  enqueueBootstrapRepl_def SetBootstrapInboundActive_def onStats_def freshService_def NewService_def bootstrapQueueLen_def

text \<open>Two events of one origin, the first taken by the worker before a bootstrap begins and the second
  buffered by it.\<close>

theorem inbound_in_order_witness:
  "\<exists>s. calmRun (startPool 1 freshService) (throughBootstrap (event ''b'' 1) (event ''b'' 2)) s \<and>
     ofOrigin ''b'' (recvd s) = [event ''b'' 1, event ''b'' 2] \<and> ofOrigin ''b'' (applied s) = ofOrigin ''b'' (recvd s)"
proof -
  let ?es = "throughBootstrap (event ''b'' 1) (event ''b'' 2)"
  have b: "trimSpace ''b'' = ''b''" by (rule trimSpace_graph) (simp_all add: is_graph_def)
  obtain s where s: "poolExec ?es (startPool 1 freshService) = Some s" and r: "recvd s = [event ''b'' 1, event ''b'' 2]" and i: "idle s"
    by (simp add: throughBootstrap_def pool_exec idle_def)
  have "calmExec ?es (startPool 1 freshService)" by (simp add: throughBootstrap_def pool_exec calm_def)
  with s have run: "calmRun (startPool 1 freshService) ?es s" by (rule calmExec_run)
  have "bootstrapReplBuf freshService = []" by (simp add: freshService_def NewService_def)
  from inbound_in_order [OF run this, of "''b''"] i have "ofOrigin ''b'' (applied s) = ofOrigin ''b'' (recvd s)" by simp
  with run r show ?thesis by (auto simp: event_def b)
qed

text \<open>C34. A bootstrap that ends while a worker is between reading the flag and buffering its event loses the
  event: it stays in the buffer although no bootstrap is running, and a later event of the same origin
  overtakes it.\<close>

theorem bootstrap_end_loses_event:
  "\<exists>es s. poolRun (startPool 1 (NewService cfg st metrics nodeID)) es s \<and> recvd s = [e1, e2] \<and> applied s = [e2] \<and>
     inboundShards (poolSv s) = [[]] \<and> (\<forall>i. held s i = None) \<and> popped s = None \<and>
     \<not> bootstrapActive (poolSv s) \<and> bootstrapReplBuf (poolSv s) = [e1]"
proof -
  let ?es = "[Activate 10, Receive 0 ''r'' e1, Take 0, Deactivate, Finish 0 0, Receive 0 ''r'' e2, Take 0, Finish 0 0]"
  let ?s0 = "startPool 1 (NewService cfg st metrics nodeID)"
  obtain s where s: "poolExec ?es ?s0 = Some s" and r: "recvd s = [e1, e2] \<and> applied s = [e2] \<and>
     inboundShards (poolSv s) = [[]] \<and> (\<forall>i. held s i = None) \<and> popped s = None \<and>
     \<not> bootstrapActive (poolSv s) \<and> bootstrapReplBuf (poolSv s) = [e1]"
    by (simp add: pool_exec)
  with poolExec_run [OF s] show ?thesis by blast
qed

end
