(* ===== verification/Peer_Links.thy ===== *)
theory Peer_Links
  imports Peer_Service
begin

text \<open>
  The links of the mesh and the fan-out of events over them: which link carries the events to a
  node, the cache of that choice, the bounded queue of each link and its writer, and the spill of
  what is left at a shutdown (\<^verbatim>\<open>src/internal/peer/service.go\<close>, \<^verbatim>\<open>outbound.go\<close>,
  \<^verbatim>\<open>shutdown_repl.go\<close>).
\<close>


section \<open>Choosing the links\<close>

definition preferLink :: "outPeer \<Rightarrow> outPeer \<Rightarrow> bool" where
  "preferLink a b = (if inbound a \<noteq> inbound b then \<not> inbound a else linkSeq a < linkSeq b)"

definition usable :: "outPeer \<Rightarrow> bool" where
  "usable l \<longleftrightarrow> \<not> replStop l \<and> replCh l \<noteq> None"

definition linkKey :: "outPeer \<Rightarrow> bytes" where
  "linkKey l = (if remoteID l = [] then ''addr:'' @ opAddr l else remoteID l)"

definition pickLink :: "(nat \<Rightarrow> outPeer) \<Rightarrow> nat \<Rightarrow> (bytes, nat) gomap \<times> bytes list \<Rightarrow> (bytes, nat) gomap \<times> bytes list" where
  "pickLink at i acc =
     (case acc of (best, order) \<Rightarrow>
        let l = at i; key = linkKey l
        in if \<not> usable l then (best, order)
           else case mapGet best key of
                  None \<Rightarrow> (mapPut key i best, order @ [key])
                | Some cur \<Rightarrow> if preferLink l (at cur) then (mapPut key i best, order) else (best, order))"

definition computeReplicationTargets :: "service \<Rightarrow> nat list" where
  "computeReplicationTargets sv =
     (case fold (pickLink (linkAt sv)) (out sv) ([], []) of
        (best, order) \<Rightarrow> map (\<lambda>k. the (mapGet best k)) order)"

definition replicationTargets :: "service \<Rightarrow> nat list \<times> service" where
  "replicationTargets sv =
     (let gen = targetsGen sv
      in case targetsCache sv of
           Some (g, links) \<Rightarrow>
             if g = gen then (links, sv)
             else let links = computeReplicationTargets sv in (links, sv\<lparr>targetsCache := Some (gen, links)\<rparr>)
         | None \<Rightarrow> let links = computeReplicationTargets sv in (links, sv\<lparr>targetsCache := Some (gen, links)\<rparr>))"


section \<open>Fan-out\<close>

definition buildWireRepl :: "ReplicatePayload \<Rightarrow> service \<Rightarrow> wireRepl \<times> service" where
  "buildWireRepl p sv =
     (let seq = replSeq sv + 1
      in (\<lparr>Op = Op p, Key = Key p, Val = Val p, TTLms = TTLms p, Cnt = Cnt p, Dest = Dest p, Fields = Fields p,
           Members = Members p, wireV = ReplEnvelopeVersion, Seq = seq, Origin = svNodeID sv\<rparr>,
          sv\<lparr>replSeq := seq\<rparr>))"

definition buildReplFrame :: "time \<Rightarrow> wireRepl \<Rightarrow> service \<Rightarrow> replFrame" where
  "buildReplFrame now wr sv = \<lparr>frWire = wr, frNodeID = svNodeID sv, frTs = now\<rparr>"

text \<open>The non-blocking send: a full queue drops the event and counts it.\<close>

definition offer :: "replFrame \<Rightarrow> nat \<Rightarrow> service \<Rightarrow> service" where
  "offer f i sv =
     (case replCh (linkAt sv i) of
        Some q \<Rightarrow>
          if length q < replCap (linkAt sv i) then onLink i (\<lambda>l. l\<lparr>replCh := Some (q @ [f])\<rparr>) sv
          else onStats (AddReplicationDropped 1) sv
      | None \<Rightarrow> onStats (AddReplicationDropped 1) sv)"

definition Replicate :: "time \<Rightarrow> ReplicatePayload \<Rightarrow> service \<Rightarrow> service" where
  "Replicate now p sv =
     (case buildWireRepl p sv of (wr, sv) \<Rightarrow>
      case replicationTargets sv of (targets, sv) \<Rightarrow>
        if targets = [] then sv else fold (offer (buildReplFrame now wr sv)) targets sv)"


section \<open>Registering and removing links\<close>

definition refreshMetrics :: "service \<Rightarrow> service" where
  "refreshMetrics sv =
     (let addrs = map (\<lambda>i. opAddr (linkAt sv i)) (filter (\<lambda>i. \<not> inbound (linkAt sv i)) (out sv))
      in onStats (SetReplicationStats (inboundCount sv) addrs) sv)"

text \<open>A link that is created and registered takes the next address.\<close>

definition registerOut :: "outPeer \<Rightarrow> service \<Rightarrow> nat \<times> service" where
  "registerOut op sv =
     (let i = nextLink sv; n = svLinkSeq sv + 1
      in (i, refreshMetrics
               (sv\<lparr>svLinkSeq := n, linkAt := (linkAt sv)(i := op\<lparr>linkSeq := n\<rparr>), nextLink := i + 1,
                   out := out sv @ [i], targetsGen := targetsGen sv + 1\<rparr>)))"

definition unregisterOut :: "bytes \<Rightarrow> service \<Rightarrow> service" where
  "unregisterOut addr sv =
     refreshMetrics
       (sv\<lparr>out := filter (\<lambda>i. inbound (linkAt sv i) \<or> opAddr (linkAt sv i) \<noteq> addr) (out sv),
           targetsGen := targetsGen sv + 1\<rparr>)"

definition unregisterLink :: "nat \<Rightarrow> service \<Rightarrow> service" where
  "unregisterLink i sv =
     refreshMetrics (sv\<lparr>out := filter (\<lambda>p. p \<noteq> i) (out sv), targetsGen := targetsGen sv + 1\<rparr>)"

definition queueDepth :: "service \<Rightarrow> nat" where
  "queueDepth sv = (let depth = PeerQueueDepth (svCfg sv) in nat (if depth < 1 then 1 else depth))"

text \<open>What a handshake tells about the other node.\<close>

record peerIdentity =
  idNodeID :: bytes
  idAdvertise :: bytes
  idDuplex :: bool
  idCluster :: bool
  idVersion :: int

definition newLink :: "bytes \<Rightarrow> bytes \<Rightarrow> bool \<Rightarrow> service \<Rightarrow> outPeer" where
  "newLink addr remote inb sv =
     zeroLink\<lparr>opAddr := addr, opNodeID := svNodeID sv, remoteID := remote, inbound := inb,
       replCh := Some [], replCap := queueDepth sv\<rparr>"

definition startInboundReplLink :: "bytes \<Rightarrow> peerIdentity \<Rightarrow> service \<Rightarrow> nat \<times> service" where
  "startInboundReplLink remoteAddr pid sv =
     (let addr = trimSpace (idAdvertise pid); addr = (if addr = [] then remoteAddr else addr)
      in registerOut (newLink addr (idNodeID pid) True sv) sv)"

text \<open>The opening of an outbound session, and its deferred end.\<close>

definition startOutbound :: "bytes \<Rightarrow> peerIdentity \<Rightarrow> service \<Rightarrow> nat \<times> service" where
  "startOutbound addr pid sv = registerOut (newLink addr (idNodeID pid) False sv) sv"

definition markStopped :: "nat \<Rightarrow> service \<Rightarrow> service" where
  "markStopped i sv = onLink i (\<lambda>l. l\<lparr>replStop := True\<rparr>) sv"

definition cancelSession :: "nat \<Rightarrow> service \<Rightarrow> service" where
  "cancelSession i sv = onLink i (\<lambda>l. l\<lparr>cancelled := True\<rparr>) sv"

definition endOutbound :: "nat \<Rightarrow> service \<Rightarrow> service" where
  "endOutbound i sv = unregisterLink i (markStopped i (cancelSession i sv))"

definition stopInboundReplLink :: "nat option \<Rightarrow> service \<Rightarrow> service" where
  "stopInboundReplLink link sv =
     (case link of None \<Rightarrow> sv | Some i \<Rightarrow> cancelSession i (unregisterLink i (markStopped i sv)))"


section \<open>The writer of a link\<close>

text \<open>One turn of the writer: the frame it takes off the queue.\<close>

definition writerTake :: "nat \<Rightarrow> service \<Rightarrow> replFrame option \<times> service" where
  "writerTake i sv =
     (case replCh (linkAt sv i) of
        Some (f # q) \<Rightarrow> (Some f, onLink i (\<lambda>l. l\<lparr>replCh := Some q\<rparr>) sv)
      | _ \<Rightarrow> (None, sv))"

text \<open>A frame that cannot be encoded or written is counted and gone.\<close>

definition flushOutboundReplLine :: "bool \<Rightarrow> service \<Rightarrow> service" where
  "flushOutboundReplLine ok sv = (if ok then sv else onStats (AddReplicationSendError 1) sv)"

text \<open>After the session is cancelled, the writer drains the queue until a deadline half a second
  after the writer began; \<open>clock\<close> holds the readings of the clock, one for each turn.  The result is
  what is sent and what is left.\<close>

fun drainQueue :: "time \<Rightarrow> time list \<Rightarrow> replFrame list \<Rightarrow> replFrame list \<times> replFrame list" where
  "drainQueue deadline (t # clock) (f # q) =
     (if t < deadline then case drainQueue deadline clock q of (sent, left) \<Rightarrow> (f # sent, left)
      else ([], f # q))"
| "drainQueue deadline _ q = ([], q)"

definition writerDrain :: "time \<Rightarrow> time list \<Rightarrow> replFrame list \<Rightarrow> replFrame list \<times> replFrame list" where
  "writerDrain began clock q = drainQueue (timeAdd began (500 * durMillisecond)) clock q"


section \<open>Shutdown\<close>

definition pendingOutbound :: "service \<Rightarrow> nat" where
  "pendingOutbound sv = sum_list (map (\<lambda>i. case replCh (linkAt sv i) of Some q \<Rightarrow> length q | None \<Rightarrow> 0) (out sv))"

text \<open>\<open>DrainReplicationOutbound\<close> looks at the queues again and again until they are empty or its context
  ends.  The argument holds what each turn sees: whether the context has ended, and the service.\<close>

fun DrainReplicationOutbound :: "(bool \<times> service) list \<Rightarrow> bool option" where
  "DrainReplicationOutbound [] = None"
| "DrainReplicationOutbound ((done, sv) # later) =
     (if done then Some False else if pendingOutbound sv = 0 then Some True else DrainReplicationOutbound later)"

definition CloseActiveConnections :: "service \<Rightarrow> service" where
  "CloseActiveConnections sv = fold cancelSession (out sv) sv"

record replSpillEntry =
  spillPeer :: bytes
  spillWire :: wireRepl

text \<open>A session that is still open is cancelled, its writer drains what it can, and what is left is
  collected; \<open>writer\<close> gives for each link when its writer began and the clock readings of its drain.\<close>

definition spillLink ::
  "(nat \<Rightarrow> time \<times> time list) \<Rightarrow> nat \<Rightarrow> service \<times> replSpillEntry list \<Rightarrow> service \<times> replSpillEntry list" where
  "spillLink writer i acc =
     (case acc of (sv, pending) \<Rightarrow>
        case replCh (linkAt sv i) of
          None \<Rightarrow> (sv, pending)
        | Some q \<Rightarrow>
            let left = (if cancelled (linkAt sv i) then q else snd (writerDrain (fst (writer i)) (snd (writer i)) q))
            in (onLink i (\<lambda>l. l\<lparr>cancelled := True, replCh := Some []\<rparr>) sv,
                pending @ map (\<lambda>f. \<lparr>spillPeer = opAddr (linkAt sv i), spillWire = frWire f\<rparr>) left))"

text \<open>The entries written to the spill file, \<open>None\<close> when no file is written.\<close>

definition FinalizeGracefulShutdown ::
  "(nat \<Rightarrow> time \<times> time list) \<Rightarrow> bytes \<Rightarrow> service \<Rightarrow> service \<times> replSpillEntry list option" where
  "FinalizeGracefulShutdown writer spillPath sv =
     (case fold (spillLink writer) (out sv) (sv, []) of
        (sv, pending) \<Rightarrow> (sv, if pending = [] \<or> spillPath = [] then None else Some pending))"


section \<open>Rows for the management API\<close>

text \<open>One row per configured peer: its address, whether a link to it is registered, and the time of the
  last heartbeat.\<close>

definition PeersInfo :: "service \<Rightarrow> (bytes \<times> bool \<times> int option) list" where
  "PeersInfo sv =
     (let ls = map (linkAt sv) (out sv);
          lastHB = fold (\<lambda>l m. if lastHeartbeatAck l > 0 then mapPut (opAddr l) (lastHeartbeatAck l) m else m) ls []
      in map (\<lambda>a. (a, a \<in> opAddr ` set ls, mapGet lastHB a)) (Peers (svCfg sv)))"


section \<open>One link per node\<close>

lemma preferLink_step: "preferLink l cur \<Longrightarrow> \<not> preferLink j cur \<Longrightarrow> \<not> preferLink j l"
  by (auto simp: preferLink_def split: if_splits)

lemma preferLink_irrefl [simp]: "\<not> preferLink l l"
  by (simp add: preferLink_def)

text \<open>The nodes that can be reached over a list of links.\<close>

definition nodesOf :: "(nat \<Rightarrow> outPeer) \<Rightarrow> nat list \<Rightarrow> bytes set" where
  "nodesOf at is = (\<lambda>i. linkKey (at i)) ` {i \<in> set is. usable (at i)}"

lemma nodesOf_simps [simp]:
  "nodesOf at [] = {}"
  "nodesOf at (i # is) = (if usable (at i) then {linkKey (at i)} else {}) \<union> nodesOf at is"
  "nodesOf at (is @ [i]) = nodesOf at is \<union> (if usable (at i) then {linkKey (at i)} else {})"
  by (auto simp: nodesOf_def)

lemma nodesOfI: "i \<in> set is \<Longrightarrow> usable (at i) \<Longrightarrow> linkKey (at i) \<in> nodesOf at is"
  by (auto simp: nodesOf_def)

text \<open>The chosen link of a node, and what the loop over the links has established.\<close>

definition bestLink :: "(nat \<Rightarrow> outPeer) \<Rightarrow> nat list \<Rightarrow> bytes \<Rightarrow> nat \<Rightarrow> bool" where
  "bestLink at is k i \<longleftrightarrow>
     i \<in> set is \<and> usable (at i) \<and> linkKey (at i) = k \<and>
     (\<forall>j\<in>set is. usable (at j) \<and> linkKey (at j) = k \<longrightarrow> \<not> preferLink (at j) (at i))"

definition picked :: "(nat \<Rightarrow> outPeer) \<Rightarrow> nat list \<Rightarrow> (bytes, nat) gomap \<times> bytes list \<Rightarrow> bool" where
  "picked at is acc \<longleftrightarrow>
     (case acc of (best, order) \<Rightarrow>
        distinct order \<and> set order = nodesOf at is \<and>
        (\<forall>k. mapGet best k = None \<longleftrightarrow> k \<notin> nodesOf at is) \<and>
        (\<forall>k i. mapGet best k = Some i \<longrightarrow> bestLink at is k i))"

lemma picked_step: "picked at is acc \<Longrightarrow> picked at (is @ [i]) (pickLink at i acc)"
proof (cases acc)
  case (Pair best order)
  assume "picked at is acc"
  with Pair have p: "distinct order" "set order = nodesOf at is"
    "\<And>k. mapGet best k = None \<longleftrightarrow> k \<notin> nodesOf at is" "\<And>k i. mapGet best k = Some i \<Longrightarrow> bestLink at is k i"
    by (auto simp: picked_def)
  show ?thesis
  proof (cases "usable (at i)")
    case False
    with p(4) have "mapGet best k = Some j \<Longrightarrow> bestLink at (is @ [i]) k j" for k j by (auto simp: bestLink_def)
    with p False Pair show ?thesis by (auto simp: picked_def pickLink_def Let_def)
  next
    case u: True
    have other: "bestLink at (is @ [i]) k j" if "mapGet best k = Some j" "k \<noteq> linkKey (at i)" for k j
      using p(4) [OF that(1)] that(2) by (auto simp: bestLink_def)
    show ?thesis
    proof (cases "mapGet best (linkKey (at i))")
      case None
      with p(3) have "linkKey (at i) \<notin> nodesOf at is" by simp
      then have "bestLink at (is @ [i]) (linkKey (at i)) i" using u by (auto simp: bestLink_def dest: nodesOfI)
      moreover have "pickLink at i acc = (mapPut (linkKey (at i)) i best, order @ [linkKey (at i)])"
        by (simp add: pickLink_def Pair u None Let_def)
      ultimately show ?thesis using p u other \<open>linkKey (at i) \<notin> nodesOf at is\<close> by (auto simp: picked_def)
    next
      case (Some cur)
      from p(4) [OF Some] have cur: "bestLink at is (linkKey (at i)) cur" .
      from Some p(3) have "linkKey (at i) \<in> nodesOf at is" by (metis option.distinct(1))
      moreover have "bestLink at (is @ [i]) (linkKey (at i)) (if preferLink (at i) (at cur) then i else cur)"
        using cur u preferLink_step [of "at i" "at cur"] by (auto simp: bestLink_def)
      moreover have "pickLink at i acc = (if preferLink (at i) (at cur) then (mapPut (linkKey (at i)) i best, order) else (best, order))"
        by (simp add: pickLink_def Pair u Some Let_def)
      moreover have "bestLink at (is @ [i]) k j" if "mapGet best k = Some j" "\<not> preferLink (at i) (at cur)" for k j
        using that other calculation(2) Some by (cases "k = linkKey (at i)") auto
      ultimately show ?thesis using p u other Some by (auto simp: picked_def split: if_splits)
    qed
  qed
qed

lemma picked_fold: "picked at is (fold (pickLink at) is ([], []))"
  by (induction "is" rule: rev_induct) (simp_all add: picked_step, simp add: picked_def)


lemma computeReplicationTargets_spec:
  fixes sv
  defines "ts \<equiv> computeReplicationTargets sv"
  shows "distinct (map (\<lambda>i. linkKey (linkAt sv i)) ts)"
    and "(\<lambda>i. linkKey (linkAt sv i)) ` set ts = nodesOf (linkAt sv) (out sv)"
    and "i \<in> set ts \<Longrightarrow> bestLink (linkAt sv) (out sv) (linkKey (linkAt sv i)) i"
proof -
  obtain best order where f: "fold (pickLink (linkAt sv)) (out sv) ([], []) = (best, order)" by fastforce
  from picked_fold [of "linkAt sv" "out sv"] have p: "picked (linkAt sv) (out sv) (best, order)" by (simp add: f)
  have ts: "ts = map (\<lambda>k. the (mapGet best k)) order" by (simp add: ts_def computeReplicationTargets_def f)
  have b: "bestLink (linkAt sv) (out sv) k (the (mapGet best k))" if "k \<in> set order" for k
    using p that by (auto simp: picked_def)
  then have k: "linkKey (linkAt sv (the (mapGet best k))) = k" if "k \<in> set order" for k using that by (auto simp: bestLink_def)
  have keys: "map (\<lambda>i. linkKey (linkAt sv i)) ts = order" by (simp add: ts k map_idI comp_def)
  show "distinct (map (\<lambda>i. linkKey (linkAt sv i)) ts)" using p by (simp add: keys picked_def)
  show "(\<lambda>i. linkKey (linkAt sv i)) ` set ts = nodesOf (linkAt sv) (out sv)"
    using p by (simp add: picked_def keys flip: set_map)
  show "i \<in> set ts \<Longrightarrow> bestLink (linkAt sv) (out sv) (linkKey (linkAt sv i)) i"
    using b k by (auto simp: ts)
qed



section \<open>The cache of the choice\<close>

text \<open>The choice depends on the links only through their direction, age, remote and usability.\<close>

definition sameChoice :: "(nat \<Rightarrow> outPeer) \<Rightarrow> (nat \<Rightarrow> outPeer) \<Rightarrow> bool" where
  "sameChoice at at' \<longleftrightarrow>
     (\<forall>i. usable (at' i) = usable (at i) \<and> linkKey (at' i) = linkKey (at i) \<and>
          inbound (at' i) = inbound (at i) \<and> linkSeq (at' i) = linkSeq (at i))"

lemma pickLink_cong: "sameChoice at at' \<Longrightarrow> pickLink at' = pickLink at"
  by (auto simp: sameChoice_def pickLink_def preferLink_def Let_def fun_eq_iff split: option.split)

lemma targets_cong:
  "sameChoice (linkAt sv) (linkAt sv') \<Longrightarrow> out sv' = out sv \<Longrightarrow>
   computeReplicationTargets sv' = computeReplicationTargets sv"
  by (simp add: computeReplicationTargets_def pickLink_cong)

definition cacheOk :: "service \<Rightarrow> bool" where
  "cacheOk sv \<longleftrightarrow>
     (\<forall>g ls. targetsCache sv = Some (g, ls) \<longrightarrow>
        g \<le> targetsGen sv \<and> (g = targetsGen sv \<longrightarrow> ls = computeReplicationTargets sv))"

lemma cacheOk_targets: "cacheOk sv \<Longrightarrow> cacheOk (snd (replicationTargets sv))"
  by (auto simp: cacheOk_def replicationTargets_def computeReplicationTargets_def Let_def split: option.splits)

text \<open>A link that is being torn down is marked as stopped before it is removed, and the cached choice does not
  notice: it is the choice for the links as they were, some of which have stopped since.\<close>

definition stoppedSince :: "(nat \<Rightarrow> outPeer) \<Rightarrow> (nat \<Rightarrow> outPeer) \<Rightarrow> bool" where
  "stoppedSince at at' \<longleftrightarrow>
     (\<forall>i. linkKey (at' i) = linkKey (at i) \<and> inbound (at' i) = inbound (at i) \<and> linkSeq (at' i) = linkSeq (at i) \<and>
          (usable (at' i) \<longrightarrow> usable (at i)) \<and> (usable (at i) \<longrightarrow> usable (at' i) \<or> replStop (at' i)))"

lemma stoppedSince_refl [simp]: "stoppedSince at at"
  by (simp add: stoppedSince_def)

lemma stoppedSince_trans: "stoppedSince at at' \<Longrightarrow> stoppedSince at' at'' \<Longrightarrow> \<forall>i. replStop (at' i) \<longrightarrow> replStop (at'' i) \<Longrightarrow> stoppedSince at at''"
  unfolding stoppedSince_def by metis

definition cacheFair :: "service \<Rightarrow> bool" where
  "cacheFair sv \<longleftrightarrow>
     (\<forall>g ls. targetsCache sv = Some (g, ls) \<longrightarrow>
        g \<le> targetsGen sv \<and>
        (g = targetsGen sv \<longrightarrow> (\<exists>at. stoppedSince at (linkAt sv) \<and> ls = computeReplicationTargets (sv\<lparr>linkAt := at\<rparr>))))"

lemma targets_out: "out sv' = out sv \<Longrightarrow> computeReplicationTargets (sv'\<lparr>linkAt := at\<rparr>) = computeReplicationTargets (sv\<lparr>linkAt := at\<rparr>)"
  by (simp add: computeReplicationTargets_def)

text \<open>Operations that leave the membership and the generation alone keep the cache; those that
  change the membership move to a new generation.\<close>

lemma cacheFair_same:
  assumes "cacheFair sv" and "stoppedSince (linkAt sv) (linkAt sv')" and "\<forall>i. replStop (linkAt sv i) \<longrightarrow> replStop (linkAt sv' i)"
    and "out sv' = out sv" and "targetsGen sv' = targetsGen sv" and "targetsCache sv' = targetsCache sv"
  shows "cacheFair sv'"
  unfolding cacheFair_def
proof (intro allI impI)
  fix g ls assume "targetsCache sv' = Some (g, ls)"
  then have "targetsCache sv = Some (g, ls)" using assms(6) by simp
  then have g: "g \<le> targetsGen sv"
    "g = targetsGen sv \<Longrightarrow> \<exists>at. stoppedSince at (linkAt sv) \<and> ls = computeReplicationTargets (sv\<lparr>linkAt := at\<rparr>)"
    using assms(1) unfolding cacheFair_def by blast+
  have "\<exists>at. stoppedSince at (linkAt sv') \<and> ls = computeReplicationTargets (sv'\<lparr>linkAt := at\<rparr>)" if "g = targetsGen sv"
    using g(2) [OF that] stoppedSince_trans [OF _ assms(2,3)] targets_out [OF assms(4)] by metis
  with g(1) assms(5) show "g \<le> targetsGen sv' \<and>
      (g = targetsGen sv' \<longrightarrow> (\<exists>at. stoppedSince at (linkAt sv') \<and> ls = computeReplicationTargets (sv'\<lparr>linkAt := at\<rparr>)))"
    by simp
qed

lemma cacheFair_next:
  assumes "cacheFair sv" and "targetsGen sv' = targetsGen sv + 1" and "targetsCache sv' = targetsCache sv"
  shows "cacheFair sv'"
  using assms by (fastforce simp: cacheFair_def)

lemma replicationTargets_fair:
  assumes "cacheFair sv"
  shows "\<exists>at. stoppedSince at (linkAt sv) \<and> fst (replicationTargets sv) = computeReplicationTargets (sv\<lparr>linkAt := at\<rparr>)" (is ?choice)
    and "cacheFair (snd (replicationTargets sv))" (is ?fair)
proof -
  have "?choice \<and> ?fair"
  proof (cases "\<exists>ls. targetsCache sv = Some (targetsGen sv, ls)")
    case True
    then obtain ls where c: "targetsCache sv = Some (targetsGen sv, ls)" by blast
    then have r: "replicationTargets sv = (ls, sv)" by (simp add: replicationTargets_def Let_def)
    from assms c have "\<exists>at. stoppedSince at (linkAt sv) \<and> ls = computeReplicationTargets (sv\<lparr>linkAt := at\<rparr>)"
      unfolding cacheFair_def by blast
    with r assms show ?thesis by simp
  next
    case False
    then have r: "replicationTargets sv = (computeReplicationTargets sv, sv\<lparr>targetsCache := Some (targetsGen sv, computeReplicationTargets sv)\<rparr>)"
      by (auto simp: replicationTargets_def Let_def split: option.split)
    have same: "computeReplicationTargets (sv\<lparr>targetsCache := c, linkAt := linkAt sv\<rparr>) = computeReplicationTargets sv" for c
      by (simp add: computeReplicationTargets_def)
    have ?choice unfolding r by (intro exI [of _ "linkAt sv"]) simp
    moreover have ?fair unfolding r cacheFair_def using same by (auto intro: exI [of _ "linkAt sv"])
    ultimately show ?thesis by blast
  qed
  then show ?choice and ?fair by blast+
qed

lemma service_fields [simp]:
  "linkAt (onStats f sv) = linkAt sv" "out (onStats f sv) = out sv" "targetsGen (onStats f sv) = targetsGen sv"
  "targetsCache (onStats f sv) = targetsCache sv" "replSeq (onStats f sv) = replSeq sv" "svNodeID (onStats f sv) = svNodeID sv"
  "linkAt (onLink i h sv) = (linkAt sv)(i := h (linkAt sv i))" "out (onLink i h sv) = out sv"
  "targetsGen (onLink i h sv) = targetsGen sv" "targetsCache (onLink i h sv) = targetsCache sv"
  "svStats (onLink i h sv) = svStats sv" "replSeq (onLink i h sv) = replSeq sv" "svNodeID (onLink i h sv) = svNodeID sv"
  "svStats (onStats f sv) = f (svStats sv)"
  by (simp_all add: onStats_def onLink_def)

lemma refreshMetrics_fields [simp]:
  "linkAt (refreshMetrics sv) = linkAt sv" "out (refreshMetrics sv) = out sv"
  "targetsGen (refreshMetrics sv) = targetsGen sv" "targetsCache (refreshMetrics sv) = targetsCache sv"
  by (simp_all add: refreshMetrics_def Let_def)

lemma targets_fields [simp]:
  "linkAt (snd (replicationTargets sv)) = linkAt sv" "out (snd (replicationTargets sv)) = out sv"
  "targetsGen (snd (replicationTargets sv)) = targetsGen sv" "svStats (snd (replicationTargets sv)) = svStats sv"
  "replSeq (snd (replicationTargets sv)) = replSeq sv" "svNodeID (snd (replicationTargets sv)) = svNodeID sv"
  by (auto simp: replicationTargets_def Let_def split: option.split)



section \<open>Histories of the links\<close>

text \<open>A session ends in three steps, with writes of other goroutines in between: cancelled, stopped and removed for a
  dialled link (\<open>endOutbound\<close>), stopped, removed and cancelled for an accepted one (\<open>stopInboundReplLink\<close>).\<close>

datatype link_op =
  OpDial bytes peerIdentity
| OpAccept bytes peerIdentity
| OpCancel nat
| OpStop nat
| OpRemove nat
| OpDropAddr bytes
| OpReplicate time ReplicatePayload
| OpWrite nat bool
| OpHeartbeat nat int
| OpCloseAll

fun linkStep :: "link_op \<Rightarrow> service \<Rightarrow> service" where
  "linkStep (OpDial addr pid) sv = snd (startOutbound addr pid sv)"
| "linkStep (OpAccept addr pid) sv = snd (startInboundReplLink addr pid sv)"
| "linkStep (OpCancel i) sv = cancelSession i sv"
| "linkStep (OpStop i) sv = markStopped i sv"
| "linkStep (OpRemove i) sv = unregisterLink i sv"
| "linkStep (OpDropAddr addr) sv = unregisterOut addr sv"
| "linkStep (OpReplicate now p) sv = Replicate now p sv"
| "linkStep (OpWrite i ok) sv = (case writerTake i sv of (Some _, sv) \<Rightarrow> flushOutboundReplLine ok sv | (None, sv) \<Rightarrow> sv)"
| "linkStep (OpHeartbeat i t) sv = onLink i (\<lambda>l. l\<lparr>lastHeartbeatAck := t\<rparr>) sv"
| "linkStep OpCloseAll sv = CloseActiveConnections sv"

definition roomy :: "outPeer \<Rightarrow> bool" where
  "roomy l = (case replCh l of Some q \<Rightarrow> length q < replCap l | None \<Rightarrow> False)"

definition push :: "replFrame \<Rightarrow> outPeer \<Rightarrow> outPeer" where
  "push f l = l\<lparr>replCh := map_option (\<lambda>q. q @ [f]) (replCh l)\<rparr>"

lemma push_fields [simp]: "usable (push f l) = usable l" "linkKey (push f l) = linkKey l" "inbound (push f l) = inbound l"
  "linkSeq (push f l) = linkSeq l" "replStop (push f l) = replStop l"
  by (simp_all add: push_def usable_def linkKey_def)

lemma link_update_fields [simp]:
  "usable (l\<lparr>cancelled := b\<rparr>) = usable l" "linkKey (l\<lparr>cancelled := b\<rparr>) = linkKey l"
  "usable (l\<lparr>lastHeartbeatAck := t\<rparr>) = usable l" "linkKey (l\<lparr>lastHeartbeatAck := t\<rparr>) = linkKey l"
  "linkKey (l\<lparr>replCh := ch\<rparr>) = linkKey l" "linkKey (l\<lparr>replStop := b\<rparr>) = linkKey l"
  by (simp_all add: usable_def linkKey_def)

lemma offer_cases: "offer f i sv = (if roomy (linkAt sv i) then onLink i (push f) sv else onStats (AddReplicationDropped 1) sv)"
  by (auto simp: offer_def roomy_def push_def onLink_def split: option.split)

lemma offer_fold:
  "distinct is \<Longrightarrow>
   linkAt (fold (offer f) is sv) = (\<lambda>i. if i \<in> set is \<and> roomy (linkAt sv i) then push f (linkAt sv i) else linkAt sv i) \<and>
   svStats (fold (offer f) is sv) = (AddReplicationDropped 1 ^^ length (filter (\<lambda>i. \<not> roomy (linkAt sv i)) is)) (svStats sv) \<and>
   out (fold (offer f) is sv) = out sv \<and> targetsGen (fold (offer f) is sv) = targetsGen sv \<and>
   targetsCache (fold (offer f) is sv) = targetsCache sv"
proof (induction "is" arbitrary: sv)
  case (Cons i "is")
  have "filter (\<lambda>j. \<not> roomy (linkAt (offer f i sv) j)) is = filter (\<lambda>j. \<not> roomy (linkAt sv j)) is"
    using Cons.prems by (intro filter_cong) (auto simp: offer_cases)
  moreover note Cons.IH [of "offer f i sv"]
  ultimately show ?case using Cons.prems by (auto simp: offer_cases fun_eq_iff funpow_swap1)
qed simp

lemma buildWireRepl_fields [simp]:
  "linkAt (snd (buildWireRepl p sv)) = linkAt sv" "out (snd (buildWireRepl p sv)) = out sv"
  "targetsGen (snd (buildWireRepl p sv)) = targetsGen sv" "targetsCache (snd (buildWireRepl p sv)) = targetsCache sv"
  "svStats (snd (buildWireRepl p sv)) = svStats sv" "svNodeID (snd (buildWireRepl p sv)) = svNodeID sv"
  by (simp_all add: buildWireRepl_def Let_def)

lemma distinct_targets: "distinct (computeReplicationTargets sv)"
  using computeReplicationTargets_spec(1) [of sv] by (rule distinct_map [THEN iffD1, THEN conjunct1])

lemma Replicate_alt:
  "Replicate now p sv =
     fold (offer (buildReplFrame now (fst (buildWireRepl p sv)) sv)) (fst (replicationTargets (snd (buildWireRepl p sv))))
       (snd (replicationTargets (snd (buildWireRepl p sv))))"
proof -
  obtain wr b where b: "buildWireRepl p sv = (wr, b)" by fastforce
  obtain ts c where c: "replicationTargets b = (ts, c)" by fastforce
  have "svNodeID c = svNodeID sv" using targets_fields(6) [of b] buildWireRepl_fields(6) [of p sv] by (simp add: b c)
  then show ?thesis by (simp add: Replicate_def b c buildReplFrame_def)
qed

lemma Replicate_effect:
  fixes now p sv
  defines "f \<equiv> buildReplFrame now (fst (buildWireRepl p sv)) sv"
  assumes "cacheFair sv"
  obtains at ts where "stoppedSince at (linkAt sv)" "ts = computeReplicationTargets (sv\<lparr>linkAt := at\<rparr>)"
    "linkAt (Replicate now p sv) = (\<lambda>i. if i \<in> set ts \<and> roomy (linkAt sv i) then push f (linkAt sv i) else linkAt sv i)"
    "svStats (Replicate now p sv) = (AddReplicationDropped 1 ^^ length (filter (\<lambda>i. \<not> roomy (linkAt sv i)) ts)) (svStats sv)"
    "cacheFair (Replicate now p sv)"
proof -
  define b where "b = snd (buildWireRepl p sv)"
  have cb: "cacheFair b" using assms(2) by (rule cacheFair_same) (simp_all add: b_def)
  obtain at where at: "stoppedSince at (linkAt sv)" and tb: "fst (replicationTargets b) = computeReplicationTargets (b\<lparr>linkAt := at\<rparr>)"
    using replicationTargets_fair(1) [OF cb] by (auto simp: b_def)
  define ts where "ts = computeReplicationTargets (sv\<lparr>linkAt := at\<rparr>)"
  have tb: "fst (replicationTargets b) = ts" using targets_out [of b sv at] tb by (simp add: b_def ts_def)
  define c where "c = snd (replicationTargets b)"
  have r: "Replicate now p sv = fold (offer f) ts c" by (simp add: Replicate_alt tb [unfolded b_def] c_def b_def f_def)
  have d: "distinct ts" by (simp add: ts_def distinct_targets)
  have c: "linkAt c = linkAt sv" "svStats c = svStats sv" by (simp_all add: c_def b_def)
  note e = offer_fold [OF d, of f c, unfolded c]
  have "cacheFair c" using replicationTargets_fair(2) [OF cb] by (simp add: c_def)
  then have "cacheFair (Replicate now p sv)"
    by (rule cacheFair_same) (use e in \<open>auto simp: r c stoppedSince_def\<close>)
  with e show thesis by (intro that [OF at ts_def]) (simp_all add: r)
qed

lemma linkStep_cacheFair: "cacheFair sv \<Longrightarrow> cacheFair (linkStep op sv)"
proof (cases op)
  case (OpReplicate now p)
  assume "cacheFair sv"
  with OpReplicate show ?thesis using Replicate_effect [of sv now p] by auto
next
  case (OpWrite i ok)
  assume "cacheFair sv"
  then show ?thesis
    by (rule cacheFair_same)
      (auto simp: OpWrite writerTake_def flushOutboundReplLine_def stoppedSince_def usable_def linkKey_def split: option.split list.split)
next
  case OpCloseAll
  assume c: "cacheFair sv"
  have "cacheFair (fold cancelSession is sv)" for "is"
    by (induction "is" rule: rev_induct)
      (auto simp: c cancelSession_def stoppedSince_def elim!: cacheFair_same)
  then show ?thesis by (simp add: OpCloseAll CloseActiveConnections_def)
next
  case (OpHeartbeat i t)
  assume "cacheFair sv"
  then show ?thesis by (rule cacheFair_same) (auto simp: OpHeartbeat stoppedSince_def)
next
  case (OpCancel i)
  assume "cacheFair sv"
  then show ?thesis by (rule cacheFair_same) (auto simp: OpCancel cancelSession_def stoppedSince_def)
next
  case (OpStop i)
  assume "cacheFair sv"
  then show ?thesis by (rule cacheFair_same) (auto simp: OpStop markStopped_def stoppedSince_def usable_def linkKey_def)
qed (auto elim!: cacheFair_next simp: startOutbound_def startInboundReplLink_def registerOut_def
  unregisterOut_def unregisterLink_def Let_def)


definition linkRun :: "link_op list \<Rightarrow> service \<Rightarrow> service" where
  "linkRun ops sv = fold linkStep ops sv"

lemma linkRun_cacheFair: "cacheFair (linkRun ops (NewService cfg st m n))"
  by (induction ops rule: rev_induct) (auto simp: linkRun_def linkStep_cacheFair, simp add: NewService_def cacheFair_def)

text \<open>The steps of a session that ends are those of the code.\<close>

lemma session_ends:
  "linkRun [OpCancel i, OpStop i, OpRemove i] sv = endOutbound i sv"
  "linkRun [OpStop i, OpRemove i, OpCancel i] sv = stopInboundReplLink (Some i) sv"
  by (simp_all add: linkRun_def endOutbound_def stopInboundReplLink_def)

text \<open>A node none of whose registered links is being torn down.\<close>

definition settled :: "service \<Rightarrow> bytes \<Rightarrow> bool" where
  "settled sv k \<longleftrightarrow> (\<forall>i\<in>set (out sv). linkKey (linkAt sv i) = k \<longrightarrow> \<not> replStop (linkAt sv i))"

lemma stale_choice:
  assumes "stoppedSince at (linkAt sv)" and "ts = computeReplicationTargets (sv\<lparr>linkAt := at\<rparr>)"
  shows "distinct (map (\<lambda>i. linkKey (linkAt sv i)) ts)" and "set ts \<subseteq> set (out sv)"
    and "settled sv k \<Longrightarrow> k \<in> (\<lambda>i. linkKey (linkAt sv i)) ` set ts \<longleftrightarrow> k \<in> nodesOf (linkAt sv) (out sv)"
    and "settled sv k \<Longrightarrow> i \<in> set ts \<Longrightarrow> linkKey (linkAt sv i) = k \<Longrightarrow> bestLink (linkAt sv) (out sv) k i"
proof -
  let ?s = "sv\<lparr>linkAt := at\<rparr>"
  have key: "linkKey (linkAt sv i) = linkKey (at i)" and pref: "preferLink (linkAt sv i) (linkAt sv j) = preferLink (at i) (at j)" for i j
    using assms(1) by (simp_all add: stoppedSince_def preferLink_def)
  note spec = computeReplicationTargets_spec [where sv = ?s, folded assms(2)]
  show "distinct (map (\<lambda>i. linkKey (linkAt sv i)) ts)" using spec(1) by (simp add: key)
  show "set ts \<subseteq> set (out sv)" using spec(3) by (auto simp: bestLink_def)
  assume "settled sv k"
  then have use: "usable (at i) = usable (linkAt sv i)" if "i \<in> set (out sv)" "linkKey (at i) = k" for i
    using assms(1) that unfolding settled_def stoppedSince_def by metis
  have "k \<in> nodesOf at (out sv) \<longleftrightarrow> k \<in> nodesOf (linkAt sv) (out sv)"
    using use by (auto simp: nodesOf_def key)
  with spec(2) show "k \<in> (\<lambda>i. linkKey (linkAt sv i)) ` set ts \<longleftrightarrow> k \<in> nodesOf (linkAt sv) (out sv)" by (simp add: key)
  assume "i \<in> set ts" "linkKey (linkAt sv i) = k"
  with spec(3) [of i] show "bestLink (linkAt sv) (out sv) k i" using use by (auto simp: bestLink_def key pref)
qed

text \<open>A service with two links to one node and one to another.\<close>

definition identity :: "bytes \<Rightarrow> bytes \<Rightarrow> peerIdentity" where
  "identity n adv = \<lparr>idNodeID = n, idAdvertise = adv, idDuplex = True, idCluster = False, idVersion = 2\<rparr>"

definition sampleOps :: "link_op list" where
  "sampleOps = [OpAccept ''10.0.0.2:50000'' (identity ''b'' ''10.0.0.2:7379''), OpDial ''10.0.0.2:7379'' (identity ''b'' ''10.0.0.2:7379''),
     OpAccept ''10.0.0.3:50000'' (identity ''c'' ''10.0.0.3:7379'')]"

definition sampleService :: service where
  "sampleService = linkRun sampleOps (NewService zeroConfig freshStore (newStats 0 ''a'' 6379) ''a'')"

lemma registerOut_fields [simp]:
  "out (snd (registerOut op sv)) = out sv @ [nextLink sv]"
  "linkAt (snd (registerOut op sv)) = (linkAt sv)(nextLink sv := op\<lparr>linkSeq := svLinkSeq sv + 1\<rparr>)"
  "nextLink (snd (registerOut op sv)) = nextLink sv + 1" "svLinkSeq (snd (registerOut op sv)) = svLinkSeq sv + 1"
  "svCfg (snd (registerOut op sv)) = svCfg sv" "targetsCache (snd (registerOut op sv)) = targetsCache sv"
  by (simp_all add: registerOut_def refreshMetrics_def onStats_def Let_def)

lemma NewService_fields [simp]:
  "out (NewService cfg st m n) = []" "nextLink (NewService cfg st m n) = 0" "svLinkSeq (NewService cfg st m n) = 0"
  "svCfg (NewService cfg st m n) = cfg" "targetsCache (NewService cfg st m n) = None"
  by (simp_all add: NewService_def)

lemma newLink_fields [simp]:
  "usable ((newLink addr r inb sv)\<lparr>linkSeq := n\<rparr>)" "remoteID (newLink addr r inb sv) = r" "opAddr (newLink addr r inb sv) = addr"
  "inbound (newLink addr r inb sv) = inb" "replCh (newLink addr r inb sv) = Some []" "0 < replCap (newLink addr r inb sv)"
  by (simp_all add: newLink_def zeroLink_def usable_def queueDepth_def Let_def)

lemma sampleService_facts:
  "out sampleService = [0, 1, 2]"
  "linkKey (linkAt sampleService 0) = ''b''" "linkKey (linkAt sampleService 1) = ''b''" "linkKey (linkAt sampleService 2) = ''c''"
  "usable (linkAt sampleService 0)" "usable (linkAt sampleService 1)" "usable (linkAt sampleService 2)"
  "preferLink (linkAt sampleService 1) (linkAt sampleService 0)" "replCh (linkAt sampleService 1) = Some []"
  "roomy (linkAt sampleService 1)"
  by (simp_all add: sampleService_def linkRun_def sampleOps_def identity_def startInboundReplLink_def startOutbound_def
    linkKey_def preferLink_def roomy_def Let_def)

lemma sampleService_choice:
  assumes "(\<lambda>i. linkKey (linkAt sampleService i)) ` set ts = nodesOf (linkAt sampleService) (out sampleService)"
    and "\<forall>i\<in>set ts. bestLink (linkAt sampleService) (out sampleService) (linkKey (linkAt sampleService i)) i"
  shows "0 \<notin> set ts" and "1 \<in> set ts"
proof -
  note f = sampleService_facts
  show z: "0 \<notin> set ts"
  proof
    assume "0 \<in> set ts"
    with assms(2) have "bestLink (linkAt sampleService) (out sampleService) ''b'' 0" using f(2) by fastforce
    then have "\<not> preferLink (linkAt sampleService 1) (linkAt sampleService 0)" using f(1,3,6) by (simp add: bestLink_def)
    with f(8) show False by simp
  qed
  have "''b'' \<in> nodesOf (linkAt sampleService) (out sampleService)" using f by simp
  then obtain i where i: "i \<in> set ts" "linkKey (linkAt sampleService i) = ''b''" unfolding assms(1) [symmetric] by auto
  with assms(2) have "i \<in> set (out sampleService)" unfolding bestLink_def by blast
  then have "i = 0 \<or> i = 1 \<or> i = 2" by (simp add: f(1))
  with z i f(4) show "1 \<in> set ts" by auto
qed

text \<open>C26. An event goes to every node once.  Whatever the history of the links, a write is queued on at most one link to
  any node, and only on registered links.  For a node none of whose links is being torn down it is
  queued exactly when a usable link reaches the node, on the preferred one of the links to it.  A link
  whose queue is full drops it, which is counted once per node.\<close>

theorem replicate_once:
  assumes "sv = linkRun ops (NewService cfg st m n)"
  shows "\<exists>ts. distinct (map (\<lambda>i. linkKey (linkAt sv i)) ts) \<and> set ts \<subseteq> set (out sv) \<and>
    (\<forall>k. settled sv k \<longrightarrow>
       (k \<in> (\<lambda>i. linkKey (linkAt sv i)) ` set ts \<longleftrightarrow> k \<in> nodesOf (linkAt sv) (out sv)) \<and>
       (\<forall>i\<in>set ts. linkKey (linkAt sv i) = k \<longrightarrow> bestLink (linkAt sv) (out sv) k i)) \<and>
    linkAt (Replicate now p sv) =
      (\<lambda>i. if i \<in> set ts \<and> roomy (linkAt sv i)
           then push (buildReplFrame now (fst (buildWireRepl p sv)) sv) (linkAt sv i) else linkAt sv i) \<and>
    svStats (Replicate now p sv) =
      (AddReplicationDropped 1 ^^ length (filter (\<lambda>i. \<not> roomy (linkAt sv i)) ts)) (svStats sv)"
proof -
  have c: "cacheFair sv" by (simp add: assms linkRun_cacheFair)
  obtain at ts where t: "stoppedSince at (linkAt sv)" "ts = computeReplicationTargets (sv\<lparr>linkAt := at\<rparr>)" and
    e: "linkAt (Replicate now p sv) = (\<lambda>i. if i \<in> set ts \<and> roomy (linkAt sv i)
           then push (buildReplFrame now (fst (buildWireRepl p sv)) sv) (linkAt sv i) else linkAt sv i)"
    "svStats (Replicate now p sv) = (AddReplicationDropped 1 ^^ length (filter (\<lambda>i. \<not> roomy (linkAt sv i)) ts)) (svStats sv)"
    by (rule Replicate_effect [OF c, of now p]) blast
  show ?thesis using stale_choice [OF t] by (intro exI [of _ ts] conjI e) simp_all
qed

text \<open>The link 1 to node b is preferred to the link 0 to it; the link 2 to node c is being torn down.\<close>

theorem replicate_once_witness:
  "linkAt (Replicate 0 (payload ''DEL'' ''k'') (linkRun (sampleOps @ [OpStop 2]) (NewService zeroConfig freshStore (newStats 0 ''a'' 6379) ''a''))) 0 =
       linkAt sampleService 0 \<and>
     replCh (linkAt (Replicate 0 (payload ''DEL'' ''k'') (linkRun (sampleOps @ [OpStop 2]) (NewService zeroConfig freshStore (newStats 0 ''a'' 6379) ''a''))) 1) \<noteq> Some []"
proof -
  let ?sv = "linkRun (sampleOps @ [OpStop 2]) (NewService zeroConfig freshStore (newStats 0 ''a'' 6379) ''a'')"
  note f = sampleService_facts
  have sv: "?sv = markStopped 2 sampleService" by (simp add: linkRun_def sampleService_def)
  have g: "out ?sv = [0, 1, 2]" "linkAt ?sv 0 = linkAt sampleService 0" "linkAt ?sv 1 = linkAt sampleService 1"
    "linkKey (linkAt ?sv 2) = ''c''" unfolding sv using f by (simp_all add: markStopped_def)
  have s: "settled ?sv ''b''" using g f by (simp add: settled_def usable_def)
  have b: "''b'' \<in> nodesOf (linkAt ?sv) (out ?sv)" using g f by simp
  from replicate_once [OF refl, of "sampleOps @ [OpStop 2]" zeroConfig freshStore "newStats 0 ''a'' 6379" "''a''" 0 "payload ''DEL'' ''k''"]
  obtain ts where ts: "set ts \<subseteq> set (out ?sv)" "''b'' \<in> (\<lambda>i. linkKey (linkAt ?sv i)) ` set ts"
    "\<And>i. i \<in> set ts \<Longrightarrow> linkKey (linkAt ?sv i) = ''b'' \<Longrightarrow> bestLink (linkAt ?sv) (out ?sv) ''b'' i"
    "linkAt (Replicate 0 (payload ''DEL'' ''k'') ?sv) =
      (\<lambda>i. if i \<in> set ts \<and> roomy (linkAt ?sv i)
           then push (buildReplFrame 0 (fst (buildWireRepl (payload ''DEL'' ''k'') ?sv)) ?sv) (linkAt ?sv i) else linkAt ?sv i)"
    using s b by blast
  have z: "0 \<notin> set ts"
  proof
    assume "0 \<in> set ts"
    from ts(3) [OF this] g f have "bestLink (linkAt ?sv) (out ?sv) ''b'' 0" by simp
    with g f show False by (simp add: bestLink_def)
  qed
  obtain i where i: "i \<in> set ts" "linkKey (linkAt ?sv i) = ''b''" using ts(2) by auto
  with ts(1) g(1) have "i = 0 \<or> i = 1 \<or> i = 2" by auto
  with z i g f have one: "1 \<in> set ts" by auto
  show ?thesis using z one ts(4) g f by (simp add: push_def)
qed


section \<open>A link that stops\<close>

text \<open>C30. A link that is stopping still takes events.  The choice of links is cached until a link is registered or removed, and
  the end of a session marks the link as stopped before it removes it.  In between, a write is
  queued on the stopped link, whose writer has been told to end, although another link to the same
  node is usable; the other link does not get it.\<close>

theorem stopped_link_still_used:
  assumes "cacheOk sv" and "targetsCache sv = Some (targetsGen sv, ts)" and "i \<in> set ts" and "roomy (linkAt sv i)"
    and "j \<noteq> i" and "linkKey (linkAt sv j) = linkKey (linkAt sv i)" and "q = the (replCh (linkAt sv i))"
  shows "(\<exists>f. replCh (linkAt (Replicate now p (markStopped i (cancelSession i sv))) i) = Some (q @ [f])) \<and>
    linkAt (Replicate now p (markStopped i (cancelSession i sv))) j = linkAt sv j"
proof -
  define s where "s = markStopped i (cancelSession i sv)"
  define f where "f = buildReplFrame now (fst (buildWireRepl p s)) s"
  have ts: "ts = computeReplicationTargets sv" using assms(1,2) by (simp add: cacheOk_def)
  have one: "j \<notin> set ts"
    using computeReplicationTargets_spec(1) [of sv] assms(3,5,6) unfolding ts distinct_map inj_on_def by blast
  have "fst (replicationTargets (snd (buildWireRepl p s))) = ts"
    using assms(2) by (simp add: replicationTargets_def buildWireRepl_def s_def markStopped_def cancelSession_def Let_def)
  then have r: "Replicate now p s = fold (offer f) ts (snd (replicationTargets (snd (buildWireRepl p s))))"
    by (simp add: Replicate_alt f_def)
  have "distinct ts" by (simp add: ts distinct_targets)
  from offer_fold [OF this, of f "snd (replicationTargets (snd (buildWireRepl p s)))", unfolded targets_fields buildWireRepl_fields]
  have l: "linkAt (Replicate now p s) = (\<lambda>i. if i \<in> set ts \<and> roomy (linkAt s i) then push f (linkAt s i) else linkAt s i)"
    by (simp add: r)
  have "linkAt (Replicate now p (markStopped i (cancelSession i sv))) j = linkAt sv j"
    using one assms(5) unfolding s_def [symmetric] l by (simp add: s_def markStopped_def cancelSession_def)
  moreover have "linkAt s i = (linkAt sv i)\<lparr>replStop := True, cancelled := True\<rparr>" by (simp add: s_def markStopped_def cancelSession_def)
  then have "\<exists>f. replCh (linkAt (Replicate now p (markStopped i (cancelSession i sv))) i) = Some (q @ [f])"
    using assms(3,4,7) unfolding s_def [symmetric] l by (auto simp: roomy_def push_def split: option.splits)
  ultimately show ?thesis by blast
qed


theorem stopped_link_still_used_witness:
  "\<exists>f. replCh (linkAt (Replicate 0 (payload ''DEL'' ''k'') (markStopped 1 (cancelSession 1 (snd (replicationTargets sampleService))))) 1) = Some [f]"
proof -
  let ?sv = "snd (replicationTargets sampleService)" and ?ts = "computeReplicationTargets sampleService"
  have n: "targetsCache sampleService = None"
    by (simp add: sampleService_def linkRun_def sampleOps_def startInboundReplLink_def startOutbound_def Let_def)
  then have c: "cacheOk sampleService" by (simp add: cacheOk_def)
  note n
  then have t: "targetsCache ?sv = Some (targetsGen ?sv, ?ts)" by (simp add: replicationTargets_def Let_def)
  have m: "1 \<in> set ?ts" using sampleService_choice(2) computeReplicationTargets_spec(2,3) by blast
  from stopped_link_still_used [OF cacheOk_targets [OF c] t m _ _ _ refl, of 0] sampleService_facts
  show ?thesis by simp
qed

text \<open>The writer's deadline is taken when the writer begins, so the writer of a session that has lasted half
  a second sends nothing of its queue once the session is cancelled.\<close>

lemma late_drain_sends_nothing:
  "began + 500000000 \<le> t \<Longrightarrow> writerDrain began (t # clock) q = ([], q)"
  by (cases q) (simp_all add: writerDrain_def time_defs)

lemma drainQueue_splits: "drainQueue deadline clock q = (sent, left) \<Longrightarrow> sent @ left = q"
  by (induction deadline clock q arbitrary: sent left rule: drainQueue.induct) (auto split: if_splits prod.splits)

text \<open>A shutdown that closes the sessions before it collects what is queued finds no link and spills
  nothing.\<close>

lemma unregisterLink_out [simp]: "out (unregisterLink i sv) = filter (\<lambda>p. p \<noteq> i) (out sv)"
  by (simp add: unregisterLink_def)

lemma closed_sessions_spill_nothing:
  "snd (FinalizeGracefulShutdown writer path (fold endOutbound (out sv) (CloseActiveConnections sv))) = None"
proof -
  have "out (fold endOutbound is s) = filter (\<lambda>p. p \<notin> set is) (out s)" for "is" s
    by (induction "is" arbitrary: s) (auto simp: endOutbound_def markStopped_def cancelSession_def filter_filter intro: filter_cong)
  moreover have "out (fold cancelSession is s) = out s" for "is" s
    by (induction "is" arbitrary: s) (auto simp: cancelSession_def)
  ultimately show ?thesis by (simp add: FinalizeGracefulShutdown_def CloseActiveConnections_def)
qed


text \<open>Otherwise every event that is still queued on a registered link is spilled.\<close>

definition queued :: "outPeer \<Rightarrow> replSpillEntry list" where
  "queued l = map (\<lambda>f. \<lparr>spillPeer = opAddr l, spillWire = frWire f\<rparr>) (case replCh l of Some q \<Rightarrow> q | None \<Rightarrow> [])"

lemma spill_complete:
  assumes "distinct is" and "\<forall>i\<in>set is. cancelled (linkAt sv i)"
  shows "snd (fold (spillLink writer) is (sv, pending)) = pending @ concat (map (\<lambda>i. queued (linkAt sv i)) is)"
  using assms
proof (induction "is" arbitrary: sv pending)
  case (Cons i "is")
  define s where "s = fst (spillLink writer i (sv, pending))"
  have s: "linkAt s j = linkAt sv j" if "j \<in> set is" for j
    using that Cons.prems(1) by (auto simp add: s_def spillLink_def Let_def split: option.split)
  have e: "spillLink writer i (sv, pending) = (s, pending @ queued (linkAt sv i))"
    using Cons.prems(2) by (simp add: s_def spillLink_def queued_def Let_def split: option.split)
  have "map (\<lambda>i. queued (linkAt s i)) is = map (\<lambda>i. queued (linkAt sv i)) is" by (simp add: s)
  moreover have "\<forall>j\<in>set is. cancelled (linkAt s j)" using Cons.prems(2) by (simp add: s)
  ultimately show ?case using Cons.IH [of s] Cons.prems(1) by (simp add: e cong: map_cong)
qed simp

end
