(* ===== verification/Peer_Members.thy ===== *)
theory Peer_Members
  imports Peer_Links
begin

text \<open>
  Membership: which addresses a node knows, how it learned of them, and when it forgets them
  (\<^verbatim>\<open>src/internal/peer/service.go\<close>, \<^verbatim>\<open>forget.go\<close>).  A dial loop is an entry of \<open>activeDial\<close>; the
  entry goes when the loop ends.
\<close>


section \<open>What is known of an address\<close>

definition recordPeerMeta :: "time \<Rightarrow> bytes \<Rightarrow> PeerSource \<Rightarrow> service \<Rightarrow> service" where
  "recordPeerMeta now addr src sv =
     (let key = NormalizePeerAddr addr
      in case mapGet (peerMetas sv) key of
           Some m \<Rightarrow>
             if \<not> forgettable src then sv\<lparr>peerMetas := mapPut key (m\<lparr>metaSource := src\<rparr>) (peerMetas sv)\<rparr> else sv
         | None \<Rightarrow>
             sv\<lparr>peerMetas := mapPut key \<lparr>metaAddr = addr, metaSource = src, metaAdded = timeToUnixMilli now, metaLastOK = 0\<rparr>
                  (peerMetas sv)\<rparr>)"

definition markPeerReachable :: "time \<Rightarrow> bytes \<Rightarrow> service \<Rightarrow> service" where
  "markPeerReachable now addr sv =
     (let key = NormalizePeerAddr addr
      in case mapGet (peerMetas sv) key of
           Some m \<Rightarrow> sv\<lparr>peerMetas := mapPut key (m\<lparr>metaLastOK := timeToUnixMilli now\<rparr>) (peerMetas sv)\<rparr>
         | None \<Rightarrow> sv)"

definition PeerSourceOf :: "bytes \<Rightarrow> service \<Rightarrow> PeerSource option" where
  "PeerSourceOf addr sv = map_option metaSource (mapGet (peerMetas sv) (NormalizePeerAddr addr))"

definition NoteConfigPeers :: "time \<Rightarrow> bytes list \<Rightarrow> service \<Rightarrow> service" where
  "NoteConfigPeers now addrs sv =
     fold (\<lambda>a sv. let a = trimSpace a in if a = [] then sv else recordPeerMeta now a SourceConfig sv) addrs sv"


section \<open>Adding and removing\<close>

datatype peer_error = InvalidAddr peer_addr_error | IsThisNode | AlreadyConfigured | NotRunning

definition ensureDial :: "bytes \<Rightarrow> service \<Rightarrow> peer_error option \<times> service" where
  "ensureDial addr sv =
     (let addr = trimSpace addr
      in if addr = [] then (None, sv)
         else case activeDial sv of
                None \<Rightarrow> (Some NotRunning, sv)
              | Some d \<Rightarrow>
                  if mapGet d addr \<noteq> None then (None, sv)
                  else (None, sv\<lparr>activeDial := Some (mapPut addr False d)\<rparr>))"

text \<open>The end of a dial loop removes its entry.\<close>

definition dialLoopEnds :: "bytes \<Rightarrow> service \<Rightarrow> service" where
  "dialLoopEnds addr sv = sv\<lparr>activeDial := map_option (mapDel addr) (activeDial sv)\<rparr>"

definition SyncPeersFromConfig :: "bytes list \<Rightarrow> service \<Rightarrow> service" where
  "SyncPeersFromConfig peers sv = fold (\<lambda>p sv. snd (ensureDial (trimSpace p) sv)) peers sv"

definition AddPeerFrom :: "time \<Rightarrow> bytes \<Rightarrow> PeerSource \<Rightarrow> service \<Rightarrow> peer_error option \<times> service" where
  "AddPeerFrom now addr src sv =
     (let addr = trimSpace addr
      in case ValidatePeerAddr addr of
           Some err \<Rightarrow> (Some (InvalidAddr err), sv)
         | None \<Rightarrow>
             if isSelf [] addr sv then (Some IsThisNode, sv)
             else let want = NormalizePeerAddr addr; cfg = svCfg sv
                  in if \<exists>p\<in>set (Peers cfg). p = addr \<or> NormalizePeerAddr p = want then (Some AlreadyConfigured, sv)
                     else ensureDial addr
                            (recordPeerMeta now addr src (sv\<lparr>svCfg := cfg\<lparr>Peers := Peers cfg @ [addr]\<rparr>\<rparr>)))"

definition AddPeer :: "time \<Rightarrow> bytes \<Rightarrow> service \<Rightarrow> peer_error option \<times> service" where
  "AddPeer now addr sv = AddPeerFrom now addr SourceManual sv"

definition RemovePeer :: "bytes \<Rightarrow> service \<Rightarrow> service" where
  "RemovePeer addr sv =
     (let addr = trimSpace addr;
          cancel = (\<lambda>d. if mapGet d addr = None then d else mapPut addr True d);
          cfg = svCfg sv
      in sv\<lparr>activeDial := map_option cancel (activeDial sv), svCfg := cfg\<lparr>Peers := filter (\<lambda>p. p \<noteq> addr) (Peers cfg)\<rparr>\<rparr>)"


section \<open>Forgetting\<close>

definition connectedAddrs :: "service \<Rightarrow> bytes list" where
  "connectedAddrs sv = map (\<lambda>i. NormalizePeerAddr (opAddr (linkAt sv i))) (out sv)"

fun forgetLoop ::
  "(peerMeta \<Rightarrow> bool \<Rightarrow> bool) \<Rightarrow> bytes list \<Rightarrow> bytes list \<Rightarrow> nat \<Rightarrow> (bytes, peerMeta) gomap \<Rightarrow> bytes list \<times> (bytes, peerMeta) gomap" where
  "forgetLoop want connected [] remaining metas = ([], metas)"
| "forgetLoop want connected (addr # known) remaining metas =
     (if remaining \<le> 1 then ([], metas)
      else let key = NormalizePeerAddr addr
           in case mapGet metas key of
                None \<Rightarrow> forgetLoop want connected known remaining metas
              | Some m \<Rightarrow>
                  if \<not> forgettable (metaSource m) \<or> \<not> want m (key \<in> set connected)
                  then forgetLoop want connected known remaining metas
                  else case forgetLoop want connected known (remaining - 1) (mapDel key metas) of
                         (gone, metas) \<Rightarrow> (addr # gone, metas))"

definition forgetCandidates :: "(peerMeta \<Rightarrow> bool \<Rightarrow> bool) \<Rightarrow> service \<Rightarrow> bytes list \<times> service" where
  "forgetCandidates want sv =
     (let known = ConfigPeerAddrs sv
      in case forgetLoop want (connectedAddrs sv) known (length known) (peerMetas sv) of
           (gone, metas) \<Rightarrow> (gone, sv\<lparr>peerMetas := metas\<rparr>))"

text \<open>Forgetting the candidates and removing them.\<close>

definition forgetPeers :: "(peerMeta \<Rightarrow> bool \<Rightarrow> bool) \<Rightarrow> service \<Rightarrow> bytes list \<times> service" where
  "forgetPeers want sv = (case forgetCandidates want sv of (gone, sv) \<Rightarrow> (gone, fold RemovePeer gone sv))"

definition ForgetUnreachablePeers :: "time \<Rightarrow> int \<Rightarrow> service \<Rightarrow> bytes list \<times> service" where
  "ForgetUnreachablePeers now after sv =
     (if after \<le> 0 then ([], sv)
      else let cutoff = timeToUnixMilli (timeAdd now (- after))
           in forgetPeers
                (\<lambda>m connected. \<not> connected \<and> (if metaLastOK m = 0 then metaAdded m else metaLastOK m) < cutoff) sv)"

definition ForgetPeersMissingFrom :: "bytes list \<Rightarrow> service \<Rightarrow> bytes list \<times> service" where
  "ForgetPeersMissingFrom listed sv =
     (let present = map NormalizePeerAddr (filter (\<lambda>a. a \<noteq> []) (map trimSpace listed))
      in forgetPeers
           (\<lambda>m connected. \<not> connected \<and> metaSource m = SourceDiscovery \<and> NormalizePeerAddr (metaAddr m) \<notin> set present) sv)"

text \<open>\<open>handleLeave\<close> after its payload has been decoded.\<close>

definition leaveOf :: "bytes \<Rightarrow> bytes \<Rightarrow> bytes \<Rightarrow> service \<Rightarrow> service" where
  "leaveOf nodeID advertise connAddr sv =
     (let addr = trimSpace advertise; addr = (if addr = [] then trimSpace connAddr else addr)
      in if addr = [] \<or> isSelf (trimSpace nodeID) addr sv then sv
         else snd (forgetPeers (\<lambda>m _. NormalizePeerAddr (metaAddr m) = NormalizePeerAddr addr) sv))"


section \<open>Learning\<close>

definition IsUnspecified :: "nat list \<Rightarrow> bool" where
  "IsUnspecified ip = (case To4 ip of Some v4 \<Rightarrow> v4 = [0, 0, 0, 0] | None \<Rightarrow> ip = replicate 16 0)"

definition fallbackAdvertiseAddr :: "bytes \<Rightarrow> service \<Rightarrow> bytes" where
  "fallbackAdvertiseAddr remoteAddr sv =
     (case SplitHostPort (trimSpace remoteAddr) of
        Inl _ \<Rightarrow> []
      | Inr (host, _) \<Rightarrow>
          (case ParseIP host of
             None \<Rightarrow> []
           | Some ip \<Rightarrow>
               if IsLoopback ip \<or> IsUnspecified ip then [] else JoinHostPort host (formatInt (PeerPort (svCfg sv)))))"

definition learnPeerFromInbound :: "time \<Rightarrow> peerIdentity \<Rightarrow> bytes \<Rightarrow> service \<Rightarrow> service" where
  "learnPeerFromInbound now pid remoteAddr sv =
     (if \<not> AutoDiscoverPeersEnabled (svCfg sv) then sv
      else let addr = trimSpace (idAdvertise pid);
               addr = (if addr = [] then fallbackAdvertiseAddr remoteAddr sv else addr)
           in if addr = [] \<or> isSelf (idNodeID pid) addr sv then sv
              else snd (AddPeerFrom now addr SourceLearned sv))"

text \<open>The addresses of a peer announcement.\<close>

definition learnAnnounced :: "time \<Rightarrow> bytes list \<Rightarrow> service \<Rightarrow> service" where
  "learnAnnounced now peers sv = fold (\<lambda>p sv. snd (AddPeerFrom now p SourceLearned sv)) peers sv"



section \<open>What every change of the membership keeps\<close>

text \<open>An address the operator asked for: it is configured, and nothing says that it was discovered or
  learned.\<close>

definition operatorPeer :: "bytes \<Rightarrow> service \<Rightarrow> bool" where
  "operatorPeer p sv \<longleftrightarrow>
     p \<in> set (Peers (svCfg sv)) \<and>
     (\<forall>m. mapGet (peerMetas sv) (NormalizePeerAddr p) = Some m \<longrightarrow> \<not> forgettable (metaSource m))"

abbreviation peerKeys :: "service \<Rightarrow> bytes list" where
  "peerKeys sv \<equiv> map NormalizePeerAddr (Peers (svCfg sv))"

text \<open>A change in which the operator removes the addresses of \<open>gone\<close>.\<close>

definition keepsBut :: "bytes set \<Rightarrow> service \<Rightarrow> service \<Rightarrow> bool" where
  "keepsBut gone sv sv' \<longleftrightarrow>
     (\<forall>p. operatorPeer p sv \<longrightarrow> p \<notin> gone \<longrightarrow> operatorPeer p sv') \<and>
     (distinct (peerKeys sv) \<longrightarrow>
        distinct (peerKeys sv') \<and> (gone = {} \<longrightarrow> Peers (svCfg sv) \<noteq> [] \<longrightarrow> Peers (svCfg sv') \<noteq> [])) \<and>
     (\<forall>p\<in>set (Peers (svCfg sv')). p \<in> set (Peers (svCfg sv)) \<or> \<not> isSelf [] p sv) \<and>
     advertiseAddr sv' = advertiseAddr sv \<and> svNodeID sv' = svNodeID sv"

abbreviation keepsMembers :: "service \<Rightarrow> service \<Rightarrow> bool" where
  "keepsMembers \<equiv> keepsBut {}"

lemma keepsMembers_refl [simp]: "keepsMembers sv sv"
  by (simp add: keepsBut_def)

lemma isSelf_cong: "advertiseAddr sv' = advertiseAddr sv \<Longrightarrow> svNodeID sv' = svNodeID sv \<Longrightarrow> isSelf n a sv' = isSelf n a sv"
  by (simp add: isSelf_def svAdvertise_def)

lemma keepsBut_trans: "keepsBut A a b \<Longrightarrow> keepsBut B b c \<Longrightarrow> keepsBut (A \<union> B) a c"
  unfolding keepsBut_def by (auto simp: isSelf_cong [of b a])

lemma keepsMembers_trans: "keepsMembers a b \<Longrightarrow> keepsMembers b c \<Longrightarrow> keepsMembers a c"
  using keepsBut_trans [of "{}" a b "{}" c] by simp

lemma keepsMembers_fold:
  assumes "\<And>x sv. keepsMembers sv (f x sv)"
  shows "keepsMembers sv (fold f xs sv)"
  by (induction xs arbitrary: sv) (auto intro: keepsMembers_trans assms)

text \<open>A change that touches neither the peers nor the records.\<close>

lemma keepsMembers_same:
  "svCfg sv' = svCfg sv \<Longrightarrow> peerMetas sv' = peerMetas sv \<Longrightarrow> advertiseAddr sv' = advertiseAddr sv \<Longrightarrow> svNodeID sv' = svNodeID sv \<Longrightarrow>
   keepsMembers sv sv'"
  by (simp add: keepsBut_def operatorPeer_def)

lemma recordPeerMeta_fields [simp]:
  "svCfg (recordPeerMeta now a src sv) = svCfg sv" "advertiseAddr (recordPeerMeta now a src sv) = advertiseAddr sv"
  "svNodeID (recordPeerMeta now a src sv) = svNodeID sv"
  by (auto simp: recordPeerMeta_def Let_def split: option.split)

lemma recordPeerMeta_keeps: "\<not> forgettable src \<Longrightarrow> keepsMembers sv (recordPeerMeta now a src sv)"
  by (auto simp: keepsBut_def operatorPeer_def) (auto simp: recordPeerMeta_def Let_def split: option.splits if_splits)

lemma NoteConfigPeers_keeps: "keepsMembers sv (NoteConfigPeers now addrs sv)"
  unfolding NoteConfigPeers_def by (rule keepsMembers_fold) (simp add: Let_def recordPeerMeta_keeps forgettable_def)

lemma markPeerReachable_keeps: "keepsMembers sv (markPeerReachable now a sv)"
  by (auto simp: keepsBut_def operatorPeer_def markPeerReachable_def Let_def split: option.splits if_splits)

lemma ensureDial_keeps: "keepsMembers sv (snd (ensureDial a sv))"
  by (rule keepsMembers_same) (auto simp: ensureDial_def Let_def split: option.split)

lemma AddPeerFrom_keeps: "keepsMembers sv (snd (AddPeerFrom now addr src sv))"
proof -
  define a where "a = trimSpace addr"
  define sv1 where "sv1 = recordPeerMeta now a src (sv\<lparr>svCfg := (svCfg sv)\<lparr>Peers := Peers (svCfg sv) @ [a]\<rparr>\<rparr>)"
  have "keepsMembers sv sv1" if "\<not> isSelf [] a sv" and new: "\<forall>p\<in>set (Peers (svCfg sv)). NormalizePeerAddr p \<noteq> NormalizePeerAddr a"
  proof -
    have "mapGet (peerMetas sv1) k = mapGet (peerMetas sv) k" if "k \<noteq> NormalizePeerAddr a" for k
      using that by (simp add: sv1_def recordPeerMeta_def Let_def split: option.split)
    with that new show ?thesis by (auto simp: keepsBut_def operatorPeer_def sv1_def)
  qed
  then show ?thesis
    using keepsMembers_trans [OF _ ensureDial_keeps, of sv sv1 a]
    by (auto simp: AddPeerFrom_def a_def [symmetric] sv1_def [symmetric] Let_def split: option.split)
qed


lemma NormalizePeerAddr_trim [simp]: "NormalizePeerAddr (trimSpace a) = NormalizePeerAddr a"
  by (simp add: NormalizePeerAddr_def)

lemma forgetLoop_spec:
  "forgetLoop want connected known remaining metas = (gone, metas') \<Longrightarrow> mapOk metas \<Longrightarrow>
   mapOk metas' \<and> set gone \<subseteq> set known \<and> length gone \<le> remaining - 1 \<and>
   (\<forall>a\<in>set gone. \<exists>m. mapGet metas (NormalizePeerAddr a) = Some m \<and> forgettable (metaSource m) \<and>
      want m (NormalizePeerAddr a \<in> set connected)) \<and>
   (\<forall>k. mapGet metas' k = mapGet metas k \<or>
      mapGet metas' k = None \<and> (\<exists>m. mapGet metas k = Some m \<and> forgettable (metaSource m)))"
proof (induction want connected known remaining metas arbitrary: gone metas' rule: forgetLoop.induct)
  case (2 want connected addr known remaining metas)
  show ?case
  proof (cases "remaining \<le> 1")
    case False
    show ?thesis
    proof (cases "mapGet metas (NormalizePeerAddr addr)")
      case None
      with "2.IH"(1) [OF False refl None, of gone metas'] "2.prems" False show ?thesis by auto
    next
      case (Some m)
      show ?thesis
      proof (cases "\<not> forgettable (metaSource m) \<or> \<not> want m (NormalizePeerAddr addr \<in> set connected)")
        case True
        with "2.IH"(2) [OF False refl Some True, of gone metas'] "2.prems" False Some show ?thesis by auto
      next
        case wanted: False
        let ?metas = "mapDel (NormalizePeerAddr addr) metas"
        obtain gone1 where g: "forgetLoop want connected known (remaining - 1) ?metas = (gone1, metas')" "gone = addr # gone1"
          using "2.prems"(1) False Some wanted by (auto simp: Let_def split: prod.splits)
        from "2.IH"(3) [OF False refl Some wanted g(1)] "2.prems"(2)
        have ih: "mapOk metas'" "set gone1 \<subseteq> set known" "length gone1 \<le> remaining - 1 - 1"
          "\<forall>a\<in>set gone1. \<exists>m. mapGet ?metas (NormalizePeerAddr a) = Some m \<and> forgettable (metaSource m) \<and> want m (NormalizePeerAddr a \<in> set connected)"
          "\<And>k. mapGet metas' k = mapGet ?metas k \<or> mapGet metas' k = None \<and> (\<exists>m. mapGet ?metas k = Some m \<and> forgettable (metaSource m))"
          by simp_all
        have "mapGet metas' k = mapGet metas k \<or> mapGet metas' k = None \<and> (\<exists>m. mapGet metas k = Some m \<and> forgettable (metaSource m))" for k
          using ih(5) [of k] Some wanted by (cases "k = NormalizePeerAddr addr") auto
        moreover have "\<exists>m. mapGet metas (NormalizePeerAddr a) = Some m \<and> forgettable (metaSource m) \<and> want m (NormalizePeerAddr a \<in> set connected)"
          if "a \<in> set gone" for a using that ih(4) Some wanted g(2) by (auto split: if_splits)
        ultimately show ?thesis using ih(1,2,3) g(2) False by (simp add: subset_insertI2)
      qed
    qed
  qed (use "2.prems" in auto)
qed auto

lemma RemovePeer_fields [simp]:
  "Peers (svCfg (RemovePeer a sv)) = filter (\<lambda>p. p \<noteq> trimSpace a) (Peers (svCfg sv))" "peerMetas (RemovePeer a sv) = peerMetas sv"
  "advertiseAddr (RemovePeer a sv) = advertiseAddr sv" "svNodeID (RemovePeer a sv) = svNodeID sv"
  by (simp_all add: RemovePeer_def Let_def)

lemma RemovePeer_fold:
  "Peers (svCfg (fold RemovePeer as sv)) = filter (\<lambda>p. p \<notin> trimSpace ` set as) (Peers (svCfg sv)) \<and>
   peerMetas (fold RemovePeer as sv) = peerMetas sv \<and> advertiseAddr (fold RemovePeer as sv) = advertiseAddr sv \<and>
   svNodeID (fold RemovePeer as sv) = svNodeID sv"
  by (induction as arbitrary: sv) (auto intro: filter_cong)

lemma filter_leaves_some:
  assumes "distinct xs" and "length ys < length xs"
  shows "filter (\<lambda>x. x \<notin> f ` set ys) xs \<noteq> []"
proof
  assume "filter (\<lambda>x. x \<notin> f ` set ys) xs = []"
  then have "set xs \<subseteq> f ` set ys" by (auto simp: filter_empty_conv)
  then have "card (set xs) \<le> card (f ` set ys)" by (rule card_mono [rotated]) simp
  also have "\<dots> \<le> length ys" using card_image_le [of "set ys" f] card_length [of ys] by simp
  finally show False using assms by (simp add: distinct_card)
qed

text \<open>The records have one entry per address.\<close>

definition metasOk :: "service \<Rightarrow> bool" where
  "metasOk sv \<longleftrightarrow> mapOk (peerMetas sv)"

lemma forgetPeers_keeps:
  assumes "metasOk sv"
  shows "keepsMembers sv (snd (forgetPeers want sv))" and "metasOk (snd (forgetPeers want sv))"
proof -
  let ?known = "Peers (svCfg sv)"
  obtain gone metas where f: "forgetLoop want (connectedAddrs sv) ?known (length ?known) (peerMetas sv) = (gone, metas)" by fastforce
  from forgetLoop_spec [OF f] assms have g: "mapOk metas" "length gone \<le> length ?known - 1"
    "\<And>a. a \<in> set gone \<Longrightarrow> \<exists>m. mapGet (peerMetas sv) (NormalizePeerAddr a) = Some m \<and> forgettable (metaSource m)"
    "\<And>k. mapGet metas k = mapGet (peerMetas sv) k \<or> mapGet metas k = None \<and> (\<exists>m. mapGet (peerMetas sv) k = Some m \<and> forgettable (metaSource m))"
    by (auto simp: metasOk_def)
  define sv' where "sv' = fold RemovePeer gone (sv\<lparr>peerMetas := metas\<rparr>)"
  have sv': "snd (forgetPeers want sv) = sv'" by (simp add: forgetPeers_def forgetCandidates_def ConfigPeerAddrs_def f sv'_def)
  from RemovePeer_fold [of gone "sv\<lparr>peerMetas := metas\<rparr>"]
  have r: "Peers (svCfg sv') = filter (\<lambda>p. p \<notin> trimSpace ` set gone) ?known" "peerMetas sv' = metas"
    "advertiseAddr sv' = advertiseAddr sv" "svNodeID sv' = svNodeID sv" by (simp_all add: sv'_def)
  have op: "operatorPeer p sv'" if "operatorPeer p sv" for p
  proof -
    have "p \<notin> trimSpace ` set gone"
    proof
      assume "p \<in> trimSpace ` set gone"
      then obtain a where "a \<in> set gone" "p = trimSpace a" by blast
      with g(3) [of a] that show False by (auto simp: operatorPeer_def)
    qed
    with that g(4) [of "NormalizePeerAddr p"] show ?thesis by (auto simp: operatorPeer_def r)
  qed
  moreover have "Peers (svCfg sv') \<noteq> []" if "distinct (peerKeys sv)" "?known \<noteq> []"
  proof -
    have "length gone < length ?known" using that(2) g(2) by (cases ?known) auto
    with that(1) show ?thesis unfolding r by (intro filter_leaves_some) (simp_all add: distinct_map)
  qed
  ultimately show "keepsMembers sv (snd (forgetPeers want sv))"
    by (auto simp: sv' keepsBut_def r distinct_map_filter)
  show "metasOk (snd (forgetPeers want sv))" by (simp add: sv' metasOk_def r g)
qed



section \<open>Histories of the membership\<close>

text \<open>What changes the membership: connections and announcements, listings of a discovery provider,
  departures and the passing of time, the life of links and dial loops, and the operator, who adds and
  removes peers.  A reload of the configuration, which replaces all of it, is not an event.\<close>

datatype member_event =
  Learned time peerIdentity bytes
| Announced time "bytes list"
| Discovered time bytes
| Listed "bytes list"
| Reached time bytes
| Unreachable time int
| Leaving bytes bytes bytes
| FromFile time "bytes list"
| DialEnded bytes
| LinkEvent link_op
| Added time bytes
| Removed bytes

fun memberStep :: "member_event \<Rightarrow> service \<Rightarrow> service" where
  "memberStep (Learned now pid remote) sv = learnPeerFromInbound now pid remote sv"
| "memberStep (Announced now peers) sv = learnAnnounced now peers sv"
| "memberStep (Discovered now addr) sv = snd (AddPeerFrom now addr SourceDiscovery sv)"
| "memberStep (Listed addrs) sv = snd (ForgetPeersMissingFrom addrs sv)"
| "memberStep (Reached now addr) sv = markPeerReachable now addr sv"
| "memberStep (Unreachable now after) sv = snd (ForgetUnreachablePeers now after sv)"
| "memberStep (Leaving n adv conn) sv = leaveOf n adv conn sv"
| "memberStep (FromFile now addrs) sv = NoteConfigPeers now addrs sv"
| "memberStep (DialEnded addr) sv = dialLoopEnds addr sv"
| "memberStep (LinkEvent op) sv = linkStep op sv"
| "memberStep (Added now addr) sv = snd (AddPeer now addr sv)"
| "memberStep (Removed addr) sv = RemovePeer addr sv"

text \<open>The addresses the operator removes.\<close>

fun removals :: "member_event list \<Rightarrow> bytes set" where
  "removals [] = {}"
| "removals (Removed addr # evs) = insert (trimSpace addr) (removals evs)"
| "removals (e # evs) = removals evs"

definition memberRun :: "member_event list \<Rightarrow> service \<Rightarrow> service" where
  "memberRun evs sv = fold memberStep evs sv"

lemma metasOk_record: "metasOk sv \<Longrightarrow> metasOk (recordPeerMeta now a src sv)"
  by (auto simp: metasOk_def recordPeerMeta_def Let_def split: option.split)

lemma metasOk_ensureDial: "metasOk (snd (ensureDial a sv)) = metasOk sv"
  by (auto simp: metasOk_def ensureDial_def Let_def split: option.split)

lemma metasOk_AddPeerFrom: "metasOk sv \<Longrightarrow> metasOk (snd (AddPeerFrom now addr src sv))"
  by (auto simp: AddPeerFrom_def metasOk_ensureDial Let_def split: option.split intro!: metasOk_record) (simp add: metasOk_def)

lemma metasOk_fold:
  assumes "\<And>x sv. metasOk sv \<Longrightarrow> metasOk (f x sv)" and "metasOk sv"
  shows "metasOk (fold f xs sv)"
  using assms(2) by (induction xs arbitrary: sv) (auto intro: assms(1))

text \<open>The links are apart from the membership.\<close>

lemma offer_apart [simp]:
  "svCfg (offer f i sv) = svCfg sv" "peerMetas (offer f i sv) = peerMetas sv" "advertiseAddr (offer f i sv) = advertiseAddr sv"
  "svNodeID (offer f i sv) = svNodeID sv"
  by (auto simp: offer_cases onLink_def onStats_def)

lemma fold_apart:
  assumes "\<And>x sv. g (f x sv) = g sv"
  shows "g (fold f xs sv) = g sv"
  by (induction xs arbitrary: sv) (simp_all add: assms)

lemma linkStep_apart:
  "svCfg (linkStep op sv) = svCfg sv \<and> peerMetas (linkStep op sv) = peerMetas sv \<and> advertiseAddr (linkStep op sv) = advertiseAddr sv \<and>
   svNodeID (linkStep op sv) = svNodeID sv"
proof (cases op)
  case (OpReplicate now p)
  have "svCfg (snd (replicationTargets s)) = svCfg s \<and> peerMetas (snd (replicationTargets s)) = peerMetas s \<and>
    advertiseAddr (snd (replicationTargets s)) = advertiseAddr s" for s
    by (auto simp: replicationTargets_def Let_def split: option.split)
  then show ?thesis
    by (simp add: OpReplicate Replicate_alt fold_apart [where g = svCfg] fold_apart [where g = peerMetas] fold_apart [where g = advertiseAddr]
      fold_apart [where g = svNodeID]) (simp add: buildWireRepl_def Let_def)
next
  case OpCloseAll
  show ?thesis
    by (simp add: OpCloseAll CloseActiveConnections_def fold_apart [where g = svCfg] fold_apart [where g = peerMetas]
      fold_apart [where g = advertiseAddr] fold_apart [where g = svNodeID] cancelSession_def onLink_def)
qed (auto simp: startOutbound_def startInboundReplLink_def registerOut_def endOutbound_def stopInboundReplLink_def unregisterOut_def
  unregisterLink_def markStopped_def cancelSession_def writerTake_def flushOutboundReplLine_def refreshMetrics_def onLink_def onStats_def
  Let_def split: option.split list.split)

lemma memberStep_keeps:
  assumes "metasOk sv"
  shows "keepsBut (removals [e]) sv (memberStep e sv) \<and> metasOk (memberStep e sv)"
proof (cases e)
  case (Removed addr)
  have "keepsBut {trimSpace addr} sv (RemovePeer addr sv)"
    by (auto simp: keepsBut_def operatorPeer_def distinct_map_filter)
  then show ?thesis using assms by (simp add: Removed metasOk_def)
next
  case (Announced now peers)
  have "keepsMembers sv (learnAnnounced now peers sv)" unfolding learnAnnounced_def
    by (rule keepsMembers_fold) (rule AddPeerFrom_keeps)
  moreover have "metasOk (learnAnnounced now peers sv)" unfolding learnAnnounced_def
    by (rule metasOk_fold) (simp_all add: metasOk_AddPeerFrom assms)
  ultimately show ?thesis by (simp add: Announced)
next
  case (FromFile now addrs)
  have "metasOk (NoteConfigPeers now addrs sv)" unfolding NoteConfigPeers_def
    by (rule metasOk_fold) (simp_all add: Let_def metasOk_record assms)
  then show ?thesis by (simp add: FromFile NoteConfigPeers_keeps)
next
  case (LinkEvent op)
  have "keepsMembers sv (linkStep op sv)" by (rule keepsMembers_same) (simp_all add: linkStep_apart)
  then show ?thesis using assms by (simp add: LinkEvent metasOk_def linkStep_apart)
next
  case (DialEnded addr)
  have "keepsMembers sv (dialLoopEnds addr sv)" by (rule keepsMembers_same) (simp_all add: dialLoopEnds_def)
  then show ?thesis using assms by (simp add: DialEnded metasOk_def dialLoopEnds_def)
next
  case (Reached now addr)
  then show ?thesis using assms markPeerReachable_keeps [of sv now addr]
    by (auto simp: metasOk_def markPeerReachable_def Let_def split: option.split)
qed (use assms in \<open>auto simp: learnPeerFromInbound_def ForgetPeersMissingFrom_def ForgetUnreachablePeers_def leaveOf_def AddPeer_def Let_def
  AddPeerFrom_keeps metasOk_AddPeerFrom forgetPeers_keeps\<close>)


lemma removals_Cons: "removals (e # evs) = removals [e] \<union> removals evs"
  by (cases e) simp_all

lemma memberRun_keeps: "metasOk sv \<Longrightarrow> keepsBut (removals evs) sv (memberRun evs sv) \<and> metasOk (memberRun evs sv)"
  unfolding memberRun_def
proof (induction evs arbitrary: sv)
  case (Cons e evs)
  from memberStep_keeps [OF Cons.prems, of e] Cons.IH [of "memberStep e sv"] show ?case
    unfolding removals_Cons [of e evs] by (auto intro: keepsBut_trans)
qed simp





section \<open>Forgetting is exact\<close>

definition forgets :: "(peerMeta \<Rightarrow> bool \<Rightarrow> bool) \<Rightarrow> bytes list \<Rightarrow> (bytes, peerMeta) gomap \<Rightarrow> bytes \<Rightarrow> bool" where
  "forgets want connected metas a \<longleftrightarrow>
     (\<exists>m. mapGet metas (NormalizePeerAddr a) = Some m \<and> forgettable (metaSource m) \<and> want m (NormalizePeerAddr a \<in> set connected))"

lemma forgetLoop_exact:
  "mapOk metas \<Longrightarrow> distinct (map NormalizePeerAddr known) \<Longrightarrow>
   fst (forgetLoop want connected known remaining metas) = take (remaining - 1) (filter (forgets want connected metas) known)"
proof (induction want connected known remaining metas rule: forgetLoop.induct)
  case (2 want connected addr known remaining metas)
  show ?case
  proof (cases "remaining \<le> 1")
    case True
    then show ?thesis by simp
  next
    case False
    show ?thesis
    proof (cases "forgets want connected metas addr")
      case no: False
      show ?thesis
      proof (cases "mapGet metas (NormalizePeerAddr addr)")
        case None
        with no "2.IH"(1) [OF False refl None] "2.prems" False show ?thesis by simp
      next
        case (Some m)
        from no Some have w: "\<not> forgettable (metaSource m) \<or> \<not> want m (NormalizePeerAddr addr \<in> set connected)" by (auto simp: forgets_def)
        with no "2.IH"(2) [OF False refl Some w] "2.prems" False Some show ?thesis by auto
      qed
    next
      case yes: True
      then obtain m where m: "mapGet metas (NormalizePeerAddr addr) = Some m" "forgettable (metaSource m)" "want m (NormalizePeerAddr addr \<in> set connected)"
        by (auto simp: forgets_def)
      have same: "filter (forgets want connected (mapDel (NormalizePeerAddr addr) metas)) known = filter (forgets want connected metas) known"
      proof (rule filter_cong)
        fix x assume "x \<in> set known"
        then have "NormalizePeerAddr x \<in> NormalizePeerAddr ` set known" by (rule imageI)
        then have "NormalizePeerAddr x \<noteq> NormalizePeerAddr addr" using "2.prems"(2) by auto
        then show "forgets want connected (mapDel (NormalizePeerAddr addr) metas) x = forgets want connected metas x" by (simp add: forgets_def)
      qed simp
      have "take (remaining - 1) (addr # xs) = addr # take (remaining - 1 - 1) xs" for xs
        using False by (cases "remaining - 1") simp_all
      with "2.IH"(3) [OF False refl m(1)] m "2.prems" yes same False show ?thesis by (auto split: prod.split)
    qed
  qed
qed simp

text \<open>An address is stale when it was learned or discovered, no link reaches it, and the last completed
  handshake, or when there was none its addition, lies before the cutoff.\<close>

definition stale :: "time \<Rightarrow> int \<Rightarrow> service \<Rightarrow> bytes \<Rightarrow> bool" where
  "stale now after sv a \<longleftrightarrow>
     (\<exists>m. mapGet (peerMetas sv) (NormalizePeerAddr a) = Some m \<and> forgettable (metaSource m) \<and>
        NormalizePeerAddr a \<notin> set (connectedAddrs sv) \<and>
        (if metaLastOK m = 0 then metaAdded m else metaLastOK m) < timeToUnixMilli (now - after))"

lemma last_of_distinct: "distinct xs \<Longrightarrow> filter (\<lambda>x. x \<notin> set (butlast xs)) xs = drop (length xs - 1) xs"
  by (cases xs rule: rev_cases) (auto simp: filter_empty_conv)

text \<open>C29. The reaper removes the stale peers and no others.  When every peer is stale it still leaves
  one, the last of the configured ones.\<close>

theorem forgets_exactly_the_stale:
  assumes "metasOk sv" and "distinct (peerKeys sv)" and "\<forall>p\<in>set (Peers (svCfg sv)). trimSpace p = p" and "0 < after"
    and "ps = Peers (svCfg sv)" and "ForgetUnreachablePeers now after sv = (gone, sv')"
  shows "gone = (if \<forall>p\<in>set ps. stale now after sv p then butlast ps else filter (stale now after sv) ps) \<and>
    Peers (svCfg sv') = (if \<forall>p\<in>set ps. stale now after sv p then drop (length ps - 1) ps else filter (\<lambda>p. \<not> stale now after sv p) ps)"
proof -
  define want :: "peerMeta \<Rightarrow> bool \<Rightarrow> bool" where "want = (\<lambda>m connected. \<not> connected \<and> (if metaLastOK m = 0 then metaAdded m else metaLastOK m) < timeToUnixMilli (now - after))"
  have st: "forgets want (connectedAddrs sv) (peerMetas sv) = stale now after sv"
    by (auto simp: fun_eq_iff forgets_def stale_def want_def)
  obtain g metas where f: "forgetLoop want (connectedAddrs sv) ps (length ps) (peerMetas sv) = (g, metas)" by fastforce
  have u: "gone = g" "sv' = fold RemovePeer g (sv\<lparr>peerMetas := metas\<rparr>)"
    using assms(4-6) f
    by (auto simp: ForgetUnreachablePeers_def forgetPeers_def forgetCandidates_def ConfigPeerAddrs_def timeAdd_def want_def [symmetric])
  have g: "gone = take (length ps - 1) (filter (stale now after sv) ps)"
    using forgetLoop_exact [of "peerMetas sv" ps want "connectedAddrs sv" "length ps"] assms(1,2,5) f st u by (simp add: metasOk_def)
  have "set gone \<subseteq> set ps" by (auto simp: g dest: in_set_takeD)
  then have "trimSpace ` set gone = (\<lambda>a. a) ` set gone" using assms(3,5) by (intro image_cong) auto
  then have "trimSpace ` set gone = set gone" by simp
  then have left: "Peers (svCfg sv') = filter (\<lambda>p. p \<notin> set gone) ps"
    using RemovePeer_fold [of g "sv\<lparr>peerMetas := metas\<rparr>"] assms(5) u by simp
  show ?thesis
  proof (cases "\<forall>p\<in>set ps. stale now after sv p")
    case True
    then have b: "gone = butlast ps" by (simp add: g butlast_conv_take)
    have "distinct ps" using assms(2,5) by (simp add: distinct_map)
    from last_of_distinct [OF this] True left b show ?thesis by simp
  next
    case False
    then have "length (filter (stale now after sv) ps) < length ps" by (meson length_filter_less)
    then have "gone = filter (stale now after sv) ps" by (simp add: g)
    with left False show ?thesis by (auto intro: filter_cong)
  qed
qed


definition learnedMeta :: peerMeta where
  "learnedMeta = \<lparr>metaAddr = ''c:1'', metaSource = SourceLearned, metaAdded = 0, metaLastOK = 0\<rparr>"

definition withStale :: service where
  "withStale = (NewService (zeroConfig\<lparr>Peers := [''b:1'', ''c:1'']\<rparr>) freshStore (newStats 0 ''a'' 6379) ''a'')\<lparr>peerMetas := [(''c:1'', learnedMeta)]\<rparr>"

lemma sample_trim: "trimSpace ''b:1'' = ''b:1''" "trimSpace ''c:1'' = ''c:1''"
  by (rule trimSpace_graph; simp add: is_graph_def)+

lemma sample_parts:
  "SplitHostPort ''b:1'' = Inr (''b'', ''1'')" "SplitHostPort ''c:1'' = Inr (''c'', ''1'')" "ParseIP ''b'' = None" "ParseIP ''c'' = None"
  "toLowerChar CHR ''b'' = CHR ''b''" "toLowerChar CHR ''c'' = CHR ''c''" "JoinHostPort ''b'' ''1'' = ''b:1''" "JoinHostPort ''c'' ''1'' = ''c:1''"
  "formatInt 1 = ''1''"
  by code_simp+

lemma sample_addrs:
  "NormalizePeerAddr ''b:1'' = ''b:1''" "NormalizePeerAddr ''c:1'' = ''c:1''" "trimSpace ''b:1'' = ''b:1''" "trimSpace ''c:1'' = ''c:1''"
  "ValidatePeerAddr ''b:1'' = None"
  using parseInt_formatInt [of 1] by (simp_all add: NormalizePeerAddr_def ValidatePeerAddr_def sample_trim sample_parts int64_defs)

text \<open>One peer of two is stale; the only peer is stale.\<close>

theorem forgets_exactly_the_stale_witness:
  "Peers (svCfg (snd (ForgetUnreachablePeers 9000000000000 3600000000000 withStale))) = [''b:1''] \<and>
   Peers (svCfg (snd (ForgetUnreachablePeers 9000000000000 3600000000000 (RemovePeer ''b:1'' withStale)))) = [''c:1'']"
proof -
  let ?one = "RemovePeer ''b:1'' withStale"
  have b: "\<not> stale 9000000000000 3600000000000 withStale ''b:1''"
    by (simp add: stale_def withStale_def sample_addrs)
  have c: "stale 9000000000000 3600000000000 withStale ''c:1''" "stale 9000000000000 3600000000000 ?one ''c:1''"
    by (simp_all add: stale_def withStale_def sample_addrs learnedMeta_def forgettable_def connectedAddrs_def NewService_def RemovePeer_def
      Let_def linkAt_def time_defs wrap64_id int64_defs)
  have p: "metasOk withStale" "Peers (svCfg withStale) = [''b:1'', ''c:1'']" "metasOk ?one" "Peers (svCfg ?one) = [''c:1'']"
    by (simp_all add: withStale_def metasOk_def NewService_def sample_addrs)
  from forgets_exactly_the_stale [OF _ _ _ _ refl surjective_pairing, of withStale 3600000000000 9000000000000] b c p
  have "Peers (svCfg (snd (ForgetUnreachablePeers 9000000000000 3600000000000 withStale))) = [''b:1'']" by (simp add: sample_addrs)
  moreover from forgets_exactly_the_stale [OF _ _ _ _ refl surjective_pairing, of ?one 3600000000000 9000000000000] c p
  have "Peers (svCfg (snd (ForgetUnreachablePeers 9000000000000 3600000000000 ?one))) = [''c:1'']" by (simp add: sample_addrs)
  ultimately show ?thesis by simp
qed


section \<open>Two ways in which the source of an address goes wrong\<close>

text \<open>Every address the configuration names at the start is noted as the operator's, also one that came
  from the file of learned peers.\<close>

lemma NoteConfigPeers_source:
  "a \<in> set addrs \<Longrightarrow> trimSpace a \<noteq> [] \<Longrightarrow> PeerSourceOf a (NoteConfigPeers now addrs sv) = Some SourceConfig"
proof (induction addrs arbitrary: sv rule: rev_induct)
  case (snoc b addrs)
  let ?sv = "NoteConfigPeers now addrs sv"
  have step: "NoteConfigPeers now (addrs @ [b]) sv = (if trimSpace b = [] then ?sv else recordPeerMeta now (trimSpace b) SourceConfig ?sv)"
    by (simp add: NoteConfigPeers_def Let_def)
  have "PeerSourceOf a (recordPeerMeta now x SourceConfig s) = (if NormalizePeerAddr a = NormalizePeerAddr x then Some SourceConfig else PeerSourceOf a s)" for x s
    by (auto simp: PeerSourceOf_def recordPeerMeta_def forgettable_def Let_def split: option.split)
  with snoc step show ?case by auto
qed simp

lemma state_file_peers_stay:
  assumes "metasOk sv" and "a \<in> set addrs" and "trimSpace a \<noteq> []" and "a \<in> set (Peers (svCfg sv))"
    and "a \<notin> removals evs"
  shows "a \<in> set (Peers (svCfg (memberRun (FromFile now addrs # evs) sv)))"
proof -
  let ?sv = "NoteConfigPeers now addrs sv"
  have k: "keepsMembers sv ?sv \<and> metasOk ?sv" using memberStep_keeps [OF assms(1), of "FromFile now addrs"] by simp
  have same: "Peers (svCfg ?sv) = Peers (svCfg sv)"
    unfolding NoteConfigPeers_def by (rule fold_apart) (simp add: Let_def)
  have "operatorPeer a ?sv"
    using NoteConfigPeers_source [OF assms(2,3), of now sv] assms(4)
    by (auto simp: operatorPeer_def same PeerSourceOf_def forgettable_def)
  with memberRun_keeps [of ?sv evs] k assms(5) have "operatorPeer a (memberRun evs ?sv)" by (simp add: keepsBut_def)
  then show ?thesis by (simp add: operatorPeer_def memberRun_def)
qed

text \<open>C32. A peer that is removed and added again is not dialled.  The removal cancels the dial loop, whose entry stays until the loop
  has ended; adding the address in between finds the entry and starts no loop, and then the entry
  goes.  The peer is configured, and nothing connects to it.\<close>

theorem readded_peer_not_dialled:
  assumes "activeDial sv = Some d" and "mapGet d a \<noteq> None" and "mapOk d" and "trimSpace a = a" and "a \<in> set (Peers (svCfg sv))"
    and "ValidatePeerAddr a = None" and "\<not> isSelf [] a sv" and "distinct (peerKeys sv)"
    and "sv' = snd (AddPeer now a (RemovePeer a sv))"
  shows "fst (AddPeer now a (RemovePeer a sv)) = None \<and> a \<in> set (Peers (svCfg (dialLoopEnds a sv'))) \<and>
    (\<exists>d'. activeDial (dialLoopEnds a sv') = Some d' \<and> mapGet d' a = None)"
proof -
  let ?sv = "RemovePeer a sv"
  have v: "a \<noteq> []"
  proof
    assume "a = []"
    with assms(6) have "ValidatePeerAddr [] = None" by simp
    then show False by (simp add: ValidatePeerAddr_def SplitHostPort_def splitAtLast_def)
  qed
  have "isSelf [] a ?sv = isSelf [] a sv" by (rule isSelf_cong) simp_all
  moreover have "\<not> (\<exists>p\<in>set (Peers (svCfg ?sv)). p = a \<or> NormalizePeerAddr p = NormalizePeerAddr a)"
    using assms(4,5,8) by (auto simp: distinct_map inj_on_def)
  moreover define sv1 where "sv1 = recordPeerMeta now a SourceManual (?sv\<lparr>svCfg := (svCfg ?sv)\<lparr>Peers := Peers (svCfg ?sv) @ [a]\<rparr>\<rparr>)"
  ultimately have add: "AddPeer now a ?sv = ensureDial a sv1"
    using assms(4,6,7) by (auto simp: AddPeer_def AddPeerFrom_def Let_def)
  have d1: "activeDial sv1 = Some (mapPut a True d)"
    using assms(1,2,4) by (auto simp: sv1_def recordPeerMeta_def RemovePeer_def Let_def split: option.split)
  then have "ensureDial a sv1 = (None, sv1)" using assms(4) v by (simp add: ensureDial_def)
  with add d1 assms(3,9) show ?thesis by (simp add: dialLoopEnds_def sv1_def)
qed

theorem readded_peer_not_dialled_witness:
  "\<exists>sv. activeDial sv = Some [(''b:1'', False)] \<and> ''b:1'' \<in> set (Peers (svCfg (dialLoopEnds ''b:1'' (snd (AddPeer 0 ''b:1'' (RemovePeer ''b:1'' sv)))))) \<and>
     mapGet (the (activeDial (dialLoopEnds ''b:1'' (snd (AddPeer 0 ''b:1'' (RemovePeer ''b:1'' sv)))))) ''b:1'' = None"
proof -
  define sv where "sv = withStale\<lparr>activeDial := Some [(''b:1'', False)]\<rparr>"
  have f: "activeDial sv = Some [(''b:1'', False)]" "''b:1'' \<in> set (Peers (svCfg sv))" "\<not> isSelf [] ''b:1'' sv" "distinct (peerKeys sv)"
    by (simp_all add: sv_def withStale_def NewService_def isSelf_def svAdvertise_def sample_addrs)
  from readded_peer_not_dialled [OF f(1) _ _ sample_addrs(3) f(2) sample_addrs(5) f(3,4) refl, of 0] f(1)
  show ?thesis by (intro exI [of _ sv]) auto
qed

end
