(* ===== verification/Spec2Isabelle.thy ===== *)
theory Spec2Isabelle
  imports Server_Safety Store_Spec Peer_Inbound Peer_Members
begin

text \<open>
  \<^bold>\<open>Super-Cache: a verification development.\<close>

  Super-Cache is an in-memory cache that speaks RESP2 and replicates every write to its peers.  A
  client connection (\<^verbatim>\<open>src/internal/server/conn.go\<close>) parses requests (\<^verbatim>\<open>src/internal/resp\<close>) and dispatches them to
  command handlers (\<^verbatim>\<open>src/internal/commands\<close>), which act on a sharded store (\<^verbatim>\<open>src/internal/store\<close>), on the
  session and on the subscriptions (\<^verbatim>\<open>src/internal/client\<close>).  A handler hands a write to the peer service
  (\<^verbatim>\<open>src/internal/peer\<close>), which queues it on one link to each node; the receiving node notes its sequence number,
  routes it to a worker and applies it to its own store.  The settings are those of \<^verbatim>\<open>src/internal/config\<close>.

  \<^bold>\<open>Go.\<close>  \<open>Go_Prelude\<close>, \<open>Go_Strings\<close>, \<open>Go_Glob\<close> and \<open>Go_Net\<close> model what the program uses of the language and its library:
  byte strings (\<open>bytes\<close>), 64-bit integers as \<open>int\<close> with the wrap-around written out (\<open>wrap64\<close>), maps as association
  lists behind the interface \<open>go_map\<close>, instants in nanoseconds, number parsing and printing, trimming, case
  mapping, glob patterns, host and port pairs, IP addresses.

  \<^bold>\<open>Store.\<close>  \<open>Store_Core\<close> has the state (\<open>store\<close>: shards, memory counter, LRU lists, watch versions) and its
  invariant, \<open>Store_Evict\<close> eviction and the memory guard (interface \<open>evictor\<close>, interpreted for every policy),
  \<open>Store_Steps\<close> the primitive steps every method consists of (interface \<open>store_operation\<close>) and the methods that write
  at most once (\<open>once\<close>), and \<open>Store_Strings\<close>, \<open>Store_Keys\<close>,
  \<open>Store_Hash\<close>, \<open>Store_Set\<close>, \<open>Store_List\<close>, \<open>Store_Snapshot\<close> the methods, under the names of the source.  \<open>Store_Calls\<close>
  shows that every history of calls keeps the store well formed, what the memory counter says, which keys
  an eviction may take, that a call advances a watch version by at most three, and so that a change shows in
  the version.  \<open>Store_Spec\<close> is the abstract database and the simulation by which the store refines it
  without a memory limit (interface \<open>timed_simulation\<close>), and the types of values, under a limit too.

  \<^bold>\<open>Protocol and configuration.\<close>  \<open>Resp\<close> has the parser and the writer, with the round trip, the limits and termination.
  \<open>Config\<close> has defaults, validation, memory sizes, peer lists and hot reload.

  \<^bold>\<open>Commands and connections.\<close>  \<open>Cmd_Base\<close> has replies and errors, \<open>Cmd_Strings\<close>, \<open>Cmd_Keys\<close>, \<open>Cmd_Hash\<close>, \<open>Cmd_List\<close>,
  \<open>Cmd_Set\<close> and \<open>Cmd_Session\<close> the handlers, \<open>Cmd_Registry\<close> the table and the dispatch, \<open>Client\<close> the sessions and
  subscriptions, \<open>Server_Conn\<close> the loop of a connection.  \<open>Cmd_Steps\<close> shows that a command is a sequence of store calls,
  \<open>Server_Inv\<close> what a connection keeps whatever it is sent, and \<open>Server_Safety\<close> what a client may rely on:
  authentication, transactions, order, answers, published messages.

  \<^bold>\<open>Replication.\<close>  \<open>Replication\<close> has the payloads and their application, \<open>Server_Stats\<close> the counters of the server,
  \<open>Peer_Service\<close> the state of the mesh (record \<open>service\<close>).  \<open>Peer_Links\<close> has the choice of links, the fan-out, the queues and
  the shutdown, and shows that a write is queued at most once for every node, and exactly once on the best
  link for a connected node none of whose links is being torn down.  \<open>Peer_Gaps\<close> tracks sequence numbers and
  shows that losses are found, and nothing else is reported as long as no number skips far ahead or falls
  back to 1.  \<open>Peer_Members\<close> has the addresses a node knows and shows that it never adds itself, never lists one
  twice and forgets only what it may forget.
  \<open>Peer_Inbound\<close> has the workers and the buffer of a bootstrap as a step relation of the goroutines and
  shows that the events of an origin are applied in order.  Each of the last four also shows where the code
  departs from this.

  \<^bold>\<open>Steps.\<close>  A method of the store runs under the locks the code takes and is one step.  In \<open>Peer_Inbound\<close> a
  worker takes a job and reads the bootstrap flag in one step and acts in another; each of these is one
  operation of the code or a read next to one.  The end of a session takes three steps, in which its link
  is cancelled, marked as stopped and removed.  Adding or removing
  a peer is one step of the membership, although the code gives up the lock of the configuration before it
  records the source of the address and starts the dial loop.  The server runs with a configuration and with its counters, so the branches for their absence
  are left out.  Writing to a connection does not fail in the model of the commands.

  \<^bold>\<open>Fuel and bounds.\<close>  The parser of nested values has one unit of fuel per byte of input, which \<open>Resp\<close> shows to be enough.
  A dispatch recurses through \<open>EXEC\<close>; \<open>Server_Safety\<close> shows that two levels are enough.  The 500 rounds of
  \<open>DrainBootstrapInboundQueue\<close> and the 1024 places of a shard are those of the source.  The number of processors, which is the number of
  workers, is below two to the 32.  Floating-point parsing, addition and printing, the file system and the YAML and TOML
  decoders are parameters.

  \<^bold>\<open>Not modelled.\<close>  The JSON frames of the peer protocol and the handshake over them, the socket loops of the peer
  sessions and the transfer of a snapshot (what they do to the service and the store is modelled by the
  operations they call), the start, the resync scheduling and the shutdown of the server, the metrics page, the
  management interface, the choice of a node's address from the interfaces of the host, the discovery of
  peers, logging, TLS settings and the command line programs.  Most of this is input and output; the
  JSON encoding is the part whose model would say more about replication.
\<close>

end
